(* ===== verification/Prelude.thy ===== *)
theory Prelude
  imports Main "HOL-Library.Word" "HOL-Library.Monad_Syntax"
begin

text \<open>
  Shared vocabulary of the development: the machine integer types of the C++ sources, the
  reading of an optional result as "defined behaviour", and the generic lemmas on lists, words
  and options that the component theories use.

  \<^item> \<open>u64\<close>, \<open>i64\<close> and \<open>size_t\<close> are 64-bit words. A signed value (\<^verbatim>\<open>std::int64_t\<close>) is the
    word of its two's complement representation and is read with \<^const>\<open>sint\<close>; an unsigned
    value is read with \<^const>\<open>unat\<close>.
  \<^item> A C++ function that can run into undefined behaviour (an index out of range, a null level
    pointer, an iterator that is not valid for its container, signed overflow) or that may loop
    forever is modelled with an \<open>option\<close> result: \<^const>\<open>None\<close> stands for both. The safety
    theorems show that \<^const>\<open>Some\<close> is returned.
\<close>

type_synonym u8 = "8 word"
type_synonym u64 = "64 word"
type_synonym i64 = "64 word"
type_synonym size_t = "64 word"

text \<open>The definitions of the abstract book's operations; \<open>spec_ops\<close> unfolds an event down to the live orders.\<close>

named_theorems spec_ops

section \<open>Signed words\<close>

lemma sint_eq_iff: "sint (a :: i64) = sint b \<longleftrightarrow> a = b"
  by (auto dest: signed_word_eqI)

lemma sint_neq_cases: "(a :: i64) \<noteq> b \<Longrightarrow> sint a < sint b \<or> sint b < sint a"
  by (metis linorder_neqE sint_eq_iff)

lemma unat_eq_iff: "unat (a :: u64) = unat b \<longleftrightarrow> a = b"
  by (simp add: word_unat_eq_iff)

section \<open>Sizes and sums of words\<close>

lemma of_nat_size_inj:
  assumes "m < 2 ^ 64" and "n < 2 ^ 64"
  shows "(of_nat m :: size_t) = of_nat n \<longleftrightarrow> m = n"
proof
  assume "(of_nat m :: size_t) = of_nat n"
  then have "unat (of_nat m :: size_t) = unat (of_nat n :: size_t)" by simp
  with assms show "m = n" by (simp add: unat_of_nat)
qed simp

lemma of_nat_size_zero_iff: "m < 2 ^ 64 \<Longrightarrow> (of_nat m :: size_t) = 0 \<longleftrightarrow> m = 0"
  using of_nat_size_inj [of m 0] by simp

lemma of_nat_size_less_iff: "m < 2 ^ 64 \<Longrightarrow> (of_nat m :: size_t) < n \<longleftrightarrow> m < unat n"
  by (simp add: word_less_nat_alt unat_of_nat)

lemma unat_size_less: "unat (n :: size_t) < 2 ^ 64"
  using unsigned_less [of n] by simp

lemma unat_plus_one:
  assumes "Suc (unat (w :: u64)) < 2 ^ 64"
  shows "unat (w + 1) = Suc (unat w)"
proof -
  have "unat (w + 1) = unat (of_nat (Suc (unat w)) :: u64)" by (simp add: add.commute)
  also have "\<dots> = Suc (unat w)" unfolding unat_of_nat using assms by (intro mod_less) simp
  finally show ?thesis .
qed

lemma sum_list_word_nat:
  "sum_list (map f xs) = (of_nat (sum_list (map (\<lambda>x. unat (f x)) xs)) :: u64)"
  by (induction xs) simp_all

lemma unat_sum_list_word:
  fixes f :: "'a \<Rightarrow> u64"
  assumes "sum_list (map (\<lambda>x. unat (f x)) xs) < 2 ^ 64"
  shows "unat (sum_list (map f xs)) = sum_list (map (\<lambda>x. unat (f x)) xs)"
  using assms unfolding sum_list_word_nat by (simp add: unat_of_nat)

section \<open>Injective assignments\<close>

lemma inj_on_extend: "inj_on f X \<Longrightarrow> i \<notin> X \<Longrightarrow> n \<notin> f ` X \<Longrightarrow> inj_on (f(i := n)) (insert i X)"
  by (auto simp: inj_on_def)

lemma upd_fresh_key: "i \<notin> f ` X \<Longrightarrow> y \<in> X \<Longrightarrow> (g(i := n)) (f y) = g (f y)"
  by auto

section \<open>Lists keyed by a field\<close>

lemma find_None_filter: "find P xs = None \<longleftrightarrow> filter P xs = []"
  by (induction xs) auto

lemma find_append: "find P (xs @ ys) = (case find P xs of None \<Rightarrow> find P ys | Some x \<Rightarrow> Some x)"
  by (induction xs) auto

lemma find_SomeD: "find P xs = Some x \<Longrightarrow> x \<in> set xs \<and> P x"
  by (induction xs) (auto split: if_splits)

lemma find_key_iff:
  assumes "distinct (map f xs)"
  shows "find (\<lambda>x. f x = k) xs = Some x \<longleftrightarrow> x \<in> set xs \<and> f x = k"
  using assms by (induction xs) (auto simp: image_iff)

lemma find_key_None_iff: "find (\<lambda>x. f x = k) xs = None \<longleftrightarrow> k \<notin> f ` set xs"
  by (induction xs) auto

lemma distinct_map_filter_key: "distinct (map f xs) \<Longrightarrow> distinct (map f (filter P xs))"
  by (induction xs) auto

lemma filter_neq_key_split:
  assumes "distinct (map f (xs @ x # ys))"
  shows "filter (\<lambda>z. f z \<noteq> f x) (xs @ x # ys) = xs @ ys"
proof -
  have "\<forall>z \<in> set (xs @ ys). f z \<noteq> f x"
    using assms by (auto simp: image_iff)
  then show ?thesis by simp
qed

lemma length_filter_neq_key:
  assumes "distinct (map f xs)" and "x \<in> set xs"
  shows "length xs = Suc (length (filter (\<lambda>z. f z \<noteq> f x) xs))"
proof -
  from assms(2) obtain ys zs where xs: "xs = ys @ x # zs"
    by (auto simp: in_set_conv_decomp)
  then show ?thesis
    using filter_neq_key_split [of f ys x zs] assms(1) by simp
qed

lemma sum_list_filter_neq_key:
  fixes g :: "'a \<Rightarrow> u64"
  assumes "distinct (map f xs)" and "x \<in> set xs"
  shows "sum_list (map g (filter (\<lambda>z. f z \<noteq> f x) xs)) = sum_list (map g xs) - g x"
proof -
  from assms(2) obtain ys zs where xs: "xs = ys @ x # zs"
    by (auto simp: in_set_conv_decomp)
  then show ?thesis
    using filter_neq_key_split [of f ys x zs] assms(1) by simp
qed

lemma sum_list_map_upd_key:
  fixes g :: "'a \<Rightarrow> u64"
  assumes "distinct (map f xs)" and "x \<in> set xs"
  shows "sum_list (map g (map (\<lambda>z. if f z = f x then h z else z) xs))
    = sum_list (map g xs) - g x + g (h x)"
proof -
  from assms(2) obtain ys zs where xs: "xs = ys @ x # zs"
    by (auto simp: in_set_conv_decomp)
  with assms(1) have "\<forall>z \<in> set (ys @ zs). f z \<noteq> f x"
    by (auto simp: image_iff)
  then have "map (\<lambda>z. if f z = f x then h z else z) xs = ys @ h x # zs"
    by (simp add: xs map_idI)
  then show ?thesis by (simp add: xs)
qed

lemma of_nat_u64_inj: "i < 2 ^ 64 \<Longrightarrow> j < 2 ^ 64 \<Longrightarrow> (of_nat i :: u64) = of_nat j \<Longrightarrow> i = j"
  by (simp add: of_nat_size_inj)

end
