(* ===== verification/Core_Types.thy ===== *)
theory Core_Types
  imports Prelude
begin

text \<open>
  The domain types of \<^verbatim>\<open>include/datagine/core/types.hpp\<close> and \<^verbatim>\<open>market_event.hpp\<close>, and the printers
  of \<^verbatim>\<open>src/core/market_event.cpp\<close>. The strong typedefs \<^verbatim>\<open>Price\<close>, \<^verbatim>\<open>Quantity\<close>, \<^verbatim>\<open>OrderId\<close> and
  \<^verbatim>\<open>Timestamp\<close> are datatypes with one constructor; their defaulted \<^verbatim>\<open>operator<=>\<close> is an instance
  of \<open>linorder\<close>, signed for prices and timestamps and unsigned for quantities and ids.
  \<^verbatim>\<open>EventType::Trade\<close> is the same enumerator as \<^verbatim>\<open>Execute\<close>. Enumerator values outside the
  declared ones (reachable in C++ only through a cast) are not modelled.
\<close>

datatype Side = Buy | Sell

datatype EventType = Add | Modify | Cancel | Execute

abbreviation Trade :: EventType where
  "Trade \<equiv> Execute"

datatype Price = Price (ticks: i64)

datatype Quantity = Quantity (units: u64)

datatype OrderId = OrderId (id_value: u64)

datatype Timestamp = Timestamp (nanoseconds: i64)

record MarketEvent =
  ev_type :: EventType
  ev_timestamp :: Timestamp
  ev_order_id :: OrderId
  ev_side :: Side
  ev_price :: Price
  ev_quantity :: Quantity

fun side_to_string :: "Side \<Rightarrow> string" where
  "side_to_string Buy = ''buy''"
| "side_to_string Sell = ''sell''"

fun event_type_to_string :: "EventType \<Rightarrow> string" where
  "event_type_to_string Add = ''add''"
| "event_type_to_string Modify = ''modify''"
| "event_type_to_string Cancel = ''cancel''"
| "event_type_to_string Execute = ''execute''"

instantiation Price :: linorder
begin

definition less_eq_Price :: "Price \<Rightarrow> Price \<Rightarrow> bool" where
  "less_eq_Price a b \<longleftrightarrow> sint (ticks a) \<le> sint (ticks b)"

definition less_Price :: "Price \<Rightarrow> Price \<Rightarrow> bool" where
  "less_Price a b \<longleftrightarrow> sint (ticks a) < sint (ticks b)"

instance
  by standard (auto simp: less_eq_Price_def less_Price_def sint_eq_iff intro: Price.expand dest: antisym)

end

instantiation Timestamp :: linorder
begin

definition less_eq_Timestamp :: "Timestamp \<Rightarrow> Timestamp \<Rightarrow> bool" where
  "less_eq_Timestamp a b \<longleftrightarrow> sint (nanoseconds a) \<le> sint (nanoseconds b)"

definition less_Timestamp :: "Timestamp \<Rightarrow> Timestamp \<Rightarrow> bool" where
  "less_Timestamp a b \<longleftrightarrow> sint (nanoseconds a) < sint (nanoseconds b)"

instance
  by standard
    (auto simp: less_eq_Timestamp_def less_Timestamp_def sint_eq_iff intro: Timestamp.expand dest: antisym)

end

instantiation Quantity :: linorder
begin

definition less_eq_Quantity :: "Quantity \<Rightarrow> Quantity \<Rightarrow> bool" where
  "less_eq_Quantity a b \<longleftrightarrow> units a \<le> units b"

definition less_Quantity :: "Quantity \<Rightarrow> Quantity \<Rightarrow> bool" where
  "less_Quantity a b \<longleftrightarrow> units a < units b"

instance
  by standard (auto simp: less_eq_Quantity_def less_Quantity_def intro: Quantity.expand)

end

instantiation OrderId :: linorder
begin

definition less_eq_OrderId :: "OrderId \<Rightarrow> OrderId \<Rightarrow> bool" where
  "less_eq_OrderId a b \<longleftrightarrow> id_value a \<le> id_value b"

definition less_OrderId :: "OrderId \<Rightarrow> OrderId \<Rightarrow> bool" where
  "less_OrderId a b \<longleftrightarrow> id_value a < id_value b"

instance
  by standard (auto simp: less_eq_OrderId_def less_OrderId_def intro: OrderId.expand)

end

lemma all_Side: "(\<forall>s. P s) \<longleftrightarrow> P Buy \<and> P Sell"
  by (metis Side.exhaust)

lemma Price_eq_iff: "ticks p = ticks q \<longleftrightarrow> p = q"
  by (auto intro: Price.expand)

lemma Quantity_eq_iff: "units p = units q \<longleftrightarrow> p = q"
  by (auto intro: Quantity.expand)

lemma OrderId_eq_iff: "id_value p = id_value q \<longleftrightarrow> p = q"
  by (auto intro: OrderId.expand)

lemma id_value_image_iff: "k \<in> id_value ` X \<longleftrightarrow> OrderId k \<in> X"
proof
  assume "k \<in> id_value ` X"
  then show "OrderId k \<in> X" by auto
next
  assume "OrderId k \<in> X"
  then have "id_value (OrderId k) \<in> id_value ` X" by (rule imageI)
  then show "k \<in> id_value ` X" by simp
qed

lemma Timestamp_eq_iff: "nanoseconds p = nanoseconds q \<longleftrightarrow> p = q"
  by (auto intro: Timestamp.expand)

end
