(* ===== verification/Book_Types.thy ===== *)
theory Book_Types
  imports Core_Types
begin

text \<open>
  The public result and view types that both order books share
  (\<^verbatim>\<open>include/datagine/book/limit_order_book.hpp\<close>), and the printer of \<^verbatim>\<open>BookResult\<close>
  (\<^verbatim>\<open>src/book/limit_order_book.cpp\<close>).
\<close>

datatype BookResult =
    Applied
  | DuplicateOrderId
  | MissingOrderId
  | InvalidQuantity
  | InsufficientQuantity
  | UnsupportedModify
  | CapacityExceeded

fun book_result_to_string :: "BookResult \<Rightarrow> string" where
  "book_result_to_string Applied = ''applied''"
| "book_result_to_string DuplicateOrderId = ''duplicate order id''"
| "book_result_to_string MissingOrderId = ''missing order id''"
| "book_result_to_string InvalidQuantity = ''invalid quantity''"
| "book_result_to_string InsufficientQuantity = ''insufficient quantity''"
| "book_result_to_string UnsupportedModify = ''unsupported modify''"
| "book_result_to_string CapacityExceeded = ''capacity exceeded''"

record PriceLevelView =
  pv_price :: Price
  pv_quantity :: Quantity
  pv_order_count :: size_t

record TopOfBook =
  top_bid :: "PriceLevelView option"
  top_ask :: "PriceLevelView option"

record BookDepth =
  depth_bids :: "PriceLevelView list"
  depth_asks :: "PriceLevelView list"

record OrderView =
  ov_order_id :: OrderId
  ov_timestamp :: Timestamp
  ov_quantity :: Quantity

record PriceLevelSnapshot =
  ps_price :: Price
  ps_quantity :: Quantity
  ps_orders :: "OrderView list"

record BookSnapshot =
  snap_bids :: "PriceLevelSnapshot list"
  snap_asks :: "PriceLevelSnapshot list"

record InvariantOptions =
  allow_crossed_book :: bool

record Stats =
  st_events_applied :: u64

end
