(* ===== verification/Std_Containers.thy ===== *)
theory Std_Containers
  imports Prelude
begin

text \<open>
  The parts of the C++ standard containers that the sources use.

  \<^item> \<^verbatim>\<open>std::vector\<close>: a list; indexing outside the vector is undefined behaviour.
  \<^item> \<^verbatim>\<open>std::list\<close>: a list of nodes, each an address with an element. An iterator is the address
    of its node; it stays valid while the node is in the list. Using an iterator that does not
    point into the given list is undefined behaviour.
  \<^item> \<^verbatim>\<open>std::unordered_map\<close>: an association list with distinct keys. The iteration order of the
    C++ container is unspecified; the model iterates in list order.
  \<^item> \<^verbatim>\<open>std::map\<close>: an association list sorted by the comparator, so that \<^verbatim>\<open>begin()\<close> is the head.
    The comparator laws are the locale \<open>comparator\<close>, interpreted for \<^verbatim>\<open>std::less<>\<close> and
    \<^verbatim>\<open>std::greater<>\<close> on \<^verbatim>\<open>std::int64_t\<close>.
\<close>

section \<open>Exceptions\<close>

datatype cpp_exception = LengthError | InvalidArgument string

section \<open>std::vector\<close>

definition vec_at :: "'a list \<Rightarrow> size_t \<Rightarrow> 'a option" where
  "vec_at xs i = (if unat i < length xs then Some (xs ! unat i) else None)"

definition vec_set :: "'a list \<Rightarrow> size_t \<Rightarrow> 'a \<Rightarrow> 'a list option" where
  "vec_set xs i x = (if unat i < length xs then Some (xs[unat i := x]) else None)"

lemma vec_set_SomeD: "vec_set xs i x = Some ys \<Longrightarrow> length ys = length xs"
  by (auto simp: vec_set_def split: if_splits)

lemma vec_at_set:
  "vec_set xs i x = Some ys \<Longrightarrow> vec_at ys j = (if i = j then Some x else vec_at xs j)"
  by (auto simp: vec_set_def vec_at_def nth_list_update unat_eq_iff split: if_splits)

lemma vec_at_None_iff: "vec_at xs i = None \<longleftrightarrow> length xs \<le> unat i"
  by (simp add: vec_at_def)

lemma vec_set_ex: "vec_at xs i = Some y \<Longrightarrow> \<exists>ys. vec_set xs i x = Some ys"
  by (auto simp: vec_set_def vec_at_def split: if_splits)

section \<open>std::list\<close>

type_synonym 'a std_list = "(nat \<times> 'a) list"
type_synonym iter = nat

definition list_push_back :: "iter \<Rightarrow> 'a \<Rightarrow> 'a std_list \<Rightarrow> 'a std_list" where
  "list_push_back a x q = q @ [(a, x)]"

definition list_erase :: "iter \<Rightarrow> 'a std_list \<Rightarrow> 'a std_list option" where
  "list_erase a q = (if a \<in> set (map fst q) then Some (filter (\<lambda>n. fst n \<noteq> a) q) else None)"

definition list_write :: "iter \<Rightarrow> ('a \<Rightarrow> 'a) \<Rightarrow> 'a std_list \<Rightarrow> 'a std_list option" where
  "list_write a f q = (if a \<in> set (map fst q)
     then Some (map (\<lambda>n. if fst n = a then (a, f (snd n)) else n) q) else None)"

section \<open>Association lists: std::unordered\_map\<close>

definition al_assign :: "'k \<Rightarrow> 'v \<Rightarrow> ('k \<times> 'v) list \<Rightarrow> ('k \<times> 'v) list" where
  "al_assign k v m = map (\<lambda>e. if fst e = k then (k, v) else e) m"

definition al_erase :: "'k \<Rightarrow> ('k \<times> 'v) list \<Rightarrow> ('k \<times> 'v) list" where
  "al_erase k m = filter (\<lambda>e. fst e \<noteq> k) m"

definition um_emplace :: "'k \<Rightarrow> 'v \<Rightarrow> ('k \<times> 'v) list \<Rightarrow> ('k \<times> 'v) list" where
  "um_emplace k v m = (case map_of m k of None \<Rightarrow> (k, v) # m | Some _ \<Rightarrow> m)"

lemma keys_al_assign [simp]: "map fst (al_assign k v m) = map fst m"
  by (simp add: al_assign_def)

lemma map_of_al_assign:
  "map_of (al_assign k v m) = (if map_of m k = None then map_of m else (map_of m)(k \<mapsto> v))"
  by (induction m) (auto simp: al_assign_def fun_eq_iff)

lemma keys_al_erase: "map fst (al_erase k m) = filter (\<lambda>x. x \<noteq> k) (map fst m)"
  by (induction m) (auto simp: al_erase_def)

lemma map_of_al_erase: "map_of (al_erase k m) = (map_of m)(k := None)"
  by (induction m) (auto simp: al_erase_def fun_eq_iff)

lemma distinct_al_erase: "distinct (map fst m) \<Longrightarrow> distinct (map fst (al_erase k m))"
  by (simp add: keys_al_erase)

lemma distinct_um_emplace: "distinct (map fst m) \<Longrightarrow> distinct (map fst (um_emplace k v m))"
  by (auto simp: um_emplace_def map_of_eq_None_iff split: option.splits)

lemma map_of_um_emplace: "map_of m k = None \<Longrightarrow> map_of (um_emplace k v m) = (map_of m)(k \<mapsto> v)"
  by (simp add: um_emplace_def fun_eq_iff)

lemma alist_of_keys:
  assumes "distinct (map fst m)"
  shows "m = map (\<lambda>k. (k, the (map_of m k))) (map fst m)"
proof -
  have "(fst e, the (map_of m (fst e))) = e" if "e \<in> set m" for e
    using assms that by (cases e) (simp add: map_of_is_SomeI)
  then have "map (\<lambda>e. (fst e, the (map_of m (fst e)))) m = m" by (simp add: map_idI)
  then show ?thesis by (simp add: comp_def)
qed

lemmas al_lookup = map_of_al_assign map_of_al_erase map_of_um_emplace

section \<open>std::map\<close>

text \<open>
  \<^verbatim>\<open>m[k]\<close>: the map in which \<open>k\<close> is present, with a value-initialised element inserted at its
  place in the order when it was absent. The element is then mutated through the reference
  (\<^const>\<open>al_assign\<close>).
\<close>

fun om_subscript :: "('k \<Rightarrow> 'k \<Rightarrow> bool) \<Rightarrow> 'v \<Rightarrow> 'k \<Rightarrow> ('k \<times> 'v) list \<Rightarrow> ('k \<times> 'v) list" where
  "om_subscript lt d k [] = [(k, d)]"
| "om_subscript lt d k ((a, b) # m) =
     (if lt k a then (k, d) # (a, b) # m
      else if lt a k then (a, b) # om_subscript lt d k m
      else (a, b) # m)"

locale comparator =
  fixes lt :: "'k \<Rightarrow> 'k \<Rightarrow> bool"
  assumes lt_irrefl: "\<not> lt a a"
    and lt_trans: "lt a b \<Longrightarrow> lt b c \<Longrightarrow> lt a c"
    and lt_total: "a \<noteq> b \<Longrightarrow> lt a b \<or> lt b a"
begin

lemma keys_subscript: "fst ` set (om_subscript lt d k m) = insert k (fst ` set m)"
proof (induction m)
  case (Cons e m)
  obtain a b where "e = (a, b)" by force
  with Cons lt_total [of k a] show ?case by (auto simp: image_iff)
qed simp

lemma sorted_subscript:
  "sorted_wrt lt (map fst m) \<Longrightarrow> sorted_wrt lt (map fst (om_subscript lt d k m))"
proof (induction m)
  case (Cons e m)
  obtain a b where e: "e = (a, b)" by force
  have "\<forall>x \<in> fst ` set (om_subscript lt d k m). lt a x" if "lt a k"
    using Cons.prems that by (auto simp: keys_subscript e)
  moreover have "\<forall>x \<in> fst ` set m. lt k x" if "lt k a"
    using Cons.prems that lt_trans by (auto simp: e)
  ultimately show ?case using Cons by (auto simp: e)
qed simp

lemma map_of_subscript:
  "sorted_wrt lt (map fst m) \<Longrightarrow>
   map_of (om_subscript lt d k m) = (if map_of m k = None then (map_of m)(k \<mapsto> d) else map_of m)"
proof (induction m)
  case (Cons e m)
  obtain a b where e: "e = (a, b)" by force
  have "map_of m k = None" if "lt k a"
    using Cons.prems that lt_trans lt_irrefl by (fastforce simp: e map_of_eq_None_iff)
  with Cons lt_irrefl lt_total [of k a] show ?case by (auto simp: e fun_eq_iff)
qed simp

lemma sorted_al_erase: "sorted_wrt lt (map fst m) \<Longrightarrow> sorted_wrt lt (map fst (al_erase k m))"
  by (simp add: keys_al_erase sorted_wrt_filter)

lemma sorted_keys_distinct: "sorted_wrt lt ks \<Longrightarrow> distinct ks"
  using lt_irrefl by (induction ks) auto

lemma sorted_keys_unique:
  "sorted_wrt lt xs \<Longrightarrow> sorted_wrt lt ys \<Longrightarrow> set xs = set ys \<Longrightarrow> xs = ys"
proof (induction xs arbitrary: ys)
  case (Cons x xs)
  then obtain y zs where ys: "ys = y # zs" by (cases ys) auto
  have "x = y"
  proof (rule ccontr)
    assume "x \<noteq> y"
    with Cons.prems have "lt y x" "lt x y" by (auto simp: ys)
    then show False using lt_trans lt_irrefl by blast
  qed
  moreover have "x \<notin> set xs" and "y \<notin> set zs"
    using Cons.prems lt_irrefl by (auto simp: ys)
  then have "set xs = set zs"
    using Cons.prems \<open>x = y\<close> by (auto simp: ys)
  ultimately show ?case using Cons by (simp add: ys)
qed simp

lemma sorted_map_unique:
  assumes "sorted_wrt lt (map fst m)" and "sorted_wrt lt (map fst m')" and "map_of m = map_of m'"
  shows "m = m'"
proof -
  have "set (map fst m) = set (map fst m')"
    using assms(3) by (simp flip: dom_map_of_conv_image_fst)
  then have "map fst m = map fst m'"
    using assms by (intro sorted_keys_unique) simp_all
  then show ?thesis
    using assms alist_of_keys [of m] alist_of_keys [of m'] by (simp add: sorted_keys_distinct)
qed

lemma begin_is_least: "sorted_wrt lt (k # ks) \<Longrightarrow> x \<in> set (k # ks) \<Longrightarrow> x = k \<or> lt k x"
  by auto

end

definition std_less :: "i64 \<Rightarrow> i64 \<Rightarrow> bool" where
  "std_less a b \<longleftrightarrow> sint a < sint b"

definition std_greater :: "i64 \<Rightarrow> i64 \<Rightarrow> bool" where
  "std_greater a b \<longleftrightarrow> sint a > sint b"

interpretation less_cmp: comparator std_less
  by unfold_locales (auto simp: std_less_def sint_neq_cases)

interpretation greater_cmp: comparator std_greater
  by unfold_locales (auto simp: std_greater_def dest: sint_neq_cases)

end
