(* ===== verification/Book_Spec.thy ===== *)
theory Book_Spec
  imports Book_Types Std_Containers "HOL-Library.Multiset"
begin

text \<open>
  The abstract specification of an order book: the list of live orders in arrival order, with
  the number of applied events. A price level is not stored; it is the sublist of the live
  orders of one side and one price, so price-time priority holds by construction. The two
  implementations (\<^verbatim>\<open>LimitOrderBook\<close> and \<^verbatim>\<open>PooledLimitOrderBook\<close>) are shown to refine it; the
  interface they both satisfy is the locale \<open>order_book\<close>.
\<close>

record order =
  o_id :: OrderId
  o_side :: Side
  o_price :: Price
  o_timestamp :: Timestamp
  o_quantity :: Quantity

record spec_book =
  sb_capacity :: "nat option"
  sb_orders :: "order list"
  sb_applied :: u64

definition spec_empty :: "nat option \<Rightarrow> spec_book" where
  "spec_empty cap = \<lparr>sb_capacity = cap, sb_orders = [], sb_applied = 0\<rparr>"

definition spec_clear :: "spec_book \<Rightarrow> spec_book" where
  "spec_clear S = spec_empty (sb_capacity S)"

section \<open>Updates of the live orders\<close>

definition find_order :: "order list \<Rightarrow> OrderId \<Rightarrow> order option" where
  "find_order A i = find (\<lambda>x. o_id x = i) A"

definition remove_order :: "OrderId \<Rightarrow> order list \<Rightarrow> order list" where
  "remove_order i A = filter (\<lambda>x. o_id x \<noteq> i) A"

definition set_quantity :: "OrderId \<Rightarrow> Quantity \<Rightarrow> order list \<Rightarrow> order list" where
  "set_quantity i q A = map (\<lambda>x. if o_id x = i then x\<lparr>o_quantity := q\<rparr> else x) A"

definition spec_commit :: "order list \<Rightarrow> spec_book \<Rightarrow> BookResult \<times> spec_book" where
  "spec_commit A S = (Applied, S\<lparr>sb_orders := A, sb_applied := sb_applied S + 1\<rparr>)"

definition at_capacity :: "spec_book \<Rightarrow> bool" where
  "at_capacity S = (case sb_capacity S of None \<Rightarrow> False | Some n \<Rightarrow> n \<le> length (sb_orders S))"

definition spec_add :: "spec_book \<Rightarrow> order \<Rightarrow> BookResult \<times> spec_book" where
  "spec_add S x =
     (if units (o_quantity x) = 0 then (InvalidQuantity, S)
      else if find_order (sb_orders S) (o_id x) \<noteq> None then (DuplicateOrderId, S)
      else if at_capacity S then (CapacityExceeded, S)
      else spec_commit (sb_orders S @ [x]) S)"

definition spec_cancel :: "spec_book \<Rightarrow> OrderId \<Rightarrow> BookResult \<times> spec_book" where
  "spec_cancel S i =
     (case find_order (sb_orders S) i of
        None \<Rightarrow> (MissingOrderId, S)
      | Some x \<Rightarrow> spec_commit (remove_order i (sb_orders S)) S)"

definition spec_modify :: "spec_book \<Rightarrow> OrderId \<Rightarrow> Quantity \<Rightarrow> BookResult \<times> spec_book" where
  "spec_modify S i q =
     (if units q = 0 then (InvalidQuantity, S)
      else case find_order (sb_orders S) i of
        None \<Rightarrow> (MissingOrderId, S)
      | Some x \<Rightarrow>
          if units (o_quantity x) < units q then (UnsupportedModify, S)
          else spec_commit (set_quantity i q (sb_orders S)) S)"

definition spec_execute :: "spec_book \<Rightarrow> OrderId \<Rightarrow> Quantity \<Rightarrow> BookResult \<times> spec_book" where
  "spec_execute S i q =
     (if units q = 0 then (InvalidQuantity, S)
      else case find_order (sb_orders S) i of
        None \<Rightarrow> (MissingOrderId, S)
      | Some x \<Rightarrow>
          if units (o_quantity x) < units q then (InsufficientQuantity, S)
          else if units q = units (o_quantity x)
          then spec_commit (remove_order i (sb_orders S)) S
          else spec_commit (set_quantity i (Quantity (units (o_quantity x) - units q)) (sb_orders S)) S)"

definition event_order :: "MarketEvent \<Rightarrow> order" where
  "event_order e = \<lparr>o_id = ev_order_id e, o_side = ev_side e, o_price = ev_price e,
     o_timestamp = ev_timestamp e, o_quantity = ev_quantity e\<rparr>"

definition spec_apply :: "spec_book \<Rightarrow> MarketEvent \<Rightarrow> BookResult \<times> spec_book" where
  "spec_apply S e =
     (case ev_type e of
        Add \<Rightarrow> spec_add S (event_order e)
      | Modify \<Rightarrow> spec_modify S (ev_order_id e) (ev_quantity e)
      | Cancel \<Rightarrow> spec_cancel S (ev_order_id e)
      | Execute \<Rightarrow> spec_execute S (ev_order_id e) (ev_quantity e))"

declare spec_apply_def [spec_ops] spec_add_def [spec_ops] spec_cancel_def [spec_ops] spec_modify_def [spec_ops]
  spec_execute_def [spec_ops] spec_commit_def [spec_ops]

fun spec_run :: "spec_book \<Rightarrow> MarketEvent list \<Rightarrow> BookResult list \<times> spec_book" where
  "spec_run S [] = ([], S)"
| "spec_run S (e # es) =
     (fst (spec_apply S e) # fst (spec_run (snd (spec_apply S e)) es),
      snd (spec_run (snd (spec_apply S e)) es))"

section \<open>What a book shows\<close>

fun side_lt :: "Side \<Rightarrow> i64 \<Rightarrow> i64 \<Rightarrow> bool" where
  "side_lt Buy = std_greater"
| "side_lt Sell = std_less"

definition level_orders :: "Side \<Rightarrow> i64 \<Rightarrow> order list \<Rightarrow> order list" where
  "level_orders s p A = filter (\<lambda>x. o_side x = s \<and> ticks (o_price x) = p) A"

definition orders_total :: "order list \<Rightarrow> u64" where
  "orders_total A = sum_list (map (\<lambda>x. units (o_quantity x)) A)"

definition spec_prices :: "Side \<Rightarrow> order list \<Rightarrow> i64 list" where
  "spec_prices s A =
     (let ps = sort_key sint (remdups (map (\<lambda>x. ticks (o_price x)) (filter (\<lambda>x. o_side x = s) A)))
      in if s = Buy then rev ps else ps)"

definition order_view :: "order \<Rightarrow> OrderView" where
  "order_view x = \<lparr>ov_order_id = o_id x, ov_timestamp = o_timestamp x, ov_quantity = o_quantity x\<rparr>"

definition spec_view :: "Side \<Rightarrow> order list \<Rightarrow> i64 \<Rightarrow> PriceLevelView" where
  "spec_view s A p = \<lparr>pv_price = Price p, pv_quantity = Quantity (orders_total (level_orders s p A)),
     pv_order_count = of_nat (length (level_orders s p A))\<rparr>"

definition spec_level_snapshot :: "Side \<Rightarrow> order list \<Rightarrow> i64 \<Rightarrow> PriceLevelSnapshot" where
  "spec_level_snapshot s A p = \<lparr>ps_price = Price p,
     ps_quantity = Quantity (orders_total (level_orders s p A)),
     ps_orders = map order_view (level_orders s p A)\<rparr>"

definition spec_views :: "Side \<Rightarrow> spec_book \<Rightarrow> PriceLevelView list" where
  "spec_views s S = map (spec_view s (sb_orders S)) (spec_prices s (sb_orders S))"

definition first_view :: "'a list \<Rightarrow> 'a option" where
  "first_view vs = (case vs of [] \<Rightarrow> None | v # _ \<Rightarrow> Some v)"

definition spec_top :: "spec_book \<Rightarrow> TopOfBook" where
  "spec_top S = \<lparr>top_bid = first_view (spec_views Buy S), top_ask = first_view (spec_views Sell S)\<rparr>"

definition spec_depth :: "spec_book \<Rightarrow> size_t \<Rightarrow> BookDepth" where
  "spec_depth S n = \<lparr>depth_bids = take (unat n) (spec_views Buy S),
     depth_asks = take (unat n) (spec_views Sell S)\<rparr>"

definition spec_snapshot :: "spec_book \<Rightarrow> BookSnapshot" where
  "spec_snapshot S =
     \<lparr>snap_bids = map (spec_level_snapshot Buy (sb_orders S)) (spec_prices Buy (sb_orders S)),
      snap_asks = map (spec_level_snapshot Sell (sb_orders S)) (spec_prices Sell (sb_orders S))\<rparr>"

definition spec_ids_at_price :: "spec_book \<Rightarrow> Side \<Rightarrow> Price \<Rightarrow> OrderId list" where
  "spec_ids_at_price S s p = map o_id (level_orders s (ticks p) (sb_orders S))"

text \<open>A book is crossed when its best bid is above its best ask.\<close>

definition spec_crossed :: "spec_book \<Rightarrow> bool" where
  "spec_crossed S \<longleftrightarrow> (\<exists>x \<in> set (sb_orders S). \<exists>y \<in> set (sb_orders S).
     o_side x = Buy \<and> o_side y = Sell \<and> o_price y < o_price x)"

text \<open>
  The well-formedness of the abstract book: live ids are unique, live quantities are positive
  and the capacity, where there is one, is respected.
\<close>

definition spec_inv :: "spec_book \<Rightarrow> bool" where
  "spec_inv S \<longleftrightarrow> distinct (map o_id (sb_orders S)) \<and> (\<forall>x \<in> set (sb_orders S). units (o_quantity x) \<noteq> 0)
     \<and> (case sb_capacity S of None \<Rightarrow> True | Some n \<Rightarrow> length (sb_orders S) \<le> n)"

section \<open>Laws of the updates\<close>

lemma find_order_Some_iff:
  "distinct (map o_id A) \<Longrightarrow> find_order A i = Some x \<longleftrightarrow> x \<in> set A \<and> o_id x = i"
  by (simp add: find_order_def find_key_iff)

lemma find_order_SomeD: "find_order A i = Some x \<Longrightarrow> x \<in> set A \<and> o_id x = i"
  unfolding find_order_def by (drule find_SomeD) simp

lemma find_order_None_iff: "find_order A i = None \<longleftrightarrow> i \<notin> o_id ` set A"
  by (simp add: find_order_def find_key_None_iff)

lemma ids_remove_order: "map o_id (remove_order i A) = filter (\<lambda>j. j \<noteq> i) (map o_id A)"
  by (induction A) (auto simp: remove_order_def)

lemma ids_set_quantity [simp]: "map o_id (set_quantity i q A) = map o_id A"
  by (simp add: set_quantity_def)

lemma ids_image_set_quantity [simp]: "o_id ` set (set_quantity i q A) = o_id ` set A"
  by (metis ids_set_quantity set_map)

lemma set_quantity_Nil_iff [simp]: "set_quantity i q A = [] \<longleftrightarrow> A = []"
  by (simp add: set_quantity_def)

lemma length_set_quantity [simp]: "length (set_quantity i q A) = length A"
  by (simp add: set_quantity_def)

lemma set_remove_order: "set (remove_order i A) = {x \<in> set A. o_id x \<noteq> i}"
  by (simp add: remove_order_def)

lemma length_remove_order_le: "length (remove_order i A) \<le> length A"
  by (simp add: remove_order_def)

lemma find_order_append:
  "find_order (A @ [x]) i = (case find_order A i of None \<Rightarrow> if o_id x = i then Some x else None | Some y \<Rightarrow> Some y)"
  by (auto simp: find_order_def find_append split: option.splits)

lemma find_order_remove: "find_order (remove_order i A) j = (if j = i then None else find_order A j)"
  by (induction A) (auto simp: find_order_def remove_order_def)

lemma find_order_set_quantity:
  "find_order (set_quantity i q A) j =
     (if j = i then map_option (\<lambda>x. x\<lparr>o_quantity := q\<rparr>) (find_order A j) else find_order A j)"
  by (induction A) (auto simp: find_order_def set_quantity_def)

lemma set_quantity_same:
  assumes "distinct (map o_id A)" and "x \<in> set A"
  shows "set_quantity (o_id x) (o_quantity x) A = A"
  unfolding set_quantity_def
proof (rule map_idI)
  fix y assume "y \<in> set A"
  then have "o_id y = o_id x \<Longrightarrow> y = x"
    using assms by (auto simp: distinct_map inj_on_def)
  then show "(if o_id y = o_id x then y\<lparr>o_quantity := o_quantity x\<rparr> else y) = y"
    by auto
qed

lemma orders_total_append: "orders_total (A @ [x]) = orders_total A + units (o_quantity x)"
  by (simp add: orders_total_def)

lemma orders_total_remove:
  assumes "distinct (map o_id A)" and "x \<in> set A"
  shows "orders_total (remove_order (o_id x) A) = orders_total A - units (o_quantity x)"
  using sum_list_filter_neq_key [OF assms] by (simp add: orders_total_def remove_order_def)

lemma orders_total_set_quantity:
  assumes "distinct (map o_id A)" and "x \<in> set A"
  shows "orders_total (set_quantity (o_id x) q A) = orders_total A - units (o_quantity x) + units q"
  using sum_list_map_upd_key [OF assms, of "\<lambda>z. units (o_quantity z)" "\<lambda>z. z\<lparr>o_quantity := q\<rparr>"]
  by (simp add: orders_total_def set_quantity_def comp_def)

lemma length_remove_order:
  assumes "distinct (map o_id A)" and "x \<in> set A"
  shows "length A = Suc (length (remove_order (o_id x) A))"
  using length_filter_neq_key [OF assms] by (simp add: remove_order_def)

section \<open>Price levels under the updates\<close>

lemma level_orders_append:
  "level_orders s p (A @ [x]) =
     (if o_side x = s \<and> ticks (o_price x) = p then level_orders s p A @ [x] else level_orders s p A)"
  by (simp add: level_orders_def)

lemma level_orders_remove:
  assumes "distinct (map o_id A)" and "x \<in> set A"
  shows "level_orders s p (remove_order (o_id x) A) =
     (if o_side x = s \<and> ticks (o_price x) = p then remove_order (o_id x) (level_orders s p A)
      else level_orders s p A)"
proof -
  have "level_orders s p (remove_order (o_id x) A) = remove_order (o_id x) (level_orders s p A)"
    by (simp add: level_orders_def remove_order_def conj_commute)
  moreover have "remove_order (o_id x) (level_orders s p A) = level_orders s p A"
    if "\<not> (o_side x = s \<and> ticks (o_price x) = p)"
  proof -
    have "o_id y \<noteq> o_id x" if "y \<in> set (level_orders s p A)" for y
      using that \<open>\<not> _\<close> assms by (auto simp: level_orders_def distinct_map inj_on_def)
    then show ?thesis unfolding remove_order_def by (simp add: filter_id_conv)
  qed
  ultimately show ?thesis by simp
qed

lemma level_orders_set_quantity:
  assumes "distinct (map o_id A)" and "x \<in> set A"
  shows "level_orders s p (set_quantity (o_id x) q A) =
     (if o_side x = s \<and> ticks (o_price x) = p then set_quantity (o_id x) q (level_orders s p A)
      else level_orders s p A)"
proof -
  have "level_orders s p (set_quantity (o_id x) q A) = set_quantity (o_id x) q (level_orders s p A)"
    by (induction A) (auto simp: level_orders_def set_quantity_def)
  moreover have "set_quantity (o_id x) q (level_orders s p A) = level_orders s p A"
    if "\<not> (o_side x = s \<and> ticks (o_price x) = p)"
  proof -
    have "o_id y \<noteq> o_id x" if "y \<in> set (level_orders s p A)" for y
      using that \<open>\<not> _\<close> assms by (auto simp: level_orders_def distinct_map inj_on_def)
    then show ?thesis unfolding set_quantity_def by (simp add: map_idI)
  qed
  ultimately show ?thesis by simp
qed

lemma in_level_orders: "x \<in> set (level_orders s p A) \<longleftrightarrow> x \<in> set A \<and> o_side x = s \<and> ticks (o_price x) = p"
  by (auto simp: level_orders_def)

lemma distinct_level_orders: "distinct (map o_id A) \<Longrightarrow> distinct (map o_id (level_orders s p A))"
  by (simp add: level_orders_def distinct_map_filter_key)

lemma own_level_nonempty: "x \<in> set A \<Longrightarrow> level_orders (o_side x) (ticks (o_price x)) A \<noteq> []"
  by (auto simp: level_orders_def filter_empty_conv)

section \<open>Sorted prices\<close>

lemma side_comparator: "comparator (side_lt s)"
  by (cases s) (simp_all add: less_cmp.comparator_axioms greater_cmp.comparator_axioms)

interpretation side_cmp: comparator "side_lt s" for s
  by (rule side_comparator)

lemma set_spec_prices: "set (spec_prices s A) = {p. level_orders s p A \<noteq> []}"
  by (auto simp: spec_prices_def Let_def level_orders_def filter_empty_conv)

lemma sorted_spec_prices: "sorted_wrt (side_lt s) (spec_prices s A)"
proof -
  define ps where "ps = sort_key sint (remdups (map (\<lambda>x. ticks (o_price x)) (filter (\<lambda>x. o_side x = s) A)))"
  have "sorted (map sint ps)" and "distinct (map sint ps)"
    by (simp_all add: ps_def distinct_map inj_on_def sint_eq_iff)
  then have "sorted_wrt (<) (map sint ps)" by (simp add: strict_sorted_iff)
  then have *: "sorted_wrt std_less ps" by (simp add: sorted_wrt_map std_less_def [abs_def])
  have "sorted_wrt std_greater (rev ps)"
    unfolding sorted_wrt_rev by (rule sorted_wrt_mono_rel [OF _ *]) (simp add: std_less_def std_greater_def)
  with * show ?thesis
    by (cases s) (simp_all add: spec_prices_def Let_def ps_def)
qed

text \<open>
  The levels of an implementation represent the abstract book when they are sorted by the side's
  comparator and hold, at each price with live orders, the value \<open>mk\<close> makes of those orders.
\<close>

definition level_value :: "(order list \<Rightarrow> 'l) \<Rightarrow> Side \<Rightarrow> order list \<Rightarrow> i64 \<Rightarrow> 'l option" where
  "level_value mk s A p = (if level_orders s p A = [] then None else Some (mk (level_orders s p A)))"

definition levels_rep :: "(order list \<Rightarrow> 'l) \<Rightarrow> Side \<Rightarrow> (i64 \<times> 'l) list \<Rightarrow> order list \<Rightarrow> bool" where
  "levels_rep mk s m A \<longleftrightarrow> sorted_wrt (side_lt s) (map fst m) \<and> (\<forall>p. map_of m p = level_value mk s A p)"

lemma level_value_None: "level_orders s p A = [] \<Longrightarrow> level_value mk s A p = None"
  by (simp add: level_value_def)

lemma level_value_Some: "level_orders s p A \<noteq> [] \<Longrightarrow> level_value mk s A p = Some (mk (level_orders s p A))"
  by (simp add: level_value_def)

lemma levels_rep_find: "levels_rep mk s m A \<Longrightarrow> map_of m p = level_value mk s A p"
  by (simp add: levels_rep_def)

lemma levels_rep_list:
  assumes "levels_rep mk s m A"
  shows "m = map (\<lambda>p. (p, mk (level_orders s p A))) (spec_prices s A)"
proof -
  have sorted: "sorted_wrt (side_lt s) (map fst m)" using assms by (simp add: levels_rep_def)
  have "set (map fst m) = set (spec_prices s A)"
    using assms by (auto simp: levels_rep_def set_spec_prices level_value_def
        simp flip: dom_map_of_conv_image_fst split: if_splits)
  then have keys: "map fst m = spec_prices s A"
    using side_cmp.sorted_keys_unique [OF sorted sorted_spec_prices] by simp
  have "m = map (\<lambda>k. (k, the (map_of m k))) (map fst m)"
    by (rule alist_of_keys [OF side_cmp.sorted_keys_distinct [OF sorted]])
  also have "\<dots> = map (\<lambda>p. (p, mk (level_orders s p A))) (spec_prices s A)"
    using assms unfolding keys
    by (auto simp: levels_rep_def level_value_def set_spec_prices)
  finally show ?thesis .
qed

lemma levels_rep_keep:
  "levels_rep mk s m A \<Longrightarrow> (\<And>p. level_value mk' s A' p = level_value mk s A p) \<Longrightarrow> levels_rep mk' s m A'"
  by (simp add: levels_rep_def)

lemma levels_rep_erase:
  assumes "levels_rep mk s m A" and "level_orders s p A' = []"
    and "\<And>p'. p' \<noteq> p \<Longrightarrow> level_value mk' s A' p' = level_value mk s A p'"
  shows "levels_rep mk' s (al_erase p m) A'"
  using assms
  by (simp add: levels_rep_def map_of_al_erase level_value_None side_cmp.sorted_al_erase)

lemma levels_rep_assign:
  assumes "levels_rep mk s m A" and "level_orders s p A \<noteq> []" and "level_orders s p A' \<noteq> []"
    and "\<And>p'. p' \<noteq> p \<Longrightarrow> level_value mk' s A' p' = level_value mk s A p'"
  shows "levels_rep mk' s (al_assign p (mk' (level_orders s p A')) m) A'"
  using assms by (simp add: levels_rep_def map_of_al_assign level_value_None level_value_Some)

lemma levels_rep_subscript:
  assumes "levels_rep mk s m A" and "level_orders s p A' \<noteq> []"
    and "\<And>p'. p' \<noteq> p \<Longrightarrow> level_value mk' s A' p' = level_value mk s A p'"
  shows "levels_rep mk' s
     (al_assign p (mk' (level_orders s p A')) (om_subscript (side_lt s) d p m)) A'"
  using assms
  by (auto simp: levels_rep_def map_of_al_assign level_value_None level_value_Some
      side_cmp.map_of_subscript side_cmp.sorted_subscript)

lemma level_value_orders_cong:
  "level_orders s p A' = level_orders s p A \<Longrightarrow> level_value mk s A' p = level_value mk s A p"
  by (simp add: level_value_def)

lemma levels_rep_set_quantity:
  assumes rep: "levels_rep mk s m A" and dist: "distinct (map o_id A)" and x: "x \<in> set A"
  shows "levels_rep mk s
     (if s = o_side x then al_assign (ticks (o_price x))
        (mk (set_quantity (o_id x) q (level_orders s (ticks (o_price x)) A))) m
      else m) (set_quantity (o_id x) q A)"
proof (cases "s = o_side x")
  case True
  let ?p = "ticks (o_price x)"
  note upd = level_orders_set_quantity [OF dist x]
  have "level_orders s ?p A \<noteq> []" using x True own_level_nonempty by blast
  then have "level_orders s ?p (set_quantity (o_id x) q A) \<noteq> []"
    using True by (simp add: upd)
  with rep \<open>level_orders s ?p A \<noteq> []\<close>
  have "levels_rep mk s (al_assign ?p (mk (level_orders s ?p (set_quantity (o_id x) q A))) m)
      (set_quantity (o_id x) q A)"
    by (rule levels_rep_assign) (auto intro!: level_value_orders_cong simp: upd)
  with True show ?thesis by (simp add: upd)
next
  case False
  then show ?thesis
    by (auto intro!: levels_rep_keep [OF rep] level_value_orders_cong
        simp: level_orders_set_quantity [OF dist x])
qed

lemma levels_rep_remove:
  assumes rep: "levels_rep mk s m A" and dist: "distinct (map o_id A)" and x: "x \<in> set A"
  shows "levels_rep mk s
     (if s = o_side x then
        (if remove_order (o_id x) (level_orders s (ticks (o_price x)) A) = []
         then al_erase (ticks (o_price x)) m
         else al_assign (ticks (o_price x))
           (mk (remove_order (o_id x) (level_orders s (ticks (o_price x)) A))) m)
      else m) (remove_order (o_id x) A)"
proof (cases "s = o_side x")
  case True
  let ?p = "ticks (o_price x)"
  let ?A' = "remove_order (o_id x) A"
  note upd = level_orders_remove [OF dist x]
  have ne: "level_orders s ?p A \<noteq> []" using x True own_level_nonempty by blast
  have "levels_rep mk s (al_erase ?p m) ?A'" if "level_orders s ?p ?A' = []"
    by (rule levels_rep_erase [OF rep that]) (auto intro!: level_value_orders_cong simp: upd)
  moreover have "levels_rep mk s (al_assign ?p (mk (level_orders s ?p ?A')) m) ?A'"
    if "level_orders s ?p ?A' \<noteq> []"
    by (rule levels_rep_assign [OF rep ne that]) (auto intro!: level_value_orders_cong simp: upd)
  ultimately show ?thesis using True by (auto simp: upd)
next
  case False
  then show ?thesis
    by (auto intro!: levels_rep_keep [OF rep] level_value_orders_cong
        simp: level_orders_remove [OF dist x])
qed

text \<open>
  The order lookup represents the live orders when its keys are distinct and each live id is
  bound to the record \<open>mkr\<close> makes of its order.
\<close>

definition lookup_rep :: "(order \<Rightarrow> 'r) \<Rightarrow> (u64 \<times> 'r) list \<Rightarrow> order list \<Rightarrow> bool" where
  "lookup_rep mkr m A \<longleftrightarrow> distinct (map fst m)
     \<and> (\<forall>i. map_of m (id_value i) = map_option mkr (find_order A i))"

lemma lookup_rep_find: "lookup_rep mkr m A \<Longrightarrow> map_of m (id_value i) = map_option mkr (find_order A i)"
  by (simp add: lookup_rep_def)

lemma lookup_rep_add:
  assumes "lookup_rep mkr m A" and "find_order A (o_id x) = None"
    and "\<And>y. y \<in> set A \<Longrightarrow> mkr' y = mkr y"
  shows "lookup_rep mkr' (um_emplace (id_value (o_id x)) (mkr' x) m) (A @ [x])"
proof -
  have "map_option mkr' (find_order A i) = map_option mkr (find_order A i)" for i
    using assms(3) by (cases "find_order A i") (auto dest: find_order_SomeD)
  with assms(1,2) show ?thesis
    by (auto simp: lookup_rep_def distinct_um_emplace map_of_um_emplace find_order_append
        OrderId_eq_iff assms(3) split: option.split dest: find_order_SomeD)
qed

lemma lookup_rep_remove:
  "lookup_rep mkr m A \<Longrightarrow> lookup_rep mkr (al_erase (id_value i) m) (remove_order i A)"
  by (simp add: lookup_rep_def distinct_al_erase map_of_al_erase find_order_remove OrderId_eq_iff)

lemma lookup_rep_set_quantity:
  "lookup_rep mkr m A \<Longrightarrow> find_order A i = Some x \<Longrightarrow>
   lookup_rep mkr (al_assign (id_value i) (mkr (x\<lparr>o_quantity := q\<rparr>)) m) (set_quantity i q A)"
  by (auto simp: lookup_rep_def map_of_al_assign find_order_set_quantity OrderId_eq_iff)

lemma lookup_rep_keys:
  assumes "lookup_rep mkr m A"
  shows "set (map fst m) = id_value ` o_id ` set A"
proof -
  have "k \<in> dom (map_of m) \<longleftrightarrow> OrderId k \<in> o_id ` set A" for k
    using lookup_rep_find [OF assms, of "OrderId k"] find_order_None_iff [of A "OrderId k"]
    by (simp add: domIff del: not_None_eq)
  then show ?thesis
    by (simp add: dom_map_of_conv_image_fst set_eq_iff id_value_image_iff)
qed

lemma lookup_rep_length:
  assumes "lookup_rep mkr m A" and "distinct (map o_id A)"
  shows "length m = length A"
proof -
  have "length m = card (set (map fst m))"
    using assms(1) distinct_card [of "map fst m"] by (simp add: lookup_rep_def)
  also have "\<dots> = card (o_id ` set A)"
    unfolding lookup_rep_keys [OF assms(1)] by (rule card_image) (simp add: inj_on_def OrderId_eq_iff)
  also have "\<dots> = length A"
    using assms(2) distinct_card [of "map o_id A"] by simp
  finally show ?thesis .
qed

lemma lookup_rep_mset:
  assumes rep: "lookup_rep mkr m A" and dist: "distinct (map o_id A)"
  shows "mset (map snd m) = mset (map mkr A)"
proof -
  let ?k = "\<lambda>x. id_value (o_id x)"
  have keys: "distinct (map fst m)" using rep by (simp add: lookup_rep_def)
  have "distinct (map ?k A)"
    using dist by (auto simp: distinct_map inj_on_def OrderId_eq_iff)
  moreover have "set (map fst m) = set (map ?k A)"
    using lookup_rep_keys [OF rep] by (simp add: image_image)
  ultimately have "mset (map fst m) = mset (map ?k A)"
    using keys set_eq_iff_mset_eq_distinct by blast
  then have "image_mset (\<lambda>k. the (map_of m k)) (mset (map fst m)) = image_mset (\<lambda>k. the (map_of m k)) (mset (map ?k A))"
    by simp
  moreover have "map (\<lambda>k. the (map_of m k)) (map fst m) = map snd m"
    using keys by (auto simp: map_of_is_SomeI)
  moreover have "find_order A (o_id x) = Some x" if "x \<in> set A" for x
    using that by (simp add: find_order_Some_iff [OF dist])
  then have "map (\<lambda>k. the (map_of m k)) (map ?k A) = map mkr A"
    by (simp add: lookup_rep_find [OF rep])
  ultimately show ?thesis by (metis mset_map)
qed

section \<open>The abstract book keeps its invariant\<close>

lemma spec_inv_commit:
  "distinct (map o_id A) \<Longrightarrow> (\<forall>x \<in> set A. units (o_quantity x) \<noteq> 0) \<Longrightarrow>
   (\<forall>n. sb_capacity S = Some n \<longrightarrow> length A \<le> n) \<Longrightarrow> spec_inv (snd (spec_commit A S))"
  by (simp add: spec_inv_def spec_commit_def split: option.splits)

lemma spec_inv_remove:
  assumes "spec_inv S"
  shows "spec_inv (snd (spec_commit (remove_order i (sb_orders S)) S))"
proof (rule spec_inv_commit)
  show "\<forall>n. sb_capacity S = Some n \<longrightarrow> length (remove_order i (sb_orders S)) \<le> n"
    using assms length_remove_order_le [of i "sb_orders S"] by (auto simp: spec_inv_def)
qed (use assms in \<open>auto simp: spec_inv_def ids_remove_order set_remove_order\<close>)

lemma spec_inv_set_quantity:
  assumes "spec_inv S" and "units q \<noteq> 0"
  shows "spec_inv (snd (spec_commit (set_quantity i q (sb_orders S)) S))"
proof (rule spec_inv_commit)
  show "\<forall>x \<in> set (set_quantity i q (sb_orders S)). units (o_quantity x) \<noteq> 0"
    using assms by (auto simp: spec_inv_def set_quantity_def)
qed (use assms in \<open>auto simp: spec_inv_def\<close>)

lemma spec_inv_add: "spec_inv S \<Longrightarrow> spec_inv (snd (spec_add S x))"
  unfolding spec_add_def
  by (auto intro!: spec_inv_commit simp: find_order_None_iff)
    (auto simp: spec_inv_def at_capacity_def)

lemma spec_inv_apply:
  assumes "spec_inv S"
  shows "spec_inv (snd (spec_apply S e))"
proof -
  have neq: "units a - units b \<noteq> 0" if "units b \<noteq> units a" for a b :: Quantity
    using that by auto
  show ?thesis
    using assms
    by (auto simp: spec_apply_def spec_cancel_def spec_modify_def spec_execute_def neq
        intro!: spec_inv_add spec_inv_remove spec_inv_set_quantity
        split: EventType.split option.split)
qed

lemma spec_apply_capacity [simp]: "sb_capacity (snd (spec_apply S e)) = sb_capacity S"
  by (simp add: spec_ops split: EventType.split option.split)

lemma spec_apply_rejected: "fst (spec_apply S e) \<noteq> Applied \<Longrightarrow> snd (spec_apply S e) = S"
  by (auto simp: spec_ops split: EventType.split option.split)

lemma spec_apply_count:
  "sb_applied (snd (spec_apply S e)) = sb_applied S + (if fst (spec_apply S e) = Applied then 1 else 0)"
  by (simp add: spec_ops split: EventType.split option.split)

lemma spec_inv_distinct: "spec_inv S \<Longrightarrow> distinct (map o_id (sb_orders S))"
  by (simp add: spec_inv_def)

lemma spec_inv_empty: "spec_inv (spec_empty cap)"
  by (simp add: spec_inv_def spec_empty_def split: option.split)

lemma spec_run_inv: "spec_inv S \<Longrightarrow> spec_inv (snd (spec_run S es))"
  by (induction es arbitrary: S) (simp_all add: spec_inv_apply)

section \<open>What an applied event changes\<close>

text \<open>
  The queue of order ids at one price after an applied event: an added order joins the end, a
  removed one leaves, every other order keeps its place. \<open>filled\<close> says that an execution takes
  all that is left of its order.
\<close>

definition next_ids :: "MarketEvent \<Rightarrow> bool \<Rightarrow> Side \<Rightarrow> Price \<Rightarrow> OrderId list \<Rightarrow> OrderId list" where
  "next_ids e filled s p is =
     (case ev_type e of
        Add \<Rightarrow> if ev_side e = s \<and> ev_price e = p then is @ [ev_order_id e] else is
      | Modify \<Rightarrow> is
      | Cancel \<Rightarrow> filter (\<lambda>i. i \<noteq> ev_order_id e) is
      | Execute \<Rightarrow> if filled then filter (\<lambda>i. i \<noteq> ev_order_id e) is else is)"

definition order_quantity :: "spec_book \<Rightarrow> OrderId \<Rightarrow> Quantity option" where
  "order_quantity S i = map_option o_quantity (find_order (sb_orders S) i)"

definition open_units :: "order list \<Rightarrow> nat" where
  "open_units A = sum_list (map (\<lambda>x. unat (units (o_quantity x))) A)"

lemma spec_ids_remove:
  assumes "spec_inv S"
  shows "spec_ids_at_price (snd (spec_commit (remove_order i (sb_orders S)) S)) s p
    = filter (\<lambda>j. j \<noteq> i) (spec_ids_at_price S s p)"
proof -
  have "level_orders s (ticks p) (remove_order i (sb_orders S)) = remove_order i (level_orders s (ticks p) (sb_orders S))"
    by (simp add: level_orders_def remove_order_def conj_commute)
  then show ?thesis by (simp add: spec_ids_at_price_def spec_commit_def ids_remove_order)
qed

lemma spec_ids_set_quantity:
  "spec_ids_at_price (snd (spec_commit (set_quantity i q (sb_orders S)) S)) s p = spec_ids_at_price S s p"
proof -
  have "level_orders s (ticks p) (set_quantity i q (sb_orders S)) = set_quantity i q (level_orders s (ticks p) (sb_orders S))"
    unfolding level_orders_def set_quantity_def filter_map by (auto simp: comp_def intro: filter_cong)
  then show ?thesis by (simp add: spec_ids_at_price_def spec_commit_def)
qed

lemma spec_ids_apply:
  assumes "spec_inv S" and "fst (spec_apply S e) = Applied"
  shows "spec_ids_at_price (snd (spec_apply S e)) s p
    = next_ids e (order_quantity S (ev_order_id e) = Some (ev_quantity e)) s p (spec_ids_at_price S s p)"
proof (cases "ev_type e")
  case Add
  with assms show ?thesis
    by (auto simp: spec_apply_def spec_add_def next_ids_def spec_ids_at_price_def spec_commit_def
        level_orders_append event_order_def Price_eq_iff split: if_splits)
qed (use assms in \<open>auto simp: spec_apply_def spec_cancel_def spec_modify_def spec_execute_def next_ids_def
      order_quantity_def spec_ids_remove spec_ids_set_quantity Quantity_eq_iff split: if_splits option.splits\<close>)

lemma open_units_remove:
  assumes "distinct (map o_id A)" and "x \<in> set A"
  shows "open_units A = open_units (remove_order (o_id x) A) + unat (units (o_quantity x))"
proof -
  from assms(2) obtain ys zs where A: "A = ys @ x # zs" by (auto simp: in_set_conv_decomp)
  then show ?thesis
    using filter_neq_key_split [of o_id ys x zs] assms(1) by (simp add: open_units_def remove_order_def)
qed

lemma open_units_set_quantity:
  assumes "distinct (map o_id A)" and "x \<in> set A"
  shows "open_units (set_quantity (o_id x) q A) + unat (units (o_quantity x)) = open_units A + unat (units q)"
proof -
  from assms(2) obtain ys zs where A: "A = ys @ x # zs" by (auto simp: in_set_conv_decomp)
  with assms(1) have "\<forall>z \<in> set (ys @ zs). o_id z \<noteq> o_id x" by (auto simp: image_iff)
  then have "set_quantity (o_id x) q A = ys @ x\<lparr>o_quantity := q\<rparr> # zs"
    by (simp add: A set_quantity_def map_idI)
  then show ?thesis by (simp add: A open_units_def)
qed

text \<open>The open quantity before an applied event, from the open quantity after it.\<close>

definition units_balance :: "MarketEvent \<Rightarrow> nat \<Rightarrow> nat \<Rightarrow> nat \<Rightarrow> bool" where
  "units_balance e old before after =
     (case ev_type e of
        Add \<Rightarrow> after = before + unat (units (ev_quantity e))
      | Modify \<Rightarrow> after + old = before + unat (units (ev_quantity e))
      | Cancel \<Rightarrow> after + old = before
      | Execute \<Rightarrow> after + unat (units (ev_quantity e)) = before)"

lemma spec_open_units_apply:
  assumes inv: "spec_inv S" and ok: "fst (spec_apply S e) = Applied"
  shows "units_balance e (case order_quantity S (ev_order_id e) of None \<Rightarrow> 0 | Some q \<Rightarrow> unat (units q))
    (open_units (sb_orders S)) (open_units (sb_orders (snd (spec_apply S e))))"
proof (cases "ev_type e = Add")
  case True
  with ok show ?thesis
    by (auto simp: units_balance_def spec_apply_def spec_add_def spec_commit_def open_units_def
        event_order_def split: if_splits)
next
  case False
  let ?i = "ev_order_id e"
  note dist = spec_inv_distinct [OF inv]
  from False ok obtain x where x: "find_order (sb_orders S) ?i = Some x"
    by (cases "ev_type e") (auto simp: spec_apply_def spec_cancel_def spec_modify_def spec_execute_def
        split: if_splits option.splits)
  note mem = find_order_SomeD [OF x]
  have "unat (units (o_quantity x) - units q) + unat (units q) = unat (units (o_quantity x))"
    if "\<not> units (o_quantity x) < units q" for q
    using that by (simp add: unat_sub word_le_nat_alt not_less)
  with False ok mem open_units_remove [OF dist, of x] open_units_set_quantity [OF dist, of x] show ?thesis
    by (cases "ev_type e") (force simp: units_balance_def spec_apply_def spec_cancel_def spec_modify_def
        spec_execute_def spec_commit_def order_quantity_def x split: if_splits)+
qed

lemma spec_run_count:
  "sb_applied (snd (spec_run S es)) = sb_applied S + of_nat (length (filter (\<lambda>r. r = Applied) (fst (spec_run S es))))"
  by (induction es arbitrary: S) (simp_all add: spec_apply_count add.assoc)

text \<open>The first level of a side has the best price of its live orders.\<close>

lemma spec_best:
  "case first_view (spec_views s S) of
     None \<Rightarrow> \<forall>x \<in> set (sb_orders S). o_side x \<noteq> s
   | Some v \<Rightarrow> (\<exists>x \<in> set (sb_orders S). o_side x = s \<and> o_price x = pv_price v)
       \<and> (\<forall>x \<in> set (sb_orders S). o_side x = s \<longrightarrow>
            o_price x = pv_price v \<or> side_lt s (ticks (pv_price v)) (ticks (o_price x)))"
proof (cases "spec_prices s (sb_orders S)")
  case Nil
  then have "level_orders s p (sb_orders S) = []" for p
    using set_spec_prices [of s "sb_orders S"] by auto
  then have "\<forall>x \<in> set (sb_orders S). o_side x \<noteq> s" using own_level_nonempty by blast
  with Nil show ?thesis by (simp add: spec_views_def first_view_def)
next
  case (Cons p ps)
  have "\<exists>x \<in> set (sb_orders S). o_side x = s \<and> o_price x = Price p"
    using set_spec_prices [of s "sb_orders S"] Cons
    by (force simp: level_orders_def filter_empty_conv)
  moreover have "o_price x = Price p \<or> side_lt s p (ticks (o_price x))"
    if "x \<in> set (sb_orders S)" "o_side x = s" for x
  proof -
    have "ticks (o_price x) \<in> set (p # ps)"
      using that own_level_nonempty [OF that(1)] set_spec_prices [of s "sb_orders S"] Cons by auto
    then have "ticks (o_price x) = p \<or> side_lt s p (ticks (o_price x))"
      using side_cmp.begin_is_least sorted_spec_prices [of s "sb_orders S"] Cons by metis
    then show ?thesis by (auto intro: Price.expand)
  qed
  ultimately show ?thesis by (simp add: Cons spec_views_def first_view_def spec_view_def)
qed

text \<open>A capacity that is never hit makes no difference.\<close>

lemma spec_apply_uncapped:
  assumes "CapacityExceeded \<noteq> fst (spec_apply S e)"
  shows "spec_apply (S\<lparr>sb_capacity := None\<rparr>) e
    = (fst (spec_apply S e), (snd (spec_apply S e))\<lparr>sb_capacity := None\<rparr>)"
  using assms
  by (auto simp: spec_ops at_capacity_def split: EventType.split option.split if_splits)

lemma spec_run_uncapped:
  "CapacityExceeded \<notin> set (fst (spec_run S es)) \<Longrightarrow>
   spec_run (S\<lparr>sb_capacity := None\<rparr>) es = (fst (spec_run S es), (snd (spec_run S es))\<lparr>sb_capacity := None\<rparr>)"
  by (induction es arbitrary: S) (simp_all add: spec_apply_uncapped)

section \<open>The ids a validation pass sees\<close>

definition order_keys :: "order list \<Rightarrow> u64 list" where
  "order_keys A = map (\<lambda>x. id_value (o_id x)) A"

definition side_keys :: "Side \<Rightarrow> order list \<Rightarrow> u64 list" where
  "side_keys s A = concat (map (\<lambda>p. order_keys (level_orders s p A)) (spec_prices s A))"

lemma order_keys_Cons [simp]: "order_keys (x # A) = id_value (o_id x) # order_keys A"
  by (simp add: order_keys_def)

lemma order_keys_Nil [simp]: "order_keys [] = []"
  by (simp add: order_keys_def)

lemma distinct_order_keys: "distinct (map o_id A) \<Longrightarrow> distinct (order_keys A)"
  unfolding order_keys_def distinct_map by (auto simp: inj_on_def OrderId_eq_iff)

lemma set_order_keys_level:
  "set (order_keys (level_orders s p A)) = {id_value (o_id x) | x. x \<in> set A \<and> o_side x = s \<and> ticks (o_price x) = p}"
  by (auto simp: order_keys_def level_orders_def)

lemma set_side_keys: "set (side_keys s A) = {id_value (o_id x) | x. x \<in> set A \<and> o_side x = s}"
proof -
  have "ticks (o_price x) \<in> set (spec_prices s A)" if "x \<in> set A" "o_side x = s" for x
    using own_level_nonempty [OF that(1)] that by (simp add: set_spec_prices)
  then show ?thesis
    by (auto simp: side_keys_def set_order_keys_level)
qed

lemma key_eqD:
  "distinct (map o_id A) \<Longrightarrow> x \<in> set A \<Longrightarrow> y \<in> set A \<Longrightarrow> id_value (o_id x) = id_value (o_id y) \<Longrightarrow> x = y"
  by (simp add: OrderId_eq_iff distinct_map inj_on_def)

lemma levels_keys_disjoint:
  assumes "distinct (map o_id A)" and "p \<noteq> p' \<or> s \<noteq> s'"
  shows "set (order_keys (level_orders s p A)) \<inter> set (order_keys (level_orders s' p' A)) = {}"
  using assms(2) by (auto simp: set_order_keys_level dest: key_eqD [OF assms(1)])

lemma all_side_keys:
  assumes "distinct (map o_id A)"
  shows "set (rev (side_keys Sell A) @ rev (side_keys Buy A)) = set (order_keys A)"
proof -
  have "o_side x = Buy \<or> o_side x = Sell" for x by (cases "o_side x") auto
  then show ?thesis by (auto simp: set_side_keys order_keys_def)
qed

lemma distinct_level_keys:
  assumes "distinct (map o_id A)"
  shows "distinct ps \<Longrightarrow> distinct (concat (map (\<lambda>p. order_keys (level_orders s p A)) ps))"
proof (induction ps)
  case (Cons p ps)
  have "set (order_keys (level_orders s p A)) \<inter> set (order_keys (level_orders s p' A)) = {}"
    if "p' \<in> set ps" for p'
    using that Cons.prems by (intro levels_keys_disjoint [OF assms]) auto
  with Cons distinct_order_keys [OF distinct_level_orders [OF assms]] show ?case by fastforce
qed simp

lemma length_side_keys:
  assumes dist: "distinct (map o_id A)"
  shows "length (rev (side_keys Sell A) @ rev (side_keys Buy A)) = length A"
proof -
  let ?seen = "rev (side_keys Sell A) @ rev (side_keys Buy A)"
  have "distinct (spec_prices s A)" for s
    by (rule side_cmp.sorted_keys_distinct [OF sorted_spec_prices])
  then have "distinct (side_keys s A)" for s
    unfolding side_keys_def by (rule distinct_level_keys [OF dist])
  moreover have "set (side_keys Sell A) \<inter> set (side_keys Buy A) = {}"
    by (auto simp: set_side_keys dest: key_eqD [OF dist])
  ultimately have "distinct ?seen" by auto
  then have "length ?seen = card (set (order_keys A))"
    using distinct_card [of ?seen] all_side_keys [OF dist] by simp
  also have "\<dots> = length A"
    using distinct_card [OF distinct_order_keys [OF dist]] by (simp add: order_keys_def)
  finally show ?thesis .
qed

lemma crossed_prices_iff:
  "spec_crossed S \<longleftrightarrow> spec_prices Buy (sb_orders S) \<noteq> [] \<and> spec_prices Sell (sb_orders S) \<noteq> []
     \<and> sint (hd (spec_prices Sell (sb_orders S))) < sint (hd (spec_prices Buy (sb_orders S)))"
  (is "_ \<longleftrightarrow> ?crossed")
proof
  let ?A = "sb_orders S"
  have best: "x = hd (spec_prices s ?A) \<or> side_lt s (hd (spec_prices s ?A)) x"
    if "x \<in> set (spec_prices s ?A)" for s x
    using that sorted_spec_prices [of s ?A] by (cases "spec_prices s ?A") auto
  {
    assume "spec_crossed S"
    then obtain x y where xy: "x \<in> set ?A" "y \<in> set ?A" "o_side x = Buy" "o_side y = Sell"
      and lt: "sint (ticks (o_price y)) < sint (ticks (o_price x))"
      by (auto simp: spec_crossed_def less_Price_def)
    have bid: "ticks (o_price x) \<in> set (spec_prices Buy ?A)"
      and ask: "ticks (o_price y) \<in> set (spec_prices Sell ?A)"
      using xy own_level_nonempty [of x ?A] own_level_nonempty [of y ?A] by (simp_all add: set_spec_prices)
    then show ?crossed
      using best [OF bid] best [OF ask] lt by (auto simp: std_less_def std_greater_def)
  }
  {
    assume c: ?crossed
    have "\<exists>x \<in> set ?A. o_side x = s \<and> ticks (o_price x) = p" if "p \<in> set (spec_prices s ?A)" for s p
      using that by (auto simp: set_spec_prices level_orders_def filter_empty_conv)
    then obtain x y where "x \<in> set ?A" "o_side x = Buy" "ticks (o_price x) = hd (spec_prices Buy ?A)"
      "y \<in> set ?A" "o_side y = Sell" "ticks (o_price y) = hd (spec_prices Sell ?A)"
      using c by (metis hd_in_set)
    with c show "spec_crossed S"
      unfolding spec_crossed_def less_Price_def
      by (intro bexI [of _ x] bexI [of _ y]) simp_all
  }
qed

section \<open>The interface of an order book\<close>

text \<open>
  The loop \<^verbatim>\<open>for (const auto& event : events) book.apply(event)\<close>, with the results it returns.
\<close>

fun run_book :: "('b \<Rightarrow> MarketEvent \<Rightarrow> (BookResult \<times> 'b) option) \<Rightarrow> 'b \<Rightarrow> MarketEvent list
    \<Rightarrow> (BookResult list \<times> 'b) option" where
  "run_book ap b [] = Some ([], b)"
| "run_book ap b (e # es) = do {
     (r, b') \<leftarrow> ap b e;
     (rs, b'') \<leftarrow> run_book ap b' es;
     Some (r # rs, b'')
   }"

text \<open>
  What an order book promises: it simulates the abstract book step by step, without undefined
  behaviour, and every query answers what the abstract book shows.
\<close>

locale order_book =
  fixes rel :: "'b \<Rightarrow> spec_book \<Rightarrow> bool"
    and ap :: "'b \<Rightarrow> MarketEvent \<Rightarrow> (BookResult \<times> 'b) option"
    and clr :: "'b \<Rightarrow> 'b"
    and top :: "'b \<Rightarrow> TopOfBook"
    and dep :: "'b \<Rightarrow> size_t \<Rightarrow> BookDepth"
    and snap :: "'b \<Rightarrow> BookSnapshot option"
    and ids :: "'b \<Rightarrow> Side \<Rightarrow> Price \<Rightarrow> OrderId list option"
    and val :: "'b \<Rightarrow> InvariantOptions \<Rightarrow> bool option"
    and cnt :: "'b \<Rightarrow> u64"
    and live :: "'b \<Rightarrow> size_t"
  assumes rel_inv: "rel b S \<Longrightarrow> spec_inv S"
    and apply_sim: "rel b S \<Longrightarrow> \<exists>b'. ap b e = Some (fst (spec_apply S e), b') \<and> rel b' (snd (spec_apply S e))"
    and clear_sim: "rel b S \<Longrightarrow> rel (clr b) (spec_clear S)"
    and top_sim: "rel b S \<Longrightarrow> top b = spec_top S"
    and depth_sim: "rel b S \<Longrightarrow> dep b n = spec_depth S n"
    and snapshot_sim: "rel b S \<Longrightarrow> snap b = Some (spec_snapshot S)"
    and ids_sim: "rel b S \<Longrightarrow> ids b s p = Some (spec_ids_at_price S s p)"
    and validate_sim: "rel b S \<Longrightarrow> val b opts = Some (allow_crossed_book opts \<or> \<not> spec_crossed S)"
    and count_sim: "rel b S \<Longrightarrow> cnt b = sb_applied S"
    and live_sim: "rel b S \<Longrightarrow> live b = of_nat (length (sb_orders S))"
begin

lemma run_sim:
  "rel b S \<Longrightarrow> \<exists>b'. run_book ap b es = Some (fst (spec_run S es), b') \<and> rel b' (snd (spec_run S es))"
proof (induction es arbitrary: b S)
  case Nil
  then show ?case by simp
next
  case (Cons e es)
  from apply_sim [OF Cons.prems] obtain b1
    where b1: "ap b e = Some (fst (spec_apply S e), b1)" "rel b1 (snd (spec_apply S e))" by blast
  from Cons.IH [OF b1(2)] b1(1) show ?case by auto
qed

lemma rejected_shows_same:
  assumes "rel b S" and "ap b e = Some (r, b')" and "r \<noteq> Applied"
  shows "snap b' = snap b \<and> top b' = top b \<and> dep b' n = dep b n \<and> cnt b' = cnt b \<and> live b' = live b"
proof -
  from apply_sim [OF assms(1), of e] assms(2)
  have "r = fst (spec_apply S e)" and rel': "rel b' (snd (spec_apply S e))" by auto
  with assms(3) have "rel b' S" using spec_apply_rejected [of S e] by simp
  with assms(1) show ?thesis
    by (simp add: snapshot_sim top_sim depth_sim count_sim live_sim)
qed

lemma queue_priority:
  assumes "rel b S" and "ap b e = Some (Applied, b')" and "ids b s p = Some is"
  shows "ids b' s p = Some (next_ids e (order_quantity S (ev_order_id e) = Some (ev_quantity e)) s p is)"
proof -
  from apply_sim [OF assms(1), of e] assms(2)
  have "fst (spec_apply S e) = Applied" and "rel b' (snd (spec_apply S e))" by auto
  with assms(3) spec_ids_apply [OF rel_inv [OF assms(1)], of e s p] show ?thesis
    by (simp add: ids_sim ids_sim [OF assms(1)])
qed

lemma run_count:
  assumes "rel b S" and "run_book ap b es = Some (rs, b')"
  shows "cnt b' = cnt b + of_nat (length (filter (\<lambda>r. r = Applied) rs))"
  using run_sim [OF assms(1), of es] assms(2) by (auto simp: count_sim count_sim [OF assms(1)] spec_run_count)

lemma live_bound:
  assumes "rel b S" and "sb_capacity S = Some n"
  shows "unat (live b) \<le> n"
proof -
  have "length (sb_orders S) \<le> n" using rel_inv [OF assms(1)] assms(2) by (simp add: spec_inv_def)
  moreover have "unat (of_nat m :: size_t) \<le> m" for m by (simp add: unat_of_nat)
  ultimately show ?thesis using live_sim [OF assms(1)] by (metis le_trans)
qed

end

text \<open>Two books that simulate the same abstract book cannot be told apart.\<close>

locale book_pair =
  one: order_book rel1 ap1 clr1 top1 dep1 snap1 ids1 val1 cnt1 live1 +
  two: order_book rel2 ap2 clr2 top2 dep2 snap2 ids2 val2 cnt2 live2
  for rel1 :: "'a \<Rightarrow> spec_book \<Rightarrow> bool" and ap1 clr1 top1 dep1 snap1 ids1 val1 cnt1 live1
    and rel2 :: "'b \<Rightarrow> spec_book \<Rightarrow> bool" and ap2 clr2 top2 dep2 snap2 ids2 val2 cnt2 live2
begin

lemma same_views:
  assumes "rel1 a S" and "rel2 b T" and "sb_orders S = sb_orders T"
  shows "top1 a = top2 b \<and> dep1 a n = dep2 b n \<and> snap1 a = snap2 b \<and> ids1 a s p = ids2 b s p
    \<and> val1 a opts = val2 b opts \<and> live1 a = live2 b"
  using assms
  by (simp add: one.top_sim two.top_sim one.depth_sim two.depth_sim one.snapshot_sim two.snapshot_sim
      one.ids_sim two.ids_sim one.validate_sim two.validate_sim one.live_sim two.live_sim
      spec_top_def spec_views_def spec_depth_def spec_snapshot_def spec_ids_at_price_def spec_crossed_def)

end

end
