(* ===== verification/Limit_Order_Book.thy ===== *)
theory Limit_Order_Book
  imports Book_Spec
begin

text \<open>
  The baseline order book, \<^verbatim>\<open>class LimitOrderBook\<close>
  (\<^verbatim>\<open>include/datagine/book/limit_order_book.hpp\<close>, \<^verbatim>\<open>src/book/limit_order_book.cpp\<close>): two
  \<^verbatim>\<open>std::map\<close>s of price levels, each level a \<^verbatim>\<open>std::list\<close> of orders, and an
  \<^verbatim>\<open>std::unordered_map\<close> from order id to a record that holds an iterator into its level's list.

  The operations return \<^const>\<open>None\<close> where the C++ code would run into undefined behaviour: a
  dereferenced null level pointer or \<^verbatim>\<open>end()\<close> iterator, or a list iterator that does not point into
  the level's list. \<open>next_node\<close> stands for the allocator: it is the address the next list node
  is allocated at, above every address handed out before.
\<close>

section \<open>State\<close>

record OrderEntry =
  oe_order_id :: OrderId
  oe_timestamp :: Timestamp
  oe_quantity :: Quantity

type_synonym OrderQueue = "OrderEntry std_list"

record PriceLevel =
  pl_total_quantity :: Quantity
  pl_orders :: OrderQueue

type_synonym Levels = "(i64 \<times> PriceLevel) list"

record OrderRecord =
  or_side :: Side
  or_price :: Price
  or_timestamp :: Timestamp
  or_quantity :: Quantity
  or_iterator :: iter

type_synonym OrderLookup = "(u64 \<times> OrderRecord) list"

record LimitOrderBook =
  bid_levels :: Levels
  ask_levels :: Levels
  order_lookup :: OrderLookup
  lob_stats :: Stats
  next_node :: iter

definition empty_level :: PriceLevel where
  "empty_level = \<lparr>pl_total_quantity = Quantity 0, pl_orders = []\<rparr>"

definition new_book :: LimitOrderBook where
  "new_book = \<lparr>bid_levels = [], ask_levels = [], order_lookup = [],
     lob_stats = \<lparr>st_events_applied = 0\<rparr>, next_node = 0\<rparr>"

text \<open>The levels of one side: \<^verbatim>\<open>side == Side::Buy ? bid_levels_ : ask_levels_\<close>.\<close>

fun side_levels :: "Side \<Rightarrow> LimitOrderBook \<Rightarrow> Levels" where
  "side_levels Buy b = bid_levels b"
| "side_levels Sell b = ask_levels b"

fun with_side_levels :: "Side \<Rightarrow> Levels \<Rightarrow> LimitOrderBook \<Rightarrow> LimitOrderBook" where
  "with_side_levels Buy ls b = b\<lparr>bid_levels := ls\<rparr>"
| "with_side_levels Sell ls b = b\<lparr>ask_levels := ls\<rparr>"

definition count_applied :: "LimitOrderBook \<Rightarrow> LimitOrderBook" where
  "count_applied b = b\<lparr>lob_stats := \<lparr>st_events_applied = st_events_applied (lob_stats b) + 1\<rparr>\<rparr>"

definition find_level :: "LimitOrderBook \<Rightarrow> Side \<Rightarrow> Price \<Rightarrow> PriceLevel option" where
  "find_level b s p = (if s = Buy then map_of (bid_levels b) (ticks p) else map_of (ask_levels b) (ticks p))"

section \<open>Operations\<close>

definition add_order ::
  "LimitOrderBook \<Rightarrow> OrderId \<Rightarrow> Side \<Rightarrow> Price \<Rightarrow> Quantity \<Rightarrow> Timestamp \<Rightarrow> (BookResult \<times> LimitOrderBook) option" where
  "add_order b order_id side price quantity timestamp =
     (if units quantity = 0 then Some (InvalidQuantity, b)
      else if map_of (order_lookup b) (id_value order_id) \<noteq> None then Some (DuplicateOrderId, b)
      else do {
        let levels = om_subscript (side_lt side) empty_level (ticks price) (side_levels side b);
        level \<leftarrow> map_of levels (ticks price);
        let order_it = next_node b;
        let entry = \<lparr>oe_order_id = order_id, oe_timestamp = timestamp, oe_quantity = quantity\<rparr>;
        let level' = level\<lparr>pl_orders := list_push_back order_it entry (pl_orders level),
          pl_total_quantity := Quantity (units (pl_total_quantity level) + units quantity)\<rparr>;
        let record = \<lparr>or_side = side, or_price = price, or_timestamp = timestamp,
          or_quantity = quantity, or_iterator = order_it\<rparr>;
        let b' = with_side_levels side (al_assign (ticks price) level' levels) b;
        Some (Applied, count_applied (b'\<lparr>
          order_lookup := um_emplace (id_value order_id) record (order_lookup b),
          next_node := Suc order_it\<rparr>))
      })"

definition remove_existing_order :: "LimitOrderBook \<Rightarrow> u64 \<Rightarrow> OrderRecord \<Rightarrow> LimitOrderBook option" where
  "remove_existing_order b order_key record = do {
     let p = ticks (or_price record);
     let levels = side_levels (or_side record) b;
     level \<leftarrow> map_of levels p;
     orders \<leftarrow> list_erase (or_iterator record) (pl_orders level);
     let level' = level\<lparr>
       pl_total_quantity := Quantity (units (pl_total_quantity level) - units (or_quantity record)),
       pl_orders := orders\<rparr>;
     let levels' = (if orders = [] then al_erase p levels else al_assign p level' levels);
     Some ((with_side_levels (or_side record) levels' b)\<lparr>
       order_lookup := al_erase order_key (order_lookup b)\<rparr>)
   }"

definition cancel_order :: "LimitOrderBook \<Rightarrow> OrderId \<Rightarrow> (BookResult \<times> LimitOrderBook) option" where
  "cancel_order b order_id =
     (case map_of (order_lookup b) (id_value order_id) of
        None \<Rightarrow> Some (MissingOrderId, b)
      | Some record \<Rightarrow> do {
          b' \<leftarrow> remove_existing_order b (id_value order_id) record;
          Some (Applied, count_applied b')
        })"

text \<open>
  The common tail of \<^verbatim>\<open>modify_order\<close> and of a partial \<^verbatim>\<open>execute_order\<close>: the level total drops by
  \<open>reduction\<close>, the record and the list entry take the new quantity.
\<close>

definition reduce_order ::
  "LimitOrderBook \<Rightarrow> u64 \<Rightarrow> OrderRecord \<Rightarrow> u64 \<Rightarrow> Quantity \<Rightarrow> (BookResult \<times> LimitOrderBook) option" where
  "reduce_order b order_key record reduction new_quantity = do {
     level \<leftarrow> find_level b (or_side record) (or_price record);
     orders \<leftarrow> list_write (or_iterator record) (\<lambda>e. e\<lparr>oe_quantity := new_quantity\<rparr>) (pl_orders level);
     let level' = level\<lparr>
       pl_total_quantity := Quantity (units (pl_total_quantity level) - reduction),
       pl_orders := orders\<rparr>;
     let b' = with_side_levels (or_side record)
       (al_assign (ticks (or_price record)) level' (side_levels (or_side record) b)) b;
     Some (Applied, count_applied (b'\<lparr>order_lookup :=
       al_assign order_key (record\<lparr>or_quantity := new_quantity\<rparr>) (order_lookup b)\<rparr>))
   }"

definition modify_order :: "LimitOrderBook \<Rightarrow> OrderId \<Rightarrow> Quantity \<Rightarrow> (BookResult \<times> LimitOrderBook) option" where
  "modify_order b order_id new_quantity =
     (if units new_quantity = 0 then Some (InvalidQuantity, b)
      else case map_of (order_lookup b) (id_value order_id) of
        None \<Rightarrow> Some (MissingOrderId, b)
      | Some record \<Rightarrow>
          if units new_quantity > units (or_quantity record) then Some (UnsupportedModify, b)
          else if units new_quantity = units (or_quantity record) then Some (Applied, count_applied b)
          else reduce_order b (id_value order_id) record
            (units (or_quantity record) - units new_quantity) new_quantity)"

definition execute_order :: "LimitOrderBook \<Rightarrow> OrderId \<Rightarrow> Quantity \<Rightarrow> (BookResult \<times> LimitOrderBook) option" where
  "execute_order b order_id executed_quantity =
     (if units executed_quantity = 0 then Some (InvalidQuantity, b)
      else case map_of (order_lookup b) (id_value order_id) of
        None \<Rightarrow> Some (MissingOrderId, b)
      | Some record \<Rightarrow>
          if units executed_quantity > units (or_quantity record) then Some (InsufficientQuantity, b)
          else if units executed_quantity = units (or_quantity record) then do {
            b' \<leftarrow> remove_existing_order b (id_value order_id) record;
            Some (Applied, count_applied b')
          }
          else reduce_order b (id_value order_id) record (units executed_quantity)
            (Quantity (units (or_quantity record) - units executed_quantity)))"

definition apply_event :: "LimitOrderBook \<Rightarrow> MarketEvent \<Rightarrow> (BookResult \<times> LimitOrderBook) option" where
  "apply_event b event =
     (case ev_type event of
        Add \<Rightarrow> add_order b (ev_order_id event) (ev_side event) (ev_price event)
          (ev_quantity event) (ev_timestamp event)
      | Modify \<Rightarrow> modify_order b (ev_order_id event) (ev_quantity event)
      | Cancel \<Rightarrow> cancel_order b (ev_order_id event)
      | Execute \<Rightarrow> execute_order b (ev_order_id event) (ev_quantity event))"

definition clear :: "LimitOrderBook \<Rightarrow> LimitOrderBook" where
  "clear b = b\<lparr>bid_levels := [], ask_levels := [], order_lookup := [],
     lob_stats := \<lparr>st_events_applied = 0\<rparr>\<rparr>"

section \<open>Views\<close>

definition make_price_level_view :: "i64 \<Rightarrow> PriceLevel \<Rightarrow> PriceLevelView" where
  "make_price_level_view p level = \<lparr>pv_price = Price p, pv_quantity = pl_total_quantity level,
     pv_order_count = of_nat (length (pl_orders level))\<rparr>"

definition begin_view :: "Levels \<Rightarrow> PriceLevelView option" where
  "begin_view ls = (case ls of [] \<Rightarrow> None | (p, level) # _ \<Rightarrow> Some (make_price_level_view p level))"

definition top_of_book :: "LimitOrderBook \<Rightarrow> TopOfBook" where
  "top_of_book b = \<lparr>top_bid = begin_view (bid_levels b), top_ask = begin_view (ask_levels b)\<rparr>"

fun depth_loop :: "size_t \<Rightarrow> Levels \<Rightarrow> PriceLevelView list \<Rightarrow> PriceLevelView list" where
  "depth_loop levels [] result = result"
| "depth_loop levels ((p, level) # ls) result =
     (if length result < unat levels
      then depth_loop levels ls (result @ [make_price_level_view p level]) else result)"

definition depth :: "LimitOrderBook \<Rightarrow> size_t \<Rightarrow> BookDepth" where
  "depth b levels = \<lparr>depth_bids = depth_loop levels (bid_levels b) [],
     depth_asks = depth_loop levels (ask_levels b) []\<rparr>"

definition level_snapshot :: "i64 \<times> PriceLevel \<Rightarrow> PriceLevelSnapshot" where
  "level_snapshot pl = \<lparr>ps_price = Price (fst pl), ps_quantity = pl_total_quantity (snd pl),
     ps_orders = map (\<lambda>n. \<lparr>ov_order_id = oe_order_id (snd n), ov_timestamp = oe_timestamp (snd n),
       ov_quantity = oe_quantity (snd n)\<rparr>) (pl_orders (snd pl))\<rparr>"

definition snapshot :: "LimitOrderBook \<Rightarrow> BookSnapshot" where
  "snapshot b = \<lparr>snap_bids = map level_snapshot (bid_levels b),
     snap_asks = map level_snapshot (ask_levels b)\<rparr>"

definition order_ids_at_price :: "LimitOrderBook \<Rightarrow> Side \<Rightarrow> Price \<Rightarrow> OrderId list" where
  "order_ids_at_price b s p =
     (case find_level b s p of
        None \<Rightarrow> []
      | Some level \<Rightarrow> map (\<lambda>n. oe_order_id (snd n)) (pl_orders level))"

definition events_applied :: "LimitOrderBook \<Rightarrow> u64" where
  "events_applied b = st_events_applied (lob_stats b)"

definition live_order_count :: "LimitOrderBook \<Rightarrow> size_t" where
  "live_order_count b = of_nat (length (order_lookup b))"

section \<open>The book's own invariant check\<close>

text \<open>
  \<^verbatim>\<open>validate_invariants\<close>. In the loops below \<^const>\<open>None\<close> is \<^verbatim>\<open>return false\<close>; the set
  \<^verbatim>\<open>seen_order_ids\<close>, which the lambda captures by reference, is threaded as a list.
\<close>

fun validate_orders ::
  "LimitOrderBook \<Rightarrow> Side \<Rightarrow> i64 \<Rightarrow> OrderQueue \<Rightarrow> u64 list \<Rightarrow> u64 \<Rightarrow> (u64 list \<times> u64) option" where
  "validate_orders b side price [] seen total_quantity = Some (seen, total_quantity)"
| "validate_orders b side price ((it, entry) # q) seen total_quantity =
     (if units (oe_quantity entry) = 0 then None
      else if id_value (oe_order_id entry) \<in> set seen then None
      else case map_of (order_lookup b) (id_value (oe_order_id entry)) of
        None \<Rightarrow> None
      | Some record \<Rightarrow>
          if or_side record \<noteq> side then None
          else if ticks (or_price record) \<noteq> price then None
          else if or_quantity record \<noteq> oe_quantity entry then None
          else if or_timestamp record \<noteq> oe_timestamp entry then None
          else if or_iterator record \<noteq> it then None
          else validate_orders b side price q (id_value (oe_order_id entry) # seen)
            (total_quantity + units (oe_quantity entry)))"

definition validate_level ::
  "LimitOrderBook \<Rightarrow> Side \<Rightarrow> i64 \<Rightarrow> PriceLevel \<Rightarrow> u64 list \<Rightarrow> u64 list option" where
  "validate_level b side price level seen =
     (if pl_orders level = [] then None
      else case validate_orders b side price (pl_orders level) seen 0 of
        None \<Rightarrow> None
      | Some (seen', total_quantity) \<Rightarrow> if total_quantity = units (pl_total_quantity level) then Some seen' else None)"

fun validate_levels :: "LimitOrderBook \<Rightarrow> Side \<Rightarrow> Levels \<Rightarrow> u64 list \<Rightarrow> u64 list option" where
  "validate_levels b side [] seen = Some seen"
| "validate_levels b side ((p, level) # ls) seen =
     (case validate_level b side p level seen of
        None \<Rightarrow> None
      | Some seen' \<Rightarrow> validate_levels b side ls seen')"

definition crossed :: "LimitOrderBook \<Rightarrow> bool" where
  "crossed b = (case (bid_levels b, ask_levels b) of
      ((bid, _) # _, (ask, _) # _) \<Rightarrow> sint ask < sint bid
    | _ \<Rightarrow> False)"

definition validate_top :: "LimitOrderBook \<Rightarrow> bool" where
  "validate_top b =
     (if (bid_levels b = []) \<noteq> (top_bid (top_of_book b) = None) then False
      else if (ask_levels b = []) \<noteq> (top_ask (top_of_book b) = None) then False
      else if bid_levels b \<noteq> [] \<and> top_bid (top_of_book b) \<noteq>
        Some (make_price_level_view (fst (hd (bid_levels b))) (snd (hd (bid_levels b)))) then False
      else if ask_levels b \<noteq> [] \<and> top_ask (top_of_book b) \<noteq>
        Some (make_price_level_view (fst (hd (ask_levels b))) (snd (hd (ask_levels b)))) then False
      else True)"

definition validate_lookup :: "LimitOrderBook \<Rightarrow> u64 list \<Rightarrow> bool" where
  "validate_lookup b seen =
     (if length seen \<noteq> length (order_lookup b) then False
      else list_all (\<lambda>(order_id, record). order_id \<in> set seen
        \<and> find_level b (or_side record) (or_price record) \<noteq> None) (order_lookup b))"

definition validate_invariants :: "LimitOrderBook \<Rightarrow> InvariantOptions \<Rightarrow> bool" where
  "validate_invariants b options =
     (if \<not> allow_crossed_book options \<and> crossed b then False
      else if \<not> validate_top b then False
      else case validate_levels b Buy (bid_levels b) [] of
        None \<Rightarrow> False
      | Some bid_seen \<Rightarrow> case validate_levels b Sell (ask_levels b) bid_seen of
        None \<Rightarrow> False
      | Some seen \<Rightarrow> validate_lookup b seen)"

end
