(* ===== verification/Limit_Book_Refinement.thy ===== *)
theory Limit_Book_Refinement
  imports Limit_Order_Book
begin

text \<open>
  The baseline book refines the abstract book: the lists, totals and iterators follow the live
  orders through every update, every query answers what the abstract book shows, and the book
  satisfies the interface \<open>order_book\<close>.
\<close>

section \<open>Simulation by the abstract book\<close>

definition order_entry :: "order \<Rightarrow> OrderEntry" where
  "order_entry x = \<lparr>oe_order_id = o_id x, oe_timestamp = o_timestamp x, oe_quantity = o_quantity x\<rparr>"

definition mk_queue :: "(OrderId \<Rightarrow> iter) \<Rightarrow> order list \<Rightarrow> OrderQueue" where
  "mk_queue it A = map (\<lambda>x. (it (o_id x), order_entry x)) A"

definition mk_level :: "(OrderId \<Rightarrow> iter) \<Rightarrow> order list \<Rightarrow> PriceLevel" where
  "mk_level it A = \<lparr>pl_total_quantity = Quantity (orders_total A), pl_orders = mk_queue it A\<rparr>"

definition mk_record :: "(OrderId \<Rightarrow> iter) \<Rightarrow> order \<Rightarrow> OrderRecord" where
  "mk_record it x = \<lparr>or_side = o_side x, or_price = o_price x, or_timestamp = o_timestamp x,
     or_quantity = o_quantity x, or_iterator = it (o_id x)\<rparr>"

text \<open>
  The simulation relation. \<open>it\<close> gives the list node of each live order; all levels and the
  lookup are then determined by the abstract book.
\<close>

definition lob_rel_at :: "(OrderId \<Rightarrow> iter) \<Rightarrow> LimitOrderBook \<Rightarrow> spec_book \<Rightarrow> bool" where
  "lob_rel_at it b S \<longleftrightarrow> spec_inv S \<and> sb_capacity S = None
     \<and> st_events_applied (lob_stats b) = sb_applied S
     \<and> lookup_rep (mk_record it) (order_lookup b) (sb_orders S)
     \<and> (\<forall>s. levels_rep (mk_level it) s (side_levels s b) (sb_orders S))
     \<and> inj_on it (o_id ` set (sb_orders S))
     \<and> (\<forall>i \<in> o_id ` set (sb_orders S). it i < next_node b)"

definition lob_rel :: "LimitOrderBook \<Rightarrow> spec_book \<Rightarrow> bool" where
  "lob_rel b S \<longleftrightarrow> (\<exists>it. lob_rel_at it b S)"

lemma side_levels_with [simp]:
  "side_levels s (with_side_levels s' ls b) = (if s = s' then ls else side_levels s b)"
  by (cases s; cases s') auto

lemma with_side_levels_frame [simp]:
  "order_lookup (with_side_levels s ls b) = order_lookup b"
  "lob_stats (with_side_levels s ls b) = lob_stats b"
  "next_node (with_side_levels s ls b) = next_node b"
  by (cases s; simp)+

lemma side_levels_frame [simp]:
  "side_levels s (b\<lparr>order_lookup := l\<rparr>) = side_levels s b"
  "side_levels s (b\<lparr>next_node := n\<rparr>) = side_levels s b"
  "side_levels s (count_applied b) = side_levels s b"
  by (cases s; simp add: count_applied_def)+

lemma count_applied_frame [simp]:
  "order_lookup (count_applied b) = order_lookup b"
  "next_node (count_applied b) = next_node b"
  "st_events_applied (lob_stats (count_applied b)) = st_events_applied (lob_stats b) + 1"
  by (simp_all add: count_applied_def)

lemma find_level_side: "find_level b s p = map_of (side_levels s b) (ticks p)"
  by (cases s) (simp_all add: find_level_def)

lemma mk_level_cong: "(\<And>x. x \<in> set A \<Longrightarrow> it' (o_id x) = it (o_id x)) \<Longrightarrow> mk_level it' A = mk_level it A"
  by (simp add: mk_level_def mk_queue_def)

lemma mk_record_sel [simp]:
  "or_side (mk_record it x) = o_side x" "or_price (mk_record it x) = o_price x"
  "or_timestamp (mk_record it x) = o_timestamp x" "or_quantity (mk_record it x) = o_quantity x"
  "or_iterator (mk_record it x) = it (o_id x)"
  by (simp_all add: mk_record_def)

lemma mk_level_sel [simp]:
  "pl_total_quantity (mk_level it A) = Quantity (orders_total A)"
  "pl_orders (mk_level it A) = mk_queue it A"
  by (simp_all add: mk_level_def)

lemma mk_queue_write:
  assumes "inj_on it (o_id ` set A)" and "x \<in> set A"
  shows "list_write (it (o_id x)) (\<lambda>e. e\<lparr>oe_quantity := q\<rparr>) (mk_queue it A)
    = Some (mk_queue it (set_quantity (o_id x) q A))"
proof -
  have "it (o_id y) = it (o_id x) \<longleftrightarrow> o_id y = o_id x" if "y \<in> set A" for y
    using assms that by (auto simp: inj_on_def)
  with assms(2) show ?thesis
    by (auto simp: list_write_def mk_queue_def set_quantity_def order_entry_def)
qed

lemma mk_queue_erase:
  assumes "inj_on it (o_id ` set A)" and "x \<in> set A"
  shows "list_erase (it (o_id x)) (mk_queue it A) = Some (mk_queue it (remove_order (o_id x) A))"
proof -
  have "it (o_id y) = it (o_id x) \<longleftrightarrow> o_id y = o_id x" if "y \<in> set A" for y
    using assms that by (auto simp: inj_on_def)
  with assms(2) show ?thesis
    by (auto simp: list_erase_def mk_queue_def remove_order_def filter_map comp_def cong: filter_cong)
qed

lemma level_value_frame:
  assumes "level_orders s p A' = level_orders s p A"
    and "\<And>x. x \<in> set A \<Longrightarrow> it' (o_id x) = it (o_id x)"
  shows "level_value (mk_level it') s A' p = level_value (mk_level it) s A p"
  using assms by (auto simp: level_value_def in_level_orders intro: mk_level_cong)

lemma lob_rel_atI:
  assumes "spec_inv S" and "sb_capacity S = None" and "st_events_applied (lob_stats b) = sb_applied S"
    and "lookup_rep (mk_record it) (order_lookup b) (sb_orders S)"
    and "\<And>s. levels_rep (mk_level it) s (side_levels s b) (sb_orders S)"
    and "inj_on it (o_id ` set (sb_orders S))"
    and "\<And>i. i \<in> o_id ` set (sb_orders S) \<Longrightarrow> it i < next_node b"
  shows "lob_rel b S"
  using assms by (auto simp: lob_rel_def lob_rel_at_def)

lemma lob_rel_atD:
  assumes "lob_rel_at it b S"
  shows "spec_inv S" "sb_capacity S = None" "st_events_applied (lob_stats b) = sb_applied S"
    "lookup_rep (mk_record it) (order_lookup b) (sb_orders S)"
    "levels_rep (mk_level it) s (side_levels s b) (sb_orders S)"
    "inj_on it (o_id ` set (sb_orders S))"
    "i \<in> o_id ` set (sb_orders S) \<Longrightarrow> it i < next_node b"
    "map_of (order_lookup b) (id_value i) = map_option (mk_record it) (find_order (sb_orders S) i)"
    "distinct (map o_id (sb_orders S))"
  using assms by (auto simp: lob_rel_at_def spec_inv_def lookup_rep_find)

lemma subscript_level:
  assumes "levels_rep (mk_level it) s m A"
  shows "map_of (om_subscript (side_lt s) empty_level p m) p = Some (mk_level it (level_orders s p A))"
proof -
  have "empty_level = mk_level it []"
    by (simp add: empty_level_def mk_level_def mk_queue_def orders_total_def)
  with assms show ?thesis
    by (auto simp: levels_rep_def level_value_def side_cmp.map_of_subscript)
qed

lemma mk_level_push_back:
  assumes "\<And>y. y \<in> set A \<Longrightarrow> it' (o_id y) = it (o_id y)"
  shows "(mk_level it A)\<lparr>pl_orders := list_push_back (it' (o_id x)) (order_entry x) (pl_orders (mk_level it A)),
      pl_total_quantity := Quantity (orders_total A + units (o_quantity x))\<rparr> = mk_level it' (A @ [x])"
  using assms by (simp add: mk_level_def mk_queue_def list_push_back_def orders_total_append)

text \<open>An insertion into the levels, for a new order \<open>x\<close> at the list node \<open>it' (o_id x)\<close>.\<close>

lemma levels_add:
  assumes rep: "\<And>s. levels_rep (mk_level it) s (side_levels s b) A"
    and same: "\<And>y. y \<in> set A \<Longrightarrow> it' (o_id y) = it (o_id y)"
    and m: "m = om_subscript (side_lt (o_side x)) empty_level (ticks (o_price x)) (side_levels (o_side x) b)"
  shows "levels_rep (mk_level it') s (if s = o_side x
      then al_assign (ticks (o_price x)) (mk_level it' (level_orders (o_side x) (ticks (o_price x)) (A @ [x]))) m
      else side_levels s b) (A @ [x])"
proof (cases "s = o_side x")
  case True
  have "levels_rep (mk_level it') s (al_assign (ticks (o_price x))
      (mk_level it' (level_orders s (ticks (o_price x)) (A @ [x]))) m) (A @ [x])"
    unfolding m True
    by (rule levels_rep_subscript [OF rep])
      (auto simp: level_orders_append intro!: level_value_frame same)
  with True show ?thesis by simp
next
  case False
  then have "levels_rep (mk_level it') s (side_levels s b) (A @ [x])"
    by (intro levels_rep_keep [OF rep] level_value_frame same) (auto simp: level_orders_append)
  with False show ?thesis by simp
qed

lemma insert_sim:
  assumes rel: "lob_rel_at it b S" and new: "find_order (sb_orders S) (o_id x) = None"
    and q: "units (o_quantity x) \<noteq> 0"
  shows "\<exists>b'. add_order b (o_id x) (o_side x) (o_price x) (o_quantity x) (o_timestamp x) = Some (Applied, b')
    \<and> lob_rel b' (snd (spec_commit (sb_orders S @ [x]) S))"
proof -
  let ?A = "sb_orders S" and ?s = "o_side x" and ?p = "ticks (o_price x)"
  define it' where "it' = it(o_id x := next_node b)"
  define m where "m = om_subscript (side_lt ?s) empty_level ?p (side_levels ?s b)"
  define os where "os = level_orders ?s ?p ?A"
  have fresh: "o_id x \<notin> o_id ` set ?A" using new by (simp add: find_order_None_iff)
  then have same: "it' (o_id y) = it (o_id y)" if "y \<in> set ?A" for y
    unfolding it'_def using that by (rule upd_fresh_key)
  have level: "map_of m ?p = Some (mk_level it os)"
    unfolding m_def os_def by (rule subscript_level [OF lob_rel_atD(5) [OF rel]])
  define b' where "b' = count_applied ((with_side_levels ?s (al_assign ?p (mk_level it' (os @ [x])) m) b)\<lparr>
      order_lookup := um_emplace (id_value (o_id x)) (mk_record it' x) (order_lookup b),
      next_node := Suc (next_node b)\<rparr>)"
  have node: "it' (o_id x) = next_node b" by (simp add: it'_def)
  have "add_order b (o_id x) ?s (o_price x) (o_quantity x) (o_timestamp x) = Some (Applied, b')"
    using q new mk_level_push_back [of os it' it x, unfolded node] same
    by (simp add: add_order_def lob_rel_atD(8) [OF rel] level [unfolded m_def] b'_def m_def mk_record_def node
        order_entry_def os_def in_level_orders Let_def)
  moreover have "lob_rel b' (snd (spec_commit (?A @ [x]) S))"
  proof (rule lob_rel_atI [where it = it'])
    show "spec_inv (snd (spec_commit (?A @ [x]) S))"
      using spec_inv_add [OF lob_rel_atD(1) [OF rel], of x] lob_rel_atD(2) [OF rel] new q
      by (simp add: spec_add_def at_capacity_def)
    show "lookup_rep (mk_record it') (order_lookup b') (sb_orders (snd (spec_commit (?A @ [x]) S)))"
      using lookup_rep_add [OF lob_rel_atD(4) [OF rel] new, of "mk_record it'"] same
      by (simp add: b'_def spec_commit_def mk_record_def)
    show "levels_rep (mk_level it') s (side_levels s b') (sb_orders (snd (spec_commit (?A @ [x]) S)))" for s
      using levels_add [OF lob_rel_atD(5) [OF rel] same m_def, of s]
      by (simp add: b'_def spec_commit_def os_def level_orders_append split: if_splits)
    have "next_node b \<notin> it ` o_id ` set ?A"
      using lob_rel_atD(7) [OF rel] by (metis imageE less_irrefl)
    then show "inj_on it' (o_id ` set (sb_orders (snd (spec_commit (?A @ [x]) S))))"
      using inj_on_extend [OF lob_rel_atD(6) [OF rel] fresh] by (simp add: spec_commit_def it'_def)
    show "it' j < next_node b'" if "j \<in> o_id ` set (sb_orders (snd (spec_commit (?A @ [x]) S)))" for j
      using lob_rel_atD(7) [OF rel, of j] that
      by (auto simp: spec_commit_def it'_def b'_def intro: less_SucI)
  qed (use lob_rel_atD [OF rel] in \<open>simp_all add: spec_commit_def b'_def\<close>)
  ultimately show ?thesis by blast
qed

lemma add_order_sim:
  assumes rel: "lob_rel_at it b S"
  shows "\<exists>b'. add_order b (o_id x) (o_side x) (o_price x) (o_quantity x) (o_timestamp x)
      = Some (fst (spec_add S x), b') \<and> lob_rel b' (snd (spec_add S x))"
proof (cases "units (o_quantity x) = 0 \<or> find_order (sb_orders S) (o_id x) \<noteq> None")
  case True
  with rel show ?thesis
    by (auto simp: add_order_def spec_add_def lob_rel_atD(8) [OF rel] lob_rel_def)
next
  case False
  with insert_sim [OF rel, of x] lob_rel_atD(2) [OF rel] show ?thesis
    by (auto simp: spec_add_def at_capacity_def) (simp_all add: spec_commit_def)
qed

lemma mk_queue_Nil_iff [simp]: "mk_queue it A = [] \<longleftrightarrow> A = []"
  by (simp add: mk_queue_def)

lemma own_level:
  assumes "lob_rel_at it b S" and "x \<in> set (sb_orders S)"
  shows "map_of (side_levels (o_side x) b) (ticks (o_price x))
    = Some (mk_level it (level_orders (o_side x) (ticks (o_price x)) (sb_orders S)))"
  using levels_rep_find [OF lob_rel_atD(5) [OF assms(1)]] own_level_nonempty [OF assms(2)]
  by (simp add: level_value_Some)

lemma inj_on_level: "inj_on it (o_id ` set A) \<Longrightarrow> inj_on it (o_id ` set (level_orders s p A))"
  by (erule inj_on_subset) (auto simp: in_level_orders)

text \<open>
  Both quantity-reducing paths: the level's total, the record and the list entry change together,
  the order keeps its place.
\<close>

lemma reduce_order_sim:
  assumes rel: "lob_rel_at it b S" and x: "x \<in> set (sb_orders S)" and q: "units q \<noteq> 0"
    and red: "units (o_quantity x) - r = units q"
  shows "\<exists>b'. reduce_order b (id_value (o_id x)) (mk_record it x) r q = Some (Applied, b')
    \<and> lob_rel b' (snd (spec_commit (set_quantity (o_id x) q (sb_orders S)) S))"
proof -
  let ?A = "sb_orders S" and ?s = "o_side x" and ?p = "ticks (o_price x)"
  let ?os = "level_orders ?s ?p ?A"
  let ?A' = "set_quantity (o_id x) q ?A"
  note dist = lob_rel_atD(9) [OF rel] and inj = lob_rel_atD(6) [OF rel]
  have x_os: "x \<in> set ?os" using x by (simp add: in_level_orders)
  have os': "level_orders ?s ?p ?A' = set_quantity (o_id x) q ?os"
    by (simp add: level_orders_set_quantity [OF dist x])
  have total: "orders_total ?os - r = orders_total (set_quantity (o_id x) q ?os)"
    using orders_total_set_quantity [OF distinct_level_orders [OF dist] x_os, of q] red
    by (simp add: algebra_simps)
  define b' where "b' = count_applied ((with_side_levels ?s
      (al_assign ?p (mk_level it (level_orders ?s ?p ?A')) (side_levels ?s b)) b)\<lparr>
      order_lookup := al_assign (id_value (o_id x)) (mk_record it (x\<lparr>o_quantity := q\<rparr>)) (order_lookup b)\<rparr>)"
  have "reduce_order b (id_value (o_id x)) (mk_record it x) r q = Some (Applied, b')"
    using mk_queue_write [OF inj_on_level [OF inj] x_os, of q] total
    by (simp add: reduce_order_def find_level_side own_level [OF rel x] b'_def os')
      (simp add: mk_level_def mk_record_def)
  moreover have "lob_rel b' (snd (spec_commit ?A' S))"
  proof (rule lob_rel_atI [where it = it])
    show "spec_inv (snd (spec_commit ?A' S))"
      by (rule spec_inv_set_quantity [OF lob_rel_atD(1) [OF rel] q])
    have "find_order ?A (o_id x) = Some x" using x by (simp add: find_order_Some_iff [OF dist])
    then show "lookup_rep (mk_record it) (order_lookup b') (sb_orders (snd (spec_commit ?A' S)))"
      using lookup_rep_set_quantity [OF lob_rel_atD(4) [OF rel], of "o_id x" x q]
      by (simp add: b'_def spec_commit_def)
    show "levels_rep (mk_level it) s' (side_levels s' b') (sb_orders (snd (spec_commit ?A' S)))" for s'
      using levels_rep_set_quantity [OF lob_rel_atD(5) [OF rel] dist x, of s' q]
      by (auto simp: b'_def spec_commit_def os')
    show "inj_on it (o_id ` set (sb_orders (snd (spec_commit ?A' S))))"
      using inj by (simp add: spec_commit_def)
    show "it j < next_node b'" if "j \<in> o_id ` set (sb_orders (snd (spec_commit ?A' S)))" for j
      using lob_rel_atD(7) [OF rel, of j] that by (simp add: spec_commit_def b'_def)
  qed (use lob_rel_atD [OF rel] in \<open>simp_all add: spec_commit_def b'_def\<close>)
  ultimately show ?thesis by blast
qed

lemma remove_order_sim:
  assumes rel: "lob_rel_at it b S" and x: "x \<in> set (sb_orders S)"
  shows "\<exists>b'. remove_existing_order b (id_value (o_id x)) (mk_record it x) = Some b'
    \<and> lob_rel (count_applied b') (snd (spec_commit (remove_order (o_id x) (sb_orders S)) S))"
proof -
  let ?A = "sb_orders S" and ?s = "o_side x" and ?p = "ticks (o_price x)"
  let ?os = "level_orders ?s ?p ?A"
  let ?A' = "remove_order (o_id x) ?A"
  note dist = lob_rel_atD(9) [OF rel] and inj = lob_rel_atD(6) [OF rel]
  have x_os: "x \<in> set ?os" using x by (simp add: in_level_orders)
  have os': "level_orders ?s ?p ?A' = remove_order (o_id x) ?os"
    by (simp add: level_orders_remove [OF dist x])
  define ls where "ls = (if level_orders ?s ?p ?A' = [] then al_erase ?p (side_levels ?s b)
      else al_assign ?p (mk_level it (level_orders ?s ?p ?A')) (side_levels ?s b))"
  define b' where "b' = (with_side_levels ?s ls b)\<lparr>
      order_lookup := al_erase (id_value (o_id x)) (order_lookup b)\<rparr>"
  have "remove_existing_order b (id_value (o_id x)) (mk_record it x) = Some b'"
    using mk_queue_erase [OF inj_on_level [OF inj] x_os]
      orders_total_remove [OF distinct_level_orders [OF dist] x_os]
    by (simp add: remove_existing_order_def own_level [OF rel x] b'_def ls_def os' Let_def)
      (simp add: mk_level_def)
  moreover have "lob_rel (count_applied b') (snd (spec_commit ?A' S))"
  proof (rule lob_rel_atI [where it = it])
    show "spec_inv (snd (spec_commit ?A' S))"
      by (rule spec_inv_remove [OF lob_rel_atD(1) [OF rel]])
    show "lookup_rep (mk_record it) (order_lookup (count_applied b')) (sb_orders (snd (spec_commit ?A' S)))"
      using lookup_rep_remove [OF lob_rel_atD(4) [OF rel], of "o_id x"]
      by (simp add: b'_def spec_commit_def)
    show "levels_rep (mk_level it) s' (side_levels s' (count_applied b')) (sb_orders (snd (spec_commit ?A' S)))" for s'
      using levels_rep_remove [OF lob_rel_atD(5) [OF rel] dist x, of s']
      by (auto simp: b'_def spec_commit_def os' ls_def split: if_splits)
    show "inj_on it (o_id ` set (sb_orders (snd (spec_commit ?A' S))))"
      by (rule inj_on_subset [OF inj]) (auto simp: spec_commit_def set_remove_order)
    show "it j < next_node (count_applied b')" if "j \<in> o_id ` set (sb_orders (snd (spec_commit ?A' S)))" for j
      using lob_rel_atD(7) [OF rel, of j] that by (auto simp: spec_commit_def b'_def set_remove_order)
  qed (use lob_rel_atD [OF rel] in \<open>simp_all add: spec_commit_def b'_def\<close>)
  ultimately show ?thesis by blast
qed

lemma lob_rel_same:
  assumes "lob_rel_at it b S" and "x \<in> set (sb_orders S)"
  shows "lob_rel (count_applied b) (snd (spec_commit (set_quantity (o_id x) (o_quantity x) (sb_orders S)) S))"
proof (rule lob_rel_atI [where it = it])
  show "spec_inv (snd (spec_commit (set_quantity (o_id x) (o_quantity x) (sb_orders S)) S))"
    using assms lob_rel_atD(1) [OF assms(1)]
    by (intro spec_inv_set_quantity) (auto simp: spec_inv_def)
qed (use lob_rel_atD [OF assms(1)] assms(2) in \<open>simp_all add: spec_commit_def set_quantity_same\<close>)

lemma lob_rel_lookup:
  assumes "lob_rel_at it b S" and "find_order (sb_orders S) i = Some x"
  shows "x \<in> set (sb_orders S)" "o_id x = i"
    "map_of (order_lookup b) (id_value i) = Some (mk_record it x)"
  using assms lob_rel_atD(8) [OF assms(1), of i] by (auto dest: find_order_SomeD)

lemma cancel_order_sim:
  assumes rel: "lob_rel_at it b S"
  shows "\<exists>b'. cancel_order b i = Some (fst (spec_cancel S i), b') \<and> lob_rel b' (snd (spec_cancel S i))"
proof (cases "find_order (sb_orders S) i")
  case None
  with rel show ?thesis
    by (auto simp: cancel_order_def spec_cancel_def lob_rel_atD(8) [OF rel] lob_rel_def)
next
  case (Some x)
  note found = lob_rel_lookup [OF rel Some]
  from remove_order_sim [OF rel found(1)] found Some show ?thesis
    by (auto simp: cancel_order_def spec_cancel_def) (simp_all add: spec_commit_def)
qed

lemma modify_order_sim:
  assumes rel: "lob_rel_at it b S"
  shows "\<exists>b'. modify_order b i q = Some (fst (spec_modify S i q), b') \<and> lob_rel b' (snd (spec_modify S i q))"
proof (cases "units q = 0 \<or> find_order (sb_orders S) i = None")
  case True
  with rel show ?thesis
    by (auto simp: modify_order_def spec_modify_def lob_rel_atD(8) [OF rel] lob_rel_def)
next
  case False
  then obtain x where x: "find_order (sb_orders S) i = Some x" and q: "units q \<noteq> 0" by auto
  note found = lob_rel_lookup [OF rel x]
  consider "units (o_quantity x) < units q" | "q = o_quantity x" | "units q < units (o_quantity x)"
    using Quantity_eq_iff by (metis linorder_neqE)
  then show ?thesis
  proof cases
    case 1
    with rel found x q show ?thesis by (auto simp: modify_order_def spec_modify_def lob_rel_def)
  next
    case 2
    with lob_rel_same [OF rel found(1)] found x q show ?thesis
      by (auto simp: modify_order_def spec_modify_def) (simp_all add: spec_commit_def)
  next
    case 3
    from reduce_order_sim [OF rel found(1) q, of "units (o_quantity x) - units q"] found x q 3
    show ?thesis
      by (auto simp: modify_order_def spec_modify_def) (simp_all add: spec_commit_def)
  qed
qed

lemma execute_order_sim:
  assumes rel: "lob_rel_at it b S"
  shows "\<exists>b'. execute_order b i q = Some (fst (spec_execute S i q), b') \<and> lob_rel b' (snd (spec_execute S i q))"
proof (cases "units q = 0 \<or> find_order (sb_orders S) i = None")
  case True
  with rel show ?thesis
    by (auto simp: execute_order_def spec_execute_def lob_rel_atD(8) [OF rel] lob_rel_def)
next
  case False
  then obtain x where x: "find_order (sb_orders S) i = Some x" and q: "units q \<noteq> 0" by auto
  note found = lob_rel_lookup [OF rel x]
  consider "units (o_quantity x) < units q" | "units q = units (o_quantity x)" | "units q < units (o_quantity x)"
    by (metis linorder_neqE)
  then show ?thesis
  proof cases
    case 1
    with rel found x q show ?thesis by (auto simp: execute_order_def spec_execute_def lob_rel_def)
  next
    case 2
    from remove_order_sim [OF rel found(1)] found x q 2 show ?thesis
      by (auto simp: execute_order_def spec_execute_def) (simp_all add: spec_commit_def)
  next
    case 3
    then have "units (o_quantity x) - units q \<noteq> 0" by auto
    with reduce_order_sim [OF rel found(1), of "Quantity (units (o_quantity x) - units q)" "units q"]
      found x q 3
    show ?thesis
      by (auto simp: execute_order_def spec_execute_def) (simp_all add: spec_commit_def)
  qed
qed

lemma apply_event_sim:
  assumes "lob_rel b S"
  shows "\<exists>b'. apply_event b e = Some (fst (spec_apply S e), b') \<and> lob_rel b' (snd (spec_apply S e))"
proof -
  obtain it where rel: "lob_rel_at it b S" using assms by (auto simp: lob_rel_def)
  show ?thesis
    using add_order_sim [OF rel, of "event_order e"] cancel_order_sim [OF rel]
      modify_order_sim [OF rel] execute_order_sim [OF rel]
    by (auto simp: apply_event_def spec_apply_def event_order_def split: EventType.split)
qed

section \<open>The queries answer what the abstract book shows\<close>

lemma lob_levels:
  assumes "lob_rel_at it b S"
  shows "side_levels s b = map (\<lambda>p. (p, mk_level it (level_orders s p (sb_orders S)))) (spec_prices s (sb_orders S))"
  by (rule levels_rep_list [OF lob_rel_atD(5) [OF assms]])

lemmas lob_bids = lob_levels [where s = Buy, simplified]
lemmas lob_asks = lob_levels [where s = Sell, simplified]

lemma make_view_mk_level: "make_price_level_view p (mk_level it (level_orders s p A)) = spec_view s A p"
  by (simp add: make_price_level_view_def spec_view_def mk_queue_def)

lemma begin_view_mk:
  "begin_view (map (\<lambda>p. (p, mk_level it (level_orders s p A))) ps) = first_view (map (spec_view s A) ps)"
  by (cases ps) (simp_all add: begin_view_def first_view_def make_view_mk_level)

lemma depth_loop_take:
  "depth_loop n ls acc = acc @ take (unat n - length acc) (map (\<lambda>(p, l). make_price_level_view p l) ls)"
proof (induction ls arbitrary: acc)
  case (Cons pl ls)
  obtain p l where "pl = (p, l)" by force
  moreover have "unat n - length acc = Suc (unat n - Suc (length acc))" if "length acc < unat n"
    using that by simp
  ultimately show ?case using Cons by simp
qed simp

lemma top_of_book_sim: "lob_rel_at it b S \<Longrightarrow> top_of_book b = spec_top S"
  by (simp add: top_of_book_def spec_top_def spec_views_def lob_bids lob_asks begin_view_mk)

lemma depth_sim: "lob_rel_at it b S \<Longrightarrow> depth b n = spec_depth S n"
  by (simp add: depth_def spec_depth_def spec_views_def lob_bids lob_asks depth_loop_take
      comp_def make_view_mk_level)

lemma level_snapshot_mk:
  "level_snapshot (p, mk_level it (level_orders s p A)) = spec_level_snapshot s A p"
  by (simp add: level_snapshot_def spec_level_snapshot_def mk_queue_def order_entry_def order_view_def)

lemma snapshot_sim: "lob_rel_at it b S \<Longrightarrow> snapshot b = spec_snapshot S"
  by (simp add: snapshot_def spec_snapshot_def lob_bids lob_asks comp_def level_snapshot_mk)

lemma order_ids_sim: "lob_rel_at it b S \<Longrightarrow> order_ids_at_price b s p = spec_ids_at_price S s p"
  by (simp add: order_ids_at_price_def find_level_side levels_rep_find [OF lob_rel_atD(5)]
      level_value_def spec_ids_at_price_def mk_queue_def order_entry_def)

lemma live_count_sim: "lob_rel_at it b S \<Longrightarrow> length (order_lookup b) = length (sb_orders S)"
  by (rule lookup_rep_length [OF lob_rel_atD(4) lob_rel_atD(9)])

section \<open>The invariant check\<close>

lemma validate_orders_mk:
  assumes rel: "lob_rel_at it b S"
  shows "set xs \<subseteq> set (level_orders s p (sb_orders S)) \<Longrightarrow> distinct (order_keys xs) \<Longrightarrow>
    set (order_keys xs) \<inter> set seen = {} \<Longrightarrow>
    validate_orders b s p (mk_queue it xs) seen t = Some (rev (order_keys xs) @ seen, t + orders_total xs)"
proof (induction xs arbitrary: seen t)
  case Nil
  then show ?case by (simp add: mk_queue_def order_keys_def orders_total_def)
next
  case (Cons x xs)
  from Cons.prems(1) have x: "x \<in> set (sb_orders S)" "o_side x = s" "ticks (o_price x) = p"
    by (simp_all add: in_level_orders)
  have "find_order (sb_orders S) (o_id x) = Some x"
    by (simp add: find_order_Some_iff [OF lob_rel_atD(9) [OF rel]] x)
  moreover have "units (o_quantity x) \<noteq> 0"
    using lob_rel_atD(1) [OF rel] x by (auto simp: spec_inv_def)
  moreover have "validate_orders b s p (mk_queue it xs) (id_value (o_id x) # seen) (t + units (o_quantity x))
      = Some (rev (order_keys xs) @ id_value (o_id x) # seen, t + units (o_quantity x) + orders_total xs)"
    using Cons.prems by (intro Cons.IH) auto
  ultimately show ?case
    using Cons.prems x lob_rel_atD(8) [OF rel, of "o_id x"]
    by (simp add: mk_queue_def order_entry_def orders_total_def add.assoc)
qed

lemma validate_level_mk:
  assumes rel: "lob_rel_at it b S" and ne: "level_orders s p (sb_orders S) \<noteq> []"
    and "set (order_keys (level_orders s p (sb_orders S))) \<inter> set seen = {}"
  shows "validate_level b s p (mk_level it (level_orders s p (sb_orders S))) seen
    = Some (rev (order_keys (level_orders s p (sb_orders S))) @ seen)"
  using assms validate_orders_mk [OF rel, of _ s p seen 0]
    distinct_order_keys [OF distinct_level_orders [OF lob_rel_atD(9) [OF rel]]]
  by (simp add: validate_level_def)

lemma validate_levels_mk:
  assumes rel: "lob_rel_at it b S"
  shows "distinct ps \<Longrightarrow> (\<forall>p \<in> set ps. level_orders s p (sb_orders S) \<noteq> []
      \<and> set (order_keys (level_orders s p (sb_orders S))) \<inter> set seen = {}) \<Longrightarrow>
    validate_levels b s (map (\<lambda>p. (p, mk_level it (level_orders s p (sb_orders S)))) ps) seen
    = Some (rev (concat (map (\<lambda>p. order_keys (level_orders s p (sb_orders S))) ps)) @ seen)"
proof (induction ps arbitrary: seen)
  case (Cons p ps)
  have "set (order_keys (level_orders s p' (sb_orders S)))
      \<inter> set (rev (order_keys (level_orders s p (sb_orders S))) @ seen) = {}" if "p' \<in> set ps" for p'
    using Cons.prems that levels_keys_disjoint [OF lob_rel_atD(9) [OF rel], of p' p s s] by auto
  with Cons show ?case by (simp add: validate_level_mk [OF rel])
qed simp

lemma validate_sides_mk:
  assumes rel: "lob_rel_at it b S"
  shows "validate_levels b Buy (bid_levels b) [] = Some (rev (side_keys Buy (sb_orders S)))"
    and "validate_levels b Sell (ask_levels b) (rev (side_keys Buy (sb_orders S)))
      = Some (rev (side_keys Sell (sb_orders S)) @ rev (side_keys Buy (sb_orders S)))"
proof -
  let ?A = "sb_orders S"
  have dist: "distinct (spec_prices s ?A)" for s
    by (rule side_cmp.sorted_keys_distinct [OF sorted_spec_prices])
  show "validate_levels b Buy (bid_levels b) [] = Some (rev (side_keys Buy ?A))"
    using validate_levels_mk [OF rel dist [of Buy], where s = Buy and seen = "[]"]
    by (simp add: lob_bids [OF rel] side_keys_def set_spec_prices)
  have "set (order_keys (level_orders Sell p ?A)) \<inter> set (side_keys Buy ?A) = {}" for p
    using levels_keys_disjoint [OF lob_rel_atD(9) [OF rel], of p _ Sell Buy] by (auto simp: side_keys_def)
  then show "validate_levels b Sell (ask_levels b) (rev (side_keys Buy ?A))
      = Some (rev (side_keys Sell ?A) @ rev (side_keys Buy ?A))"
    using validate_levels_mk [OF rel dist [of Sell], where s = Sell and seen = "rev (side_keys Buy ?A)"]
    by (simp add: lob_asks [OF rel] side_keys_def set_spec_prices)
qed

lemma crossed_sim: "lob_rel_at it b S \<Longrightarrow> crossed b \<longleftrightarrow> spec_crossed S"
  unfolding crossed_prices_iff crossed_def
  by (cases "spec_prices Buy (sb_orders S)"; cases "spec_prices Sell (sb_orders S)")
    (simp_all add: lob_bids lob_asks)

lemma validate_top_holds: "validate_top b"
  by (cases "bid_levels b"; cases "ask_levels b")
    (auto simp: validate_top_def top_of_book_def begin_view_def)

lemma lookup_entries_sim:
  assumes rel: "lob_rel_at it b S" and kr: "(k, r) \<in> set (order_lookup b)"
  shows "k \<in> set (order_keys (sb_orders S)) \<and> find_level b (or_side r) (or_price r) \<noteq> None"
proof -
  have "map_of (order_lookup b) k = Some r"
    using lob_rel_atD(4) [OF rel] kr by (simp add: lookup_rep_def)
  then have "map_option (mk_record it) (find_order (sb_orders S) (OrderId k)) = Some r"
    using lob_rel_atD(8) [OF rel, of "OrderId k"] by simp
  then obtain x where "find_order (sb_orders S) (OrderId k) = Some x" "r = mk_record it x" by auto
  then show ?thesis
    using own_level [OF rel]
    by (auto simp: order_keys_def find_level_side image_iff dest!: find_order_SomeD intro!: bexI [of _ x])
qed

lemma validate_invariants_sim:
  assumes rel: "lob_rel_at it b S"
  shows "validate_invariants b opts \<longleftrightarrow> allow_crossed_book opts \<or> \<not> spec_crossed S"
proof -
  let ?A = "sb_orders S"
  let ?seen = "rev (side_keys Sell ?A) @ rev (side_keys Buy ?A)"
  note dist = lob_rel_atD(9) [OF rel] and sides = validate_sides_mk [OF rel]
  have keys: "set ?seen = set (order_keys ?A)" by (rule all_side_keys [OF dist])
  have "length ?seen = length (order_lookup b)"
    using length_side_keys [OF dist] live_count_sim [OF rel] by simp
  then have "validate_lookup b ?seen"
    unfolding validate_lookup_def list_all_iff keys using lookup_entries_sim [OF rel] by auto
  then show ?thesis
    by (simp add: validate_invariants_def crossed_sim [OF rel] sides validate_top_holds)
qed

section \<open>The baseline book implements the interface\<close>

lemma lob_rel_cleared: "lob_rel (clear b) (spec_empty None)"
  by (auto simp: lob_rel_def lob_rel_at_def clear_def spec_inv_def spec_empty_def
      lookup_rep_def find_order_def levels_rep_def level_value_def level_orders_def all_Side)

lemma lob_rel_clear: "lob_rel b S \<Longrightarrow> lob_rel (clear b) (spec_clear S)"
  using lob_rel_cleared by (auto simp: lob_rel_def spec_clear_def dest: lob_rel_atD(2))

lemma lob_rel_new: "lob_rel new_book (spec_empty None)"
  by (auto simp: lob_rel_def lob_rel_at_def new_book_def spec_inv_def spec_empty_def
      lookup_rep_def find_order_def levels_rep_def level_value_def level_orders_def all_Side)

interpretation lob: order_book lob_rel apply_event clear top_of_book depth
  "\<lambda>b. Some (snapshot b)" "\<lambda>b s p. Some (order_ids_at_price b s p)"
  "\<lambda>b opts. Some (validate_invariants b opts)" events_applied live_order_count
proof unfold_locales
  fix b S
  assume "lob_rel b S"
  then obtain it where rel: "lob_rel_at it b S" by (auto simp: lob_rel_def)
  show "spec_inv S" by (rule lob_rel_atD(1) [OF rel])
  show "top_of_book b = spec_top S" by (rule top_of_book_sim [OF rel])
  show "depth b n = spec_depth S n" for n by (rule depth_sim [OF rel])
  show "Some (snapshot b) = Some (spec_snapshot S)" by (simp add: snapshot_sim [OF rel])
  show "Some (order_ids_at_price b s p) = Some (spec_ids_at_price S s p)" for s p
    by (simp add: order_ids_sim [OF rel])
  show "Some (validate_invariants b opts) = Some (allow_crossed_book opts \<or> \<not> spec_crossed S)" for opts
    by (simp add: validate_invariants_sim [OF rel])
  show "events_applied b = sb_applied S" by (simp add: events_applied_def lob_rel_atD(3) [OF rel])
  show "live_order_count b = of_nat (length (sb_orders S))"
    by (simp add: live_order_count_def live_count_sim [OF rel])
qed (auto intro: apply_event_sim lob_rel_clear)

end
