(* ===== verification/Limit_Book_Properties.thy ===== *)
theory Limit_Book_Properties
  imports Limit_Book_Refinement
begin

text \<open>
  What the refinement says about the baseline book's own operations: every event sequence runs
  without undefined behaviour and answers as specified, price-time priority, best prices,
  exact accounting of quantities, rejected events, the internal invariant check and \<open>clear\<close>.
\<close>

section \<open>Reachable books\<close>

inductive lob_reachable :: "LimitOrderBook \<Rightarrow> bool" where
  reach_new: "lob_reachable new_book"
| reach_apply: "lob_reachable b \<Longrightarrow> apply_event b e = Some (r, b') \<Longrightarrow> lob_reachable b'"
| reach_clear: "lob_reachable b \<Longrightarrow> lob_reachable (clear b)"

lemma lob_reachable_rel: "lob_reachable b \<Longrightarrow> \<exists>S. lob_rel b S"
proof (induction rule: lob_reachable.induct)
  case reach_new
  then show ?case using lob_rel_new by blast
next
  case (reach_apply b e r b')
  then obtain S where "lob_rel b S" by blast
  from lob.apply_sim [OF this, of e] reach_apply.hyps(2) show ?case by auto
next
  case (reach_clear b)
  then show ?case using lob_rel_clear by blast
qed

lemma lob_reachable_run:
  "lob_reachable b \<Longrightarrow> run_book apply_event b es = Some (rs, b') \<Longrightarrow> lob_reachable b'"
  by (induction es arbitrary: b rs) (auto simp: bind_eq_Some_conv intro: reach_apply)

lemma lookup_records:
  assumes "lob_rel_at it b S"
  shows "snd ` set (order_lookup b) = mk_record it ` set (sb_orders S)"
  using lookup_rep_mset [OF lob_rel_atD(4) [OF assms] lob_rel_atD(9) [OF assms]] by (metis set_map set_mset_mset)

definition open_quantity :: "LimitOrderBook \<Rightarrow> nat" where
  "open_quantity b = sum_list (map (\<lambda>e. unat (units (or_quantity (snd e)))) (order_lookup b))"

lemma open_quantity_rel:
  assumes "lob_rel_at it b S"
  shows "open_quantity b = open_units (sb_orders S)"
proof -
  have "sum_mset (image_mset (\<lambda>r. unat (units (or_quantity r))) (mset (map snd (order_lookup b))))
      = sum_mset (image_mset (\<lambda>r. unat (units (or_quantity r))) (mset (map (mk_record it) (sb_orders S))))"
    using lookup_rep_mset [OF lob_rel_atD(4) [OF assms] lob_rel_atD(9) [OF assms]] by simp
  then show ?thesis
    by (simp add: open_quantity_def open_units_def comp_def flip: sum_mset_sum_list mset_map)
qed

lemma record_quantity_rel:
  assumes "lob_rel_at it b S"
  shows "map_option or_quantity (map_of (order_lookup b) (id_value i)) = order_quantity S i"
  by (cases "find_order (sb_orders S) i") (simp_all add: order_quantity_def lob_rel_atD(8) [OF assms])

text \<open>\<open>v\<close> is the best price of side \<open>s\<close> among the records \<open>R\<close>.\<close>

definition best_of :: "Side \<Rightarrow> PriceLevelView option \<Rightarrow> OrderRecord set \<Rightarrow> bool" where
  "best_of s v R \<longleftrightarrow> (case v of
      None \<Rightarrow> \<forall>r \<in> R. or_side r \<noteq> s
    | Some lv \<Rightarrow> (\<exists>r \<in> R. or_side r = s \<and> or_price r = pv_price lv)
        \<and> (\<forall>r \<in> R. or_side r = s \<longrightarrow> (if s = Buy then or_price r \<le> pv_price lv else pv_price lv \<le> or_price r)))"

definition mk_event :: "EventType \<Rightarrow> int \<Rightarrow> Side \<Rightarrow> int \<Rightarrow> int \<Rightarrow> MarketEvent" where
  "mk_event ty i s p q = \<lparr>ev_type = ty, ev_timestamp = Timestamp 0, ev_order_id = OrderId (of_int i),
     ev_side = s, ev_price = Price (of_int p), ev_quantity = Quantity (of_int q)\<rparr>"

definition sample_events :: "MarketEvent list" where
  "sample_events = [mk_event Add 1 Buy 100 5, mk_event Add 2 Buy 100 7, mk_event Add 3 Sell 105 4,
     mk_event Modify 2 Buy 100 6, mk_event Cancel 9 Buy 100 1]"

definition sample_book :: LimitOrderBook where
  "sample_book = snd (the (run_book apply_event new_book sample_events))"

lemma sample_run:
  "run_book apply_event new_book sample_events = Some ([Applied, Applied, Applied, Applied, MissingOrderId], sample_book)"
  unfolding sample_book_def by code_simp

lemma sample_reachable: "lob_reachable sample_book"
  by (rule lob_reachable_run [OF reach_new sample_run])

definition sample_next :: LimitOrderBook where
  "sample_next = snd (the (apply_event sample_book (mk_event Execute 1 Buy 100 5)))"

lemma sample_step: "apply_event sample_book (mk_event Execute 1 Buy 100 5) = Some (Applied, sample_next)"
  unfolding sample_next_def by code_simp

lemma sample_values:
  "order_ids_at_price sample_book Buy (Price 100) = [OrderId 1, OrderId 2]"
  "map_of (order_lookup sample_book) 1 = Some \<lparr>or_side = Buy, or_price = Price 100, or_timestamp = Timestamp 0,
     or_quantity = Quantity 5, or_iterator = 0\<rparr>"
  "top_bid (top_of_book sample_book) = Some \<lparr>pv_price = Price 100, pv_quantity = Quantity 11, pv_order_count = 2\<rparr>"
  "open_quantity sample_book = 15" "crossed sample_book = False"
  by code_simp+

section \<open>Properties\<close>

text \<open>C1: any sequence of events applied to a new book runs without undefined behaviour, every
  event returns the result the abstract book gives, and the book it ends in represents the
  abstract book's live orders.\<close>

theorem baseline_refines:
  "\<exists>b. run_book apply_event new_book es = Some (fst (spec_run (spec_empty None) es), b)
     \<and> lob_rel b (snd (spec_run (spec_empty None) es))"
  by (rule lob.run_sim [OF lob_rel_new])

text \<open>After any sequence of events the queries \<open>top_of_book\<close>, \<open>depth\<close>, \<open>snapshot\<close>,
  \<open>order_ids_at_price\<close>, \<open>live_order_count\<close> and \<open>events_applied\<close> answer what the live orders in
  arrival order determine.\<close>

theorem baseline_queries:
  "\<exists>rs b. run_book apply_event new_book es = Some (rs, b)
     \<and> (let S = snd (spec_run (spec_empty None) es) in
        top_of_book b = spec_top S \<and> depth b n = spec_depth S n \<and> snapshot b = spec_snapshot S
      \<and> order_ids_at_price b s p = spec_ids_at_price S s p
      \<and> live_order_count b = of_nat (length (sb_orders S)) \<and> events_applied b = sb_applied S)"
proof -
  obtain b where run: "run_book apply_event new_book es = Some (fst (spec_run (spec_empty None) es), b)"
    and rel: "lob_rel b (snd (spec_run (spec_empty None) es))"
    using lob.run_sim [OF lob_rel_new] by blast
  with lob.snapshot_sim [OF rel] lob.ids_sim [OF rel, of s p] show ?thesis
    by (simp add: Let_def lob.top_sim lob.depth_sim lob.live_sim lob.count_sim)
qed

text \<open>C9: price-time priority. In a reachable book an applied event changes the queue of ids at a
  price only as follows: an added order joins the end of its own price, a cancelled or fully
  executed order leaves, a modified or partly executed order keeps its place.\<close>

theorem baseline_priority:
  assumes "lob_reachable b" and "apply_event b e = Some (Applied, b')"
  shows "order_ids_at_price b' s p = next_ids e
    (map_option or_quantity (map_of (order_lookup b) (id_value (ev_order_id e))) = Some (ev_quantity e))
    s p (order_ids_at_price b s p)"
proof -
  obtain S it where rel: "lob_rel b S" "lob_rel_at it b S"
    using lob_reachable_rel [OF assms(1)] by (auto simp: lob_rel_def)
  with lob.queue_priority [OF rel(1) assms(2)] record_quantity_rel [OF rel(2)] show ?thesis by simp
qed

theorem baseline_priority_witness:
  "lob_reachable sample_book \<and> apply_event sample_book (mk_event Execute 1 Buy 100 5) = Some (Applied, sample_next)
     \<and> order_ids_at_price sample_book Buy (Price 100) = [OrderId 1, OrderId 2]
     \<and> order_ids_at_price sample_next Buy (Price 100) = [OrderId 2]"
  using baseline_priority [OF sample_reachable sample_step, of Buy "Price 100"] sample_reachable sample_step
  by (simp add: sample_values next_ids_def mk_event_def)

text \<open>C30: in a reachable book the top of book is the best price of each side: the bid is the highest
  price of a live buy order, the ask the lowest price of a live sell order, and a side is empty
  exactly when it has no live order.\<close>

theorem baseline_best_prices:
  assumes "lob_reachable b"
  shows "best_of Buy (top_bid (top_of_book b)) (snd ` set (order_lookup b))
    \<and> best_of Sell (top_ask (top_of_book b)) (snd ` set (order_lookup b))"
proof -
  obtain S it where rel: "lob_rel b S" "lob_rel_at it b S"
    using lob_reachable_rel [OF assms] by (auto simp: lob_rel_def)
  have "best_of s (first_view (spec_views s S)) (mk_record it ` set (sb_orders S))" for s
    using spec_best [where s = s and S = S]
    by (cases s) (auto simp: best_of_def std_greater_def std_less_def less_eq_Price_def split: option.splits)
  then show ?thesis by (simp add: lob.top_sim [OF rel(1)] lookup_records [OF rel(2)] spec_top_def)
qed

theorem baseline_best_prices_witness:
  "lob_reachable sample_book \<and> best_of Buy (top_bid (top_of_book sample_book)) (snd ` set (order_lookup sample_book))
     \<and> pv_price (the (top_bid (top_of_book sample_book))) = Price 100"
  using baseline_best_prices [OF sample_reachable] sample_reachable by (simp add: sample_values)

text \<open>C31: in a reachable book the quantity of every snapshot level is the sum of its orders'
  quantities modulo \<open>2 ^ 64\<close>, and exactly their sum when that sum fits in 64 bits.\<close>

theorem baseline_level_quantity:
  assumes "lob_reachable b" and "l \<in> set (snap_bids (snapshot b)) \<union> set (snap_asks (snapshot b))"
    and "t = sum_list (map (\<lambda>v. unat (units (ov_quantity v))) (ps_orders l))"
  shows "units (ps_quantity l) = of_nat t \<and> (t < 2 ^ 64 \<longrightarrow> unat (units (ps_quantity l)) = t)"
proof -
  obtain S where rel: "lob_rel b S" using lob_reachable_rel [OF assms(1)] by blast
  have "snapshot b = spec_snapshot S" using lob.snapshot_sim [OF rel] by simp
  with assms(2) obtain s p where l: "l = spec_level_snapshot s (sb_orders S) p"
    by (auto simp: spec_snapshot_def)
  have "t = sum_list (map (\<lambda>x. unat (units (o_quantity x))) (level_orders s p (sb_orders S)))"
    by (simp add: assms(3) l spec_level_snapshot_def order_view_def comp_def)
  moreover from this have "units (ps_quantity l) = of_nat t"
    by (simp add: l spec_level_snapshot_def orders_total_def sum_list_word_nat)
  ultimately show ?thesis by (simp add: unat_of_nat)
qed

theorem baseline_level_quantity_witness:
  "lob_reachable sample_book \<and> (\<exists>l \<in> set (snap_bids (snapshot sample_book)). unat (units (ps_quantity l)) = 11
     \<and> sum_list (map (\<lambda>v. unat (units (ov_quantity v))) (ps_orders l)) = 11)"
proof -
  let ?l = "hd (snap_bids (snapshot sample_book))"
  have l: "?l \<in> set (snap_bids (snapshot sample_book))"
    and t: "11 = sum_list (map (\<lambda>v. unat (units (ov_quantity v))) (ps_orders ?l))" by code_simp+
  have "unat (units (ps_quantity ?l)) = 11"
    using baseline_level_quantity [OF sample_reachable _ t] l by simp
  with l t sample_reachable show ?thesis by auto
qed

text \<open>C11: quantity is conserved. An applied event changes the total open quantity of a reachable book
  (a sum over all live orders, without wrap-around) by exactly what it says: an add adds its
  quantity, an execution takes its quantity, a cancel takes what was left of its order, and a
  modify replaces the order's quantity.\<close>

theorem baseline_quantity_conserved:
  assumes "lob_reachable b" and "apply_event b e = Some (Applied, b')"
  shows "units_balance e
    (case map_of (order_lookup b) (id_value (ev_order_id e)) of None \<Rightarrow> 0 | Some r \<Rightarrow> unat (units (or_quantity r)))
    (open_quantity b) (open_quantity b')"
proof -
  obtain S it where rel: "lob_rel b S" "lob_rel_at it b S"
    using lob_reachable_rel [OF assms(1)] by (auto simp: lob_rel_def)
  from lob.apply_sim [OF rel(1), of e] assms(2) obtain it' where
    step: "fst (spec_apply S e) = Applied" "lob_rel_at it' b' (snd (spec_apply S e))"
    by (auto simp: lob_rel_def)
  from spec_open_units_apply [OF lob.rel_inv [OF rel(1)] step(1)] show ?thesis
    by (cases "map_of (order_lookup b) (id_value (ev_order_id e))")
      (simp_all add: open_quantity_rel [OF rel(2)] open_quantity_rel [OF step(2)]
        flip: record_quantity_rel [OF rel(2)])
qed

theorem baseline_quantity_conserved_witness:
  "lob_reachable sample_book \<and> apply_event sample_book (mk_event Execute 1 Buy 100 5) = Some (Applied, sample_next)
     \<and> open_quantity sample_book = 15 \<and> open_quantity sample_next = 10"
  using baseline_quantity_conserved [OF sample_reachable sample_step] sample_reachable sample_step
  by (simp add: sample_values units_balance_def mk_event_def)

text \<open>C35: an event that is not applied leaves the whole book as it was.\<close>

theorem baseline_rejected_unchanged:
  assumes "apply_event b e = Some (r, b')" and "r \<noteq> Applied"
  shows "b' = b"
  using assms
  by (auto simp: apply_event_def add_order_def modify_order_def cancel_order_def execute_order_def
      reduce_order_def bind_eq_Some_conv Let_def split: EventType.splits option.splits if_splits)

theorem baseline_rejected_unchanged_witness:
  "\<exists>b'. apply_event sample_book (mk_event Execute 1 Buy 100 6) = Some (InsufficientQuantity, b') \<and> b' = sample_book"
proof -
  let ?r = "apply_event sample_book (mk_event Execute 1 Buy 100 6)"
  have "?r = Some (InsufficientQuantity, snd (the ?r))" by code_simp
  from baseline_rejected_unchanged [OF this] this show ?thesis by auto
qed

text \<open>C33: on every reachable book the internal check \<open>validate_invariants\<close> fails only for a crossed
  book, and then only when crossed books are not allowed.\<close>

theorem baseline_invariants_hold:
  assumes "lob_reachable b"
  shows "validate_invariants b opts \<longleftrightarrow> allow_crossed_book opts \<or> \<not> crossed b"
proof -
  obtain S it where "lob_rel b S" "lob_rel_at it b S"
    using lob_reachable_rel [OF assms] by (auto simp: lob_rel_def)
  then show ?thesis using lob.validate_sim [of b S opts] crossed_sim [of it b S] by simp
qed

theorem baseline_invariants_hold_witness:
  "lob_reachable sample_book \<and> validate_invariants sample_book \<lparr>allow_crossed_book = False\<rparr>"
  using baseline_invariants_hold [OF sample_reachable] sample_reachable by (simp add: sample_values)

text \<open>\<open>events_applied\<close> counts the events that were applied (modulo \<open>2 ^ 64\<close>).\<close>

theorem baseline_applied_count:
  assumes "run_book apply_event new_book es = Some (rs, b)"
  shows "events_applied b = of_nat (length (filter (\<lambda>r. r = Applied) rs))"
  using lob.run_count [OF lob_rel_new assms] by (simp add: events_applied_def new_book_def)

theorem baseline_applied_count_witness:
  "run_book apply_event new_book sample_events = Some ([Applied, Applied, Applied, Applied, MissingOrderId], sample_book)
     \<and> events_applied sample_book = 4"
  using baseline_applied_count [OF sample_run] sample_run by simp

text \<open>\<open>clear\<close> makes any book as good as new: every sequence of events then returns the
  same results and leaves a book with the same snapshot and count as on a new book.\<close>

theorem baseline_clear_is_new:
  "\<exists>rs b1 b2. run_book apply_event (clear b) es = Some (rs, b1) \<and> run_book apply_event new_book es = Some (rs, b2)
     \<and> snapshot b1 = snapshot b2 \<and> events_applied b1 = events_applied b2"
proof -
  have "lob_rel (clear b) (spec_empty None)" by (rule lob_rel_cleared)
  from lob.run_sim [OF this, of es] lob.run_sim [OF lob_rel_new, of es] obtain b1 b2 where
    runs: "run_book apply_event (clear b) es = Some (fst (spec_run (spec_empty None) es), b1)"
    "run_book apply_event new_book es = Some (fst (spec_run (spec_empty None) es), b2)"
    and rel: "lob_rel b1 (snd (spec_run (spec_empty None) es))" "lob_rel b2 (snd (spec_run (spec_empty None) es))"
    by blast
  with lob.snapshot_sim [OF rel(1)] lob.snapshot_sim [OF rel(2)] lob.count_sim [OF rel(1)] lob.count_sim [OF rel(2)]
  show ?thesis by simp
qed

section \<open>Levels that hide their quantity\<close>

definition best_view :: "Side \<Rightarrow> TopOfBook \<Rightarrow> PriceLevelView option" where
  "best_view s t = (case s of Buy \<Rightarrow> top_bid t | Sell \<Rightarrow> top_ask t)"

text \<open>An order at a price that has live orders leaves the prices of both sides as they are.\<close>

lemma spec_prices_join:
  assumes "ticks (o_price x) \<in> set (spec_prices (o_side x) A)"
  shows "spec_prices s (A @ [x]) = spec_prices s A"
proof -
  have "set (spec_prices s (A @ [x])) = set (spec_prices s A)"
    using assms by (auto simp: set_spec_prices level_orders_append)
  then show ?thesis using side_cmp.sorted_keys_unique [OF sorted_spec_prices sorted_spec_prices] by blast
qed

lemma spec_top_view: "best_view s (spec_top S) = first_view (spec_views s S)"
  by (cases s) (simp_all add: best_view_def spec_top_def)

lemma spec_join_best:
  assumes "best_view (o_side x) (spec_top S) = Some lv" and "pv_price lv = o_price x"
  shows "best_view (o_side x) (spec_top (S\<lparr>sb_orders := sb_orders S @ [x], sb_applied := n\<rparr>))
      = Some \<lparr>pv_price = pv_price lv, pv_quantity = Quantity (units (pv_quantity lv) + units (o_quantity x)),
          pv_order_count = pv_order_count lv + 1\<rparr>"
    and "s \<noteq> o_side x \<Longrightarrow> best_view s (spec_top (S\<lparr>sb_orders := sb_orders S @ [x], sb_applied := n\<rparr>)) = best_view s (spec_top S)"
    and "spec_crossed (S\<lparr>sb_orders := sb_orders S @ [x], sb_applied := n\<rparr>) = spec_crossed S"
proof -
  let ?A = "sb_orders S" and ?S = "S\<lparr>sb_orders := sb_orders S @ [x], sb_applied := n\<rparr>"
  obtain p ps where ps: "spec_prices (o_side x) ?A = p # ps" and lv: "lv = spec_view (o_side x) ?A p"
    using assms(1) by (cases "spec_prices (o_side x) ?A") (auto simp: spec_top_view spec_views_def first_view_def)
  have p: "ticks (o_price x) = p" using assms(2) by (simp add: lv spec_view_def flip: assms(2))
  note prices = spec_prices_join [of x ?A]
  have join: "spec_prices s (?A @ [x]) = spec_prices s ?A" for s using prices ps p by simp
  show "best_view (o_side x) (spec_top ?S) = Some \<lparr>pv_price = pv_price lv,
      pv_quantity = Quantity (units (pv_quantity lv) + units (o_quantity x)), pv_order_count = pv_order_count lv + 1\<rparr>"
    by (simp add: spec_top_view spec_views_def first_view_def join ps lv spec_view_def level_orders_append p orders_total_append)
  show "best_view s (spec_top ?S) = best_view s (spec_top S)" if "s \<noteq> o_side x"
  proof -
    have "spec_view s (?A @ [x]) = spec_view s ?A" using that by (simp add: fun_eq_iff spec_view_def level_orders_append)
    then show ?thesis by (simp add: spec_top_view spec_views_def join)
  qed
  show "spec_crossed ?S = spec_crossed S" by (simp add: crossed_prices_iff join)
qed

text \<open>C32: the level total wraps around, in every book: whatever events a book has applied, if the best level of a side
  shows a quantity other than zero, then one more order at its price, with any unused id, is accepted
  and makes the best level of that side show a quantity of zero, with one order more. The other side
  and the answer of the book's own check do not change, so the check accepts the hidden level.\<close>

theorem baseline_level_quantity_wraps:
  assumes "lob_reachable b" and "best_view s (top_of_book b) = Some lv" and "units (pv_quantity lv) \<noteq> 0"
    and "map_of (order_lookup b) (id_value i) = None"
  shows "\<exists>b'. add_order b i s (pv_price lv) (Quantity (- units (pv_quantity lv))) t = Some (Applied, b')
    \<and> best_view s (top_of_book b') = Some \<lparr>pv_price = pv_price lv, pv_quantity = Quantity 0, pv_order_count = pv_order_count lv + 1\<rparr>
    \<and> (\<forall>s'. s' \<noteq> s \<longrightarrow> best_view s' (top_of_book b') = best_view s' (top_of_book b))
    \<and> (\<forall>opts. validate_invariants b' opts = validate_invariants b opts)"
proof -
  obtain S it where rel: "lob_rel b S" "lob_rel_at it b S"
    using lob_reachable_rel [OF assms(1)] by (auto simp: lob_rel_def)
  define e where "e = \<lparr>ev_type = Add, ev_timestamp = t, ev_order_id = i, ev_side = s, ev_price = pv_price lv,
    ev_quantity = Quantity (- units (pv_quantity lv))\<rparr>"
  let ?x = "event_order e" and ?n = "sb_applied S + 1"
  let ?S = "S\<lparr>sb_orders := sb_orders S @ [?x], sb_applied := ?n\<rparr>"
  have "find_order (sb_orders S) i = None" using lob_rel_atD(8) [OF rel(2), of i] assms(4) by simp
  moreover have "\<not> at_capacity S" using lob_rel_atD(2) [OF rel(2)] by (simp add: at_capacity_def)
  ultimately have app: "spec_apply S e = (Applied, ?S)"
    using assms(3) by (simp add: e_def spec_ops event_order_def)
  from lob.apply_sim [OF rel(1), of e] app obtain b' where
    b': "apply_event b e = Some (Applied, b')" "lob_rel b' ?S" by auto
  have x: "o_side ?x = s" "o_price ?x = pv_price lv" "units (o_quantity ?x) = - units (pv_quantity lv)"
    by (simp_all add: event_order_def e_def)
  have "best_view (o_side ?x) (spec_top S) = Some lv" using assms(2) by (simp add: x lob.top_sim [OF rel(1)])
  note best = spec_join_best [where n = ?n, OF this, unfolded x, OF refl]
  have "add_order b i s (pv_price lv) (Quantity (- units (pv_quantity lv))) t = Some (Applied, b')"
    using b'(1) by (simp add: apply_event_def e_def)
  with best show ?thesis
    using lob.validate_sim [OF rel(1)] lob.validate_sim [OF b'(2)]
    by (intro exI [of _ b']) (simp add: lob.top_sim [OF b'(2)] lob.top_sim [OF rel(1)])
qed

theorem baseline_level_quantity_wraps_witness:
  "\<exists>b'. add_order sample_book (OrderId 9) Buy (Price 100) (Quantity (- 11)) (Timestamp 0) = Some (Applied, b')
     \<and> top_bid (top_of_book b') = Some \<lparr>pv_price = Price 100, pv_quantity = Quantity 0, pv_order_count = 3\<rparr>
     \<and> validate_invariants b' \<lparr>allow_crossed_book = False\<rparr>"
proof -
  let ?lv = "\<lparr>pv_price = Price 100, pv_quantity = Quantity 11, pv_order_count = 2\<rparr>"
  have lv: "best_view Buy (top_of_book sample_book) = Some ?lv" by (simp add: best_view_def sample_values)
  have free: "map_of (order_lookup sample_book) (id_value (OrderId 9)) = None" by code_simp
  have valid: "validate_invariants sample_book \<lparr>allow_crossed_book = False\<rparr>" by code_simp
  from baseline_level_quantity_wraps [OF sample_reachable lv _ free, of "Timestamp 0"] obtain b' where
    "add_order sample_book (OrderId 9) Buy (Price 100) (Quantity (- 11)) (Timestamp 0) = Some (Applied, b')"
    "best_view Buy (top_of_book b') = Some \<lparr>pv_price = Price 100, pv_quantity = Quantity 0, pv_order_count = 3\<rparr>"
    "\<forall>opts. validate_invariants b' opts = validate_invariants sample_book opts" by auto
  with valid show ?thesis by (auto simp: best_view_def)
qed

end
