(* ===== verification/Pooled_Limit_Order_Book.thy ===== *)
theory Pooled_Limit_Order_Book
  imports Book_Spec
begin

text \<open>
  The pooled order book, \<^verbatim>\<open>class PooledLimitOrderBook\<close>
  (\<^verbatim>\<open>include/datagine/book/pooled_limit_order_book.hpp\<close>,
  \<^verbatim>\<open>src/book/pooled_limit_order_book.cpp\<close>): the FIFO queue of a price level is a doubly linked
  list threaded through a preallocated vector of nodes by index, with a free list of unused
  indices.

  The operations return \<^const>\<open>None\<close> for undefined behaviour: an index outside the node vector or
  a dereferenced null level pointer. The traversals are \<^verbatim>\<open>partial_function (option)\<close>s, so that a
  cyclic queue, which would make the C++ loop run forever, also is \<^const>\<open>None\<close>.
\<close>

section \<open>State\<close>

definition npos :: size_t where
  "npos = - 1"

record OrderNode =
  nd_order_id :: OrderId
  nd_timestamp :: Timestamp
  nd_quantity :: Quantity
  nd_prev :: size_t
  nd_next :: size_t
  nd_active :: bool

record PooledPriceLevel =
  ppl_total_quantity :: Quantity
  ppl_order_count :: size_t
  ppl_head :: size_t
  ppl_tail :: size_t

type_synonym PooledLevels = "(i64 \<times> PooledPriceLevel) list"

record PooledOrderRecord =
  por_side :: Side
  por_price :: Price
  por_timestamp :: Timestamp
  por_quantity :: Quantity
  por_node_index :: size_t

record PooledLimitOrderBook =
  nodes :: "OrderNode list"
  free_indices :: "size_t list"
  pooled_bid_levels :: PooledLevels
  pooled_ask_levels :: PooledLevels
  pooled_order_lookup :: "(u64 \<times> PooledOrderRecord) list"
  pooled_stats :: Stats

definition default_node :: OrderNode where
  "default_node = \<lparr>nd_order_id = OrderId 0, nd_timestamp = Timestamp 0, nd_quantity = Quantity 0,
     nd_prev = npos, nd_next = npos, nd_active = False\<rparr>"

definition pooled_empty_level :: PooledPriceLevel where
  "pooled_empty_level = \<lparr>ppl_total_quantity = Quantity 0, ppl_order_count = 0, ppl_head = npos, ppl_tail = npos\<rparr>"

fun pooled_side_levels :: "Side \<Rightarrow> PooledLimitOrderBook \<Rightarrow> PooledLevels" where
  "pooled_side_levels Buy b = pooled_bid_levels b"
| "pooled_side_levels Sell b = pooled_ask_levels b"

fun pooled_with_side_levels :: "Side \<Rightarrow> PooledLevels \<Rightarrow> PooledLimitOrderBook \<Rightarrow> PooledLimitOrderBook" where
  "pooled_with_side_levels Buy ls b = b\<lparr>pooled_bid_levels := ls\<rparr>"
| "pooled_with_side_levels Sell ls b = b\<lparr>pooled_ask_levels := ls\<rparr>"

definition pooled_count_applied :: "PooledLimitOrderBook \<Rightarrow> PooledLimitOrderBook" where
  "pooled_count_applied b = b\<lparr>pooled_stats := \<lparr>st_events_applied = st_events_applied (pooled_stats b) + 1\<rparr>\<rparr>"

definition pooled_find_level :: "PooledLimitOrderBook \<Rightarrow> Side \<Rightarrow> Price \<Rightarrow> PooledPriceLevel option" where
  "pooled_find_level b s p =
     (if s = Buy then map_of (pooled_bid_levels b) (ticks p) else map_of (pooled_ask_levels b) (ticks p))"

section \<open>The node pool\<close>

text \<open>\<^verbatim>\<open>nodes_[i].field = ...\<close>: a write to one node.\<close>

definition update_node :: "OrderNode list \<Rightarrow> size_t \<Rightarrow> (OrderNode \<Rightarrow> OrderNode) \<Rightarrow> OrderNode list option" where
  "update_node ns i f = do { node \<leftarrow> vec_at ns i; vec_set ns i (f node) }"

definition allocate_node :: "PooledLimitOrderBook \<Rightarrow> size_t option \<times> PooledLimitOrderBook" where
  "allocate_node b =
     (if free_indices b = [] then (None, b)
      else (Some (last (free_indices b)), b\<lparr>free_indices := butlast (free_indices b)\<rparr>))"

definition release_node :: "PooledLimitOrderBook \<Rightarrow> size_t \<Rightarrow> PooledLimitOrderBook option" where
  "release_node b i = do {
     ns \<leftarrow> vec_set (nodes b) i default_node;
     Some (b\<lparr>nodes := ns, free_indices := free_indices b @ [i]\<rparr>)
   }"

definition append_node ::
  "OrderNode list \<Rightarrow> PooledPriceLevel \<Rightarrow> size_t \<Rightarrow> (OrderNode list \<times> PooledPriceLevel) option" where
  "append_node ns level i = do {
     ns1 \<leftarrow> update_node ns i (\<lambda>n. n\<lparr>nd_prev := ppl_tail level, nd_next := npos\<rparr>);
     ns2 \<leftarrow> (if ppl_tail level \<noteq> npos then update_node ns1 (ppl_tail level) (\<lambda>n. n\<lparr>nd_next := i\<rparr>) else Some ns1);
     let level1 = (if ppl_tail level \<noteq> npos then level else level\<lparr>ppl_head := i\<rparr>);
     Some (ns2, level1\<lparr>ppl_tail := i, ppl_order_count := ppl_order_count level + 1\<rparr>)
   }"

definition unlink_node ::
  "OrderNode list \<Rightarrow> PooledPriceLevel \<Rightarrow> size_t \<Rightarrow> (OrderNode list \<times> PooledPriceLevel) option" where
  "unlink_node ns level i = do {
     node \<leftarrow> vec_at ns i;
     let p = nd_prev node;
     let n = nd_next node;
     ns1 \<leftarrow> (if p \<noteq> npos then update_node ns p (\<lambda>m. m\<lparr>nd_next := n\<rparr>) else Some ns);
     let level1 = (if p \<noteq> npos then level else level\<lparr>ppl_head := n\<rparr>);
     ns2 \<leftarrow> (if n \<noteq> npos then update_node ns1 n (\<lambda>m. m\<lparr>nd_prev := p\<rparr>) else Some ns1);
     let level2 = (if n \<noteq> npos then level1 else level1\<lparr>ppl_tail := p\<rparr>);
     Some (ns2, level2\<lparr>ppl_order_count := ppl_order_count level - 1\<rparr>)
   }"

text \<open>\<^verbatim>\<open>for (index = nodes_.size(); index > 0; --index) free_indices_.push_back(index - 1)\<close>\<close>

fun free_list_loop :: "nat \<Rightarrow> size_t list \<Rightarrow> size_t list" where
  "free_list_loop 0 acc = acc"
| "free_list_loop (Suc n) acc = free_list_loop n (acc @ [of_nat n])"

definition reset_free_list :: "PooledLimitOrderBook \<Rightarrow> PooledLimitOrderBook" where
  "reset_free_list b = b\<lparr>nodes := map (\<lambda>_. default_node) (nodes b),
     free_indices := free_list_loop (length (nodes b)) []\<rparr>"

text \<open>
  The constructor. A vector of more than \<open>max_size()\<close> elements throws \<^verbatim>\<open>std::length_error\<close>;
  with 48-byte nodes on a 64-bit target the limit is \<^verbatim>\<open>PTRDIFF_MAX / 48\<close>.
\<close>

definition node_max_size :: nat where
  "node_max_size = (2 ^ 63 - 1) div 48"

definition new_pooled_book :: "size_t \<Rightarrow> cpp_exception + PooledLimitOrderBook" where
  "new_pooled_book max_live_orders =
     (if node_max_size < unat max_live_orders then Inl LengthError
      else Inr (reset_free_list \<lparr>nodes = replicate (unat max_live_orders) default_node, free_indices = [],
        pooled_bid_levels = [], pooled_ask_levels = [], pooled_order_lookup = [],
        pooled_stats = \<lparr>st_events_applied = 0\<rparr>\<rparr>))"

section \<open>Operations\<close>

definition pooled_add_order ::
  "PooledLimitOrderBook \<Rightarrow> OrderId \<Rightarrow> Side \<Rightarrow> Price \<Rightarrow> Quantity \<Rightarrow> Timestamp
     \<Rightarrow> (BookResult \<times> PooledLimitOrderBook) option" where
  "pooled_add_order b order_id side price quantity timestamp =
     (if units quantity = 0 then Some (InvalidQuantity, b)
      else if map_of (pooled_order_lookup b) (id_value order_id) \<noteq> None then Some (DuplicateOrderId, b)
      else case allocate_node b of
        (None, b1) \<Rightarrow> Some (CapacityExceeded, b1)
      | (Some i, b1) \<Rightarrow> do {
          let levels = om_subscript (side_lt side) pooled_empty_level (ticks price) (pooled_side_levels side b1);
          level \<leftarrow> map_of levels (ticks price);
          ns1 \<leftarrow> update_node (nodes b1) i (\<lambda>n. n\<lparr>nd_order_id := order_id, nd_timestamp := timestamp,
            nd_quantity := quantity, nd_active := True\<rparr>);
          (ns2, level1) \<leftarrow> append_node ns1 level i;
          let level2 = level1\<lparr>ppl_total_quantity := Quantity (units (ppl_total_quantity level1) + units quantity)\<rparr>;
          let record = \<lparr>por_side = side, por_price = price, por_timestamp = timestamp,
            por_quantity = quantity, por_node_index = i\<rparr>;
          let b2 = pooled_with_side_levels side (al_assign (ticks price) level2 levels) b1;
          Some (Applied, pooled_count_applied (b2\<lparr>nodes := ns2,
            pooled_order_lookup := um_emplace (id_value order_id) record (pooled_order_lookup b1)\<rparr>))
        })"

definition pooled_remove_existing_order ::
  "PooledLimitOrderBook \<Rightarrow> u64 \<Rightarrow> PooledOrderRecord \<Rightarrow> PooledLimitOrderBook option" where
  "pooled_remove_existing_order b order_key record = do {
     let p = ticks (por_price record);
     let levels = pooled_side_levels (por_side record) b;
     level \<leftarrow> map_of levels p;
     let level1 = level\<lparr>ppl_total_quantity :=
       Quantity (units (ppl_total_quantity level) - units (por_quantity record))\<rparr>;
     (ns, level2) \<leftarrow> unlink_node (nodes b) level1 (por_node_index record);
     b1 \<leftarrow> release_node (b\<lparr>nodes := ns\<rparr>) (por_node_index record);
     let levels' = (if ppl_order_count level2 = 0 then al_erase p levels else al_assign p level2 levels);
     Some ((pooled_with_side_levels (por_side record) levels' b1)\<lparr>
       pooled_order_lookup := al_erase order_key (pooled_order_lookup b)\<rparr>)
   }"

definition pooled_cancel_order ::
  "PooledLimitOrderBook \<Rightarrow> OrderId \<Rightarrow> (BookResult \<times> PooledLimitOrderBook) option" where
  "pooled_cancel_order b order_id =
     (case map_of (pooled_order_lookup b) (id_value order_id) of
        None \<Rightarrow> Some (MissingOrderId, b)
      | Some record \<Rightarrow> do {
          b' \<leftarrow> pooled_remove_existing_order b (id_value order_id) record;
          Some (Applied, pooled_count_applied b')
        })"

text \<open>The common tail of \<^verbatim>\<open>modify_order\<close> and of a partial \<^verbatim>\<open>execute_order\<close>.\<close>

definition pooled_reduce_order ::
  "PooledLimitOrderBook \<Rightarrow> u64 \<Rightarrow> PooledOrderRecord \<Rightarrow> u64 \<Rightarrow> Quantity
     \<Rightarrow> (BookResult \<times> PooledLimitOrderBook) option" where
  "pooled_reduce_order b order_key record reduction new_quantity = do {
     level \<leftarrow> pooled_find_level b (por_side record) (por_price record);
     let level' = level\<lparr>ppl_total_quantity := Quantity (units (ppl_total_quantity level) - reduction)\<rparr>;
     ns \<leftarrow> update_node (nodes b) (por_node_index record) (\<lambda>n. n\<lparr>nd_quantity := new_quantity\<rparr>);
     let b' = pooled_with_side_levels (por_side record)
       (al_assign (ticks (por_price record)) level' (pooled_side_levels (por_side record) b)) b;
     Some (Applied, pooled_count_applied (b'\<lparr>nodes := ns, pooled_order_lookup :=
       al_assign order_key (record\<lparr>por_quantity := new_quantity\<rparr>) (pooled_order_lookup b)\<rparr>))
   }"

definition pooled_modify_order ::
  "PooledLimitOrderBook \<Rightarrow> OrderId \<Rightarrow> Quantity \<Rightarrow> (BookResult \<times> PooledLimitOrderBook) option" where
  "pooled_modify_order b order_id new_quantity =
     (if units new_quantity = 0 then Some (InvalidQuantity, b)
      else case map_of (pooled_order_lookup b) (id_value order_id) of
        None \<Rightarrow> Some (MissingOrderId, b)
      | Some record \<Rightarrow>
          if units new_quantity > units (por_quantity record) then Some (UnsupportedModify, b)
          else if units new_quantity = units (por_quantity record) then Some (Applied, pooled_count_applied b)
          else pooled_reduce_order b (id_value order_id) record
            (units (por_quantity record) - units new_quantity) new_quantity)"

definition pooled_execute_order ::
  "PooledLimitOrderBook \<Rightarrow> OrderId \<Rightarrow> Quantity \<Rightarrow> (BookResult \<times> PooledLimitOrderBook) option" where
  "pooled_execute_order b order_id executed_quantity =
     (if units executed_quantity = 0 then Some (InvalidQuantity, b)
      else case map_of (pooled_order_lookup b) (id_value order_id) of
        None \<Rightarrow> Some (MissingOrderId, b)
      | Some record \<Rightarrow>
          if units executed_quantity > units (por_quantity record) then Some (InsufficientQuantity, b)
          else if units executed_quantity = units (por_quantity record) then do {
            b' \<leftarrow> pooled_remove_existing_order b (id_value order_id) record;
            Some (Applied, pooled_count_applied b')
          }
          else pooled_reduce_order b (id_value order_id) record (units executed_quantity)
            (Quantity (units (por_quantity record) - units executed_quantity)))"

definition pooled_apply_event ::
  "PooledLimitOrderBook \<Rightarrow> MarketEvent \<Rightarrow> (BookResult \<times> PooledLimitOrderBook) option" where
  "pooled_apply_event b event =
     (case ev_type event of
        Add \<Rightarrow> pooled_add_order b (ev_order_id event) (ev_side event) (ev_price event)
          (ev_quantity event) (ev_timestamp event)
      | Modify \<Rightarrow> pooled_modify_order b (ev_order_id event) (ev_quantity event)
      | Cancel \<Rightarrow> pooled_cancel_order b (ev_order_id event)
      | Execute \<Rightarrow> pooled_execute_order b (ev_order_id event) (ev_quantity event))"

definition pooled_clear :: "PooledLimitOrderBook \<Rightarrow> PooledLimitOrderBook" where
  "pooled_clear b = reset_free_list (b\<lparr>pooled_bid_levels := [], pooled_ask_levels := [],
     pooled_order_lookup := [], pooled_stats := \<lparr>st_events_applied = 0\<rparr>\<rparr>)"

section \<open>Views\<close>

definition pooled_make_price_level_view :: "i64 \<Rightarrow> PooledPriceLevel \<Rightarrow> PriceLevelView" where
  "pooled_make_price_level_view p level = \<lparr>pv_price = Price p, pv_quantity = ppl_total_quantity level,
     pv_order_count = ppl_order_count level\<rparr>"

definition pooled_begin_view :: "PooledLevels \<Rightarrow> PriceLevelView option" where
  "pooled_begin_view ls =
     (case ls of [] \<Rightarrow> None | (p, level) # _ \<Rightarrow> Some (pooled_make_price_level_view p level))"

definition pooled_top_of_book :: "PooledLimitOrderBook \<Rightarrow> TopOfBook" where
  "pooled_top_of_book b = \<lparr>top_bid = pooled_begin_view (pooled_bid_levels b),
     top_ask = pooled_begin_view (pooled_ask_levels b)\<rparr>"

fun pooled_depth_loop :: "size_t \<Rightarrow> PooledLevels \<Rightarrow> PriceLevelView list \<Rightarrow> PriceLevelView list" where
  "pooled_depth_loop levels [] result = result"
| "pooled_depth_loop levels ((p, level) # ls) result =
     (if length result < unat levels
      then pooled_depth_loop levels ls (result @ [pooled_make_price_level_view p level]) else result)"

definition pooled_depth :: "PooledLimitOrderBook \<Rightarrow> size_t \<Rightarrow> BookDepth" where
  "pooled_depth b levels = \<lparr>depth_bids = pooled_depth_loop levels (pooled_bid_levels b) [],
     depth_asks = pooled_depth_loop levels (pooled_ask_levels b) []\<rparr>"

text \<open>
  The traversal \<^verbatim>\<open>for (index = head; index != npos; index = nodes_[index].next)\<close>, which appends
  \<open>f\<close> of each node to the result.
\<close>

partial_function (option) walk_nodes ::
  "(OrderNode \<Rightarrow> 'a) \<Rightarrow> OrderNode list \<Rightarrow> size_t \<Rightarrow> 'a list \<Rightarrow> 'a list option" where
  "walk_nodes f ns index acc =
     (if index = npos then Some acc
      else case vec_at ns index of
        None \<Rightarrow> None
      | Some node \<Rightarrow> walk_nodes f ns (nd_next node) (acc @ [f node]))"

definition node_view :: "OrderNode \<Rightarrow> OrderView" where
  "node_view n = \<lparr>ov_order_id = nd_order_id n, ov_timestamp = nd_timestamp n, ov_quantity = nd_quantity n\<rparr>"

definition pooled_append_level :: "PooledLimitOrderBook \<Rightarrow> i64 \<Rightarrow> PooledPriceLevel \<Rightarrow> PriceLevelSnapshot option" where
  "pooled_append_level b p level = do {
     orders \<leftarrow> walk_nodes node_view (nodes b) (ppl_head level) [];
     Some \<lparr>ps_price = Price p, ps_quantity = ppl_total_quantity level, ps_orders = orders\<rparr>
   }"

fun pooled_snapshot_loop :: "PooledLimitOrderBook \<Rightarrow> PooledLevels \<Rightarrow> PriceLevelSnapshot list option" where
  "pooled_snapshot_loop b [] = Some []"
| "pooled_snapshot_loop b ((p, level) # ls) = do {
     x \<leftarrow> pooled_append_level b p level;
     xs \<leftarrow> pooled_snapshot_loop b ls;
     Some (x # xs)
   }"

definition pooled_snapshot :: "PooledLimitOrderBook \<Rightarrow> BookSnapshot option" where
  "pooled_snapshot b = do {
     bids \<leftarrow> pooled_snapshot_loop b (pooled_bid_levels b);
     asks \<leftarrow> pooled_snapshot_loop b (pooled_ask_levels b);
     Some \<lparr>snap_bids = bids, snap_asks = asks\<rparr>
   }"

definition pooled_order_ids_at_price :: "PooledLimitOrderBook \<Rightarrow> Side \<Rightarrow> Price \<Rightarrow> OrderId list option" where
  "pooled_order_ids_at_price b s p =
     (case pooled_find_level b s p of
        None \<Rightarrow> Some []
      | Some level \<Rightarrow> walk_nodes nd_order_id (nodes b) (ppl_head level) [])"

definition pooled_events_applied :: "PooledLimitOrderBook \<Rightarrow> u64" where
  "pooled_events_applied b = st_events_applied (pooled_stats b)"

definition pooled_live_order_count :: "PooledLimitOrderBook \<Rightarrow> size_t" where
  "pooled_live_order_count b = of_nat (length (pooled_order_lookup b))"

definition pooled_capacity :: "PooledLimitOrderBook \<Rightarrow> size_t" where
  "pooled_capacity b = of_nat (length (nodes b))"

section \<open>The book's own invariant check\<close>

text \<open>
  The outer option is \<^const>\<open>None\<close> when the C++ loop does not return; the inner one is \<^const>\<open>None\<close>
  for \<^verbatim>\<open>return false\<close>.
\<close>

partial_function (option) pooled_validate_nodes ::
  "PooledLimitOrderBook \<Rightarrow> Side \<Rightarrow> i64 \<Rightarrow> size_t \<Rightarrow> size_t \<Rightarrow> size_t \<Rightarrow> u64 \<Rightarrow> u64 list
     \<Rightarrow> (size_t \<times> size_t \<times> u64 \<times> u64 list) option option" where
  "pooled_validate_nodes b side price index previous visited_count total_quantity seen =
     (if index = npos then Some (Some (previous, visited_count, total_quantity, seen))
      else case vec_at (nodes b) index of
        None \<Rightarrow> Some None
      | Some node \<Rightarrow>
          if \<not> nd_active node then Some None
          else if nd_prev node \<noteq> previous then Some None
          else if units (nd_quantity node) = 0 then Some None
          else if id_value (nd_order_id node) \<in> set seen then Some None
          else case map_of (pooled_order_lookup b) (id_value (nd_order_id node)) of
            None \<Rightarrow> Some None
          | Some record \<Rightarrow>
              if por_side record \<noteq> side then Some None
              else if ticks (por_price record) \<noteq> price then Some None
              else if por_quantity record \<noteq> nd_quantity node then Some None
              else if por_timestamp record \<noteq> nd_timestamp node then Some None
              else if por_node_index record \<noteq> index then Some None
              else pooled_validate_nodes b side price (nd_next node) index (visited_count + 1)
                (total_quantity + units (nd_quantity node)) (id_value (nd_order_id node) # seen))"

definition pooled_validate_level ::
  "PooledLimitOrderBook \<Rightarrow> Side \<Rightarrow> i64 \<Rightarrow> PooledPriceLevel \<Rightarrow> u64 list \<Rightarrow> u64 list option option" where
  "pooled_validate_level b side price level seen =
     (if ppl_order_count level = 0 \<or> ppl_head level = npos \<or> ppl_tail level = npos then Some None
      else do {
        r \<leftarrow> pooled_validate_nodes b side price (ppl_head level) npos 0 0 seen;
        Some (case r of
            None \<Rightarrow> None
          | Some (previous, visited_count, total_quantity, seen') \<Rightarrow>
              if previous \<noteq> ppl_tail level then None
              else if visited_count = ppl_order_count level
                \<and> total_quantity = units (ppl_total_quantity level) then Some seen' else None)
      })"

fun pooled_validate_levels ::
  "PooledLimitOrderBook \<Rightarrow> Side \<Rightarrow> PooledLevels \<Rightarrow> u64 list \<Rightarrow> u64 list option option" where
  "pooled_validate_levels b side [] seen = Some (Some seen)"
| "pooled_validate_levels b side ((p, level) # ls) seen = do {
     r \<leftarrow> pooled_validate_level b side p level seen;
     (case r of None \<Rightarrow> Some None | Some seen' \<Rightarrow> pooled_validate_levels b side ls seen')
   }"

definition pooled_crossed :: "PooledLimitOrderBook \<Rightarrow> bool" where
  "pooled_crossed b = (case (pooled_bid_levels b, pooled_ask_levels b) of
      ((bid, _) # _, (ask, _) # _) \<Rightarrow> sint ask < sint bid
    | _ \<Rightarrow> False)"

definition pooled_validate_top :: "PooledLimitOrderBook \<Rightarrow> bool" where
  "pooled_validate_top b =
     (let bids = pooled_bid_levels b; asks = pooled_ask_levels b; top = pooled_top_of_book b in
      if (bids = []) \<noteq> (top_bid top = None) then False
      else if (asks = []) \<noteq> (top_ask top = None) then False
      else if bids \<noteq> [] \<and> top_bid top \<noteq>
        Some (pooled_make_price_level_view (fst (hd bids)) (snd (hd bids))) then False
      else if asks \<noteq> [] \<and> top_ask top \<noteq>
        Some (pooled_make_price_level_view (fst (hd asks)) (snd (hd asks))) then False
      else True)"

definition pooled_validate_lookup :: "PooledLimitOrderBook \<Rightarrow> u64 list \<Rightarrow> bool" where
  "pooled_validate_lookup b seen =
     (if length seen \<noteq> length (pooled_order_lookup b) then False
      else list_all (\<lambda>(order_id, record). order_id \<in> set seen
        \<and> (case vec_at (nodes b) (por_node_index record) of None \<Rightarrow> False | Some node \<Rightarrow> nd_active node)
        \<and> pooled_find_level b (por_side record) (por_price record) \<noteq> None) (pooled_order_lookup b))"

definition pooled_validate_invariants :: "PooledLimitOrderBook \<Rightarrow> InvariantOptions \<Rightarrow> bool option" where
  "pooled_validate_invariants b options =
     (if \<not> allow_crossed_book options \<and> pooled_crossed b then Some False
      else if \<not> pooled_validate_top b then Some False
      else do {
        r \<leftarrow> pooled_validate_levels b Buy (pooled_bid_levels b) [];
        (case r of
            None \<Rightarrow> Some False
          | Some bid_seen \<Rightarrow> do {
              r' \<leftarrow> pooled_validate_levels b Sell (pooled_ask_levels b) bid_seen;
              Some (case r' of None \<Rightarrow> False | Some seen \<Rightarrow> pooled_validate_lookup b seen)
            })
      })"

section \<open>Doubly linked queues in the pool\<close>

text \<open>
  \<open>linked h pv is nx\<close>: the nodes at the indices \<open>is\<close> form a doubly linked segment of the pool
  \<open>h\<close>, entered from \<open>pv\<close> and left towards \<open>nx\<close>.
\<close>

definition first_index :: "size_t list \<Rightarrow> size_t \<Rightarrow> size_t" where
  "first_index is nx = (case is of [] \<Rightarrow> nx | i # _ \<Rightarrow> i)"

definition last_index :: "size_t list \<Rightarrow> size_t \<Rightarrow> size_t" where
  "last_index is pv = (if is = [] then pv else last is)"

fun linked :: "(size_t \<Rightarrow> OrderNode option) \<Rightarrow> size_t \<Rightarrow> size_t list \<Rightarrow> size_t \<Rightarrow> bool" where
  "linked h pv [] nx = True"
| "linked h pv (i # is) nx = ((\<exists>n. h i = Some n \<and> nd_prev n = pv \<and> nd_next n = first_index is nx)
     \<and> linked h i is nx)"

lemma first_index_simps [simp]: "first_index [] nx = nx" "first_index (i # is) nx = i"
  by (simp_all add: first_index_def)

lemma last_index_simps [simp]: "last_index [] pv = pv" "last_index (is @ [i]) pv = i"
  by (simp_all add: last_index_def)

lemma first_index_append: "first_index (is @ js) nx = first_index is (first_index js nx)"
  by (cases "is") simp_all

lemma last_index_Cons: "last_index (i # is) pv = last_index is i"
  by (simp add: last_index_def)

lemma last_index_append: "last_index (is @ js) pv = last_index js (last_index is pv)"
  by (simp add: last_index_def)

lemma last_index_npos_iff: "npos \<notin> set is \<Longrightarrow> last_index is npos = npos \<longleftrightarrow> is = []"
  by (metis last_in_set last_index_def)

lemma linked_append:
  "linked h pv (is @ js) nx \<longleftrightarrow> linked h pv is (first_index js nx) \<and> linked h (last_index is pv) js nx"
  by (induction "is" arbitrary: pv) (auto simp: first_index_append last_index_Cons)

lemma linked_frame: "(\<And>i. i \<in> set is \<Longrightarrow> h' i = h i) \<Longrightarrow> linked h' pv is nx = linked h pv is nx"
  by (induction "is" arbitrary: pv) simp_all

text \<open>A write that changes neither link keeps every queue.\<close>

lemma linked_payload:
  assumes "\<And>i. map_option (\<lambda>n. (nd_prev n, nd_next n)) (h' i) = map_option (\<lambda>n. (nd_prev n, nd_next n)) (h i)"
  shows "linked h' pv is nx = linked h pv is nx"
proof (induction "is" arbitrary: pv)
  case (Cons i "is")
  have "(\<exists>n. h' i = Some n \<and> nd_prev n = pv \<and> nd_next n = y) = (\<exists>n. h i = Some n \<and> nd_prev n = pv \<and> nd_next n = y)" for y
    using assms [of i] by (cases "h i"; cases "h' i") auto
  with Cons show ?case by simp
qed simp

lemma update_node_ex:
  assumes "vec_at ns i = Some n"
  obtains ns' where "update_node ns i f = Some ns'" "length ns' = length ns"
    "vec_at ns' = (vec_at ns)(i \<mapsto> f n)"
proof -
  obtain ns' where ns': "vec_set ns i (f n) = Some ns'" using vec_set_ex [OF assms] by blast
  then have "vec_at ns' = (vec_at ns)(i \<mapsto> f n)" by (auto simp: vec_at_set)
  with that ns' assms vec_set_SomeD [OF ns'] show ?thesis by (simp add: update_node_def)
qed

lemma linked_upd [simp]: "i \<notin> set is \<Longrightarrow> linked (h(i \<mapsto> n)) pv is nx = linked h pv is nx"
  by (rule linked_frame) auto

text \<open>The fields of a node that do not belong to its queue's links.\<close>

definition payload_of :: "OrderNode option \<Rightarrow> (OrderId \<times> Timestamp \<times> Quantity \<times> bool) option" where
  "payload_of x = map_option (\<lambda>n. (nd_order_id n, nd_timestamp n, nd_quantity n, nd_active n)) x"

lemma linked_change_next:
  "linked h pv (is @ [i]) nx \<Longrightarrow> h i = Some n \<Longrightarrow> i \<notin> set is \<Longrightarrow>
   linked (h(i \<mapsto> n\<lparr>nd_next := nx'\<rparr>)) pv (is @ [i]) nx'"
  by (simp add: linked_append)

lemma linked_change_prev:
  "linked h pv (i # is) nx \<Longrightarrow> h i = Some n \<Longrightarrow> i \<notin> set is \<Longrightarrow>
   linked (h(i \<mapsto> n\<lparr>nd_prev := pv'\<rparr>)) pv' (i # is) nx"
  by simp

text \<open>Redirecting the end of a segment, and its start; nothing happens to an empty segment.\<close>

lemma redirect_next:
  assumes "linked (vec_at ns) npos is nx" and "distinct is" and "npos \<notin> set is"
  obtains ns' where
    "(if last_index is npos \<noteq> npos then update_node ns (last_index is npos) (\<lambda>m. m\<lparr>nd_next := nx'\<rparr>) else Some ns) = Some ns'"
    "length ns' = length ns" "linked (vec_at ns') npos is nx'"
    "\<And>j. j \<notin> set is \<Longrightarrow> vec_at ns' j = vec_at ns j" "\<And>j. payload_of (vec_at ns' j) = payload_of (vec_at ns j)"
proof (cases "is" rule: rev_cases)
  case Nil
  with that show ?thesis by simp
next
  case (snoc ys t)
  with assms(1) obtain n where n: "vec_at ns t = Some n" by (auto simp: linked_append)
  from update_node_ex [OF n, of "\<lambda>m. m\<lparr>nd_next := nx'\<rparr>"] obtain ns' where
    ns': "update_node ns t (\<lambda>m. m\<lparr>nd_next := nx'\<rparr>) = Some ns'" "length ns' = length ns"
    "vec_at ns' = (vec_at ns)(t \<mapsto> n\<lparr>nd_next := nx'\<rparr>)" by blast
  have "linked (vec_at ns') npos is nx'"
    using assms linked_change_next [of "vec_at ns" npos ys t nx n nx'] by (simp add: snoc n ns'(3))
  moreover have "payload_of (vec_at ns' j) = payload_of (vec_at ns j)" for j
    by (simp add: payload_of_def ns'(3) n)
  ultimately show ?thesis
    using that [of ns'] ns' assms(3) by (auto simp: snoc)
qed

lemma redirect_prev:
  assumes "linked (vec_at ns) pv is npos" and "distinct is" and "npos \<notin> set is"
  obtains ns' where
    "(if first_index is npos \<noteq> npos then update_node ns (first_index is npos) (\<lambda>m. m\<lparr>nd_prev := pv'\<rparr>) else Some ns) = Some ns'"
    "length ns' = length ns" "linked (vec_at ns') pv' is npos"
    "\<And>j. j \<notin> set is \<Longrightarrow> vec_at ns' j = vec_at ns j" "\<And>j. payload_of (vec_at ns' j) = payload_of (vec_at ns j)"
proof (cases "is")
  case Nil
  with that show ?thesis by simp
next
  case (Cons t ys)
  with assms(1) obtain n where n: "vec_at ns t = Some n" by auto
  from update_node_ex [OF n, of "\<lambda>m. m\<lparr>nd_prev := pv'\<rparr>"] obtain ns' where
    ns': "update_node ns t (\<lambda>m. m\<lparr>nd_prev := pv'\<rparr>) = Some ns'" "length ns' = length ns"
    "vec_at ns' = (vec_at ns)(t \<mapsto> n\<lparr>nd_prev := pv'\<rparr>)" by blast
  have "linked (vec_at ns') pv' is npos"
    using assms linked_change_prev [of "vec_at ns" pv t ys npos n pv'] by (simp add: Cons n ns'(3))
  moreover have "payload_of (vec_at ns' j) = payload_of (vec_at ns j)" for j
    by (simp add: payload_of_def ns'(3) n)
  ultimately show ?thesis
    using that [of ns'] ns' assms(3) by (auto simp: Cons)
qed

lemma append_node_linked:
  assumes "linked (vec_at ns) npos is npos" and "distinct is" and "npos \<notin> set is"
    and "vec_at ns i = Some n" and "i \<notin> set is"
    and "ppl_head level = first_index is npos" and "ppl_tail level = last_index is npos"
  obtains ns' where
    "append_node ns level i = Some (ns', level\<lparr>ppl_head := first_index (is @ [i]) npos,
       ppl_tail := i, ppl_order_count := ppl_order_count level + 1\<rparr>)"
    "length ns' = length ns" "linked (vec_at ns') npos (is @ [i]) npos"
    "\<And>j. j \<notin> set is \<Longrightarrow> j \<noteq> i \<Longrightarrow> vec_at ns' j = vec_at ns j"
    "\<And>j. payload_of (vec_at ns' j) = payload_of (vec_at ns j)"
proof -
  let ?f = "\<lambda>n. n\<lparr>nd_prev := last_index is npos, nd_next := npos\<rparr>"
  from update_node_ex [OF assms(4), of ?f] obtain ns1 where
    ns1: "update_node ns i ?f = Some ns1" "length ns1 = length ns" "vec_at ns1 = (vec_at ns)(i \<mapsto> ?f n)"
    by blast
  have "linked (vec_at ns1) npos is npos" using assms by (simp add: ns1(3))
  from redirect_next [OF this assms(2,3), of i] obtain ns2 where
    ns2: "(if last_index is npos \<noteq> npos then update_node ns1 (last_index is npos) (\<lambda>m. m\<lparr>nd_next := i\<rparr>) else Some ns1) = Some ns2"
    "length ns2 = length ns1" "linked (vec_at ns2) npos is i"
    "\<And>j. j \<notin> set is \<Longrightarrow> vec_at ns2 j = vec_at ns1 j" "\<And>j. payload_of (vec_at ns2 j) = payload_of (vec_at ns1 j)"
    by blast
  have linked2: "linked (vec_at ns2) npos (is @ [i]) npos"
    using ns2(3) ns2(4) [of i] assms(5) by (simp add: linked_append ns1(3))
  have pay: "payload_of (vec_at ns2 j) = payload_of (vec_at ns j)" for j
    using ns2(5) [of j] assms(4) by (simp add: ns1(3) payload_of_def)
  have head: "(if last_index is npos \<noteq> npos then level else level\<lparr>ppl_head := i\<rparr>)
      = level\<lparr>ppl_head := first_index (is @ [i]) npos\<rparr>"
    using assms(3,6) last_index_npos_iff [of "is"] by (cases "is") auto
  have "append_node ns level i = Some (ns2, level\<lparr>ppl_head := first_index (is @ [i]) npos,
       ppl_tail := i, ppl_order_count := ppl_order_count level + 1\<rparr>)"
    unfolding append_node_def assms(7) head using ns1(1) ns2(1) by simp
  then show ?thesis
    using that linked2 pay ns2(2,4) ns1(2,3) by auto
qed

lemma unlink_node_linked:
  assumes "linked (vec_at ns) npos (ys @ i # zs) npos" and "distinct (ys @ i # zs)"
    and "npos \<notin> set (ys @ i # zs)"
    and "ppl_head level = first_index (ys @ i # zs) npos" and "ppl_tail level = last_index (ys @ i # zs) npos"
  obtains ns' where
    "unlink_node ns level i = Some (ns', level\<lparr>ppl_head := first_index (ys @ zs) npos,
       ppl_tail := last_index (ys @ zs) npos, ppl_order_count := ppl_order_count level - 1\<rparr>)"
    "length ns' = length ns" "linked (vec_at ns') npos (ys @ zs) npos"
    "\<And>j. j \<notin> set (ys @ zs) \<Longrightarrow> vec_at ns' j = vec_at ns j"
    "\<And>j. payload_of (vec_at ns' j) = payload_of (vec_at ns j)"
proof -
  obtain n where n: "vec_at ns i = Some n" "nd_prev n = last_index ys npos" "nd_next n = first_index zs npos"
    and parts: "linked (vec_at ns) npos ys i" "linked (vec_at ns) i zs npos"
    using assms(1) by (auto simp: linked_append)
  from redirect_next [OF parts(1), of "first_index zs npos"] assms(2,3) obtain ns1 where
    ns1: "(if last_index ys npos \<noteq> npos then update_node ns (last_index ys npos) (\<lambda>m. m\<lparr>nd_next := first_index zs npos\<rparr>) else Some ns) = Some ns1"
    "length ns1 = length ns" "linked (vec_at ns1) npos ys (first_index zs npos)"
    "\<And>j. j \<notin> set ys \<Longrightarrow> vec_at ns1 j = vec_at ns j" "\<And>j. payload_of (vec_at ns1 j) = payload_of (vec_at ns j)"
    by (metis distinct_append in_set_conv_decomp Un_iff set_append)
  have "linked (vec_at ns1) i zs npos"
    using parts(2) assms(2) by (subst linked_frame [where h = "vec_at ns"]) (auto intro: ns1(4))
  from redirect_prev [OF this, of "last_index ys npos"] assms(2,3) obtain ns2 where
    ns2: "(if first_index zs npos \<noteq> npos then update_node ns1 (first_index zs npos) (\<lambda>m. m\<lparr>nd_prev := last_index ys npos\<rparr>) else Some ns1) = Some ns2"
    "length ns2 = length ns1" "linked (vec_at ns2) (last_index ys npos) zs npos"
    "\<And>j. j \<notin> set zs \<Longrightarrow> vec_at ns2 j = vec_at ns1 j" "\<And>j. payload_of (vec_at ns2 j) = payload_of (vec_at ns1 j)"
    by auto
  have "linked (vec_at ns2) npos ys (first_index zs npos)"
    using ns1(3) assms(2) by (subst linked_frame [where h = "vec_at ns1"]) (auto intro: ns2(4))
  then have linked2: "linked (vec_at ns2) npos (ys @ zs) npos"
    using ns2(3) by (simp add: linked_append)
  have head: "(if last_index ys npos \<noteq> npos then level else level\<lparr>ppl_head := first_index zs npos\<rparr>)
      = level\<lparr>ppl_head := first_index (ys @ zs) npos\<rparr>"
    using assms(3,4) last_index_npos_iff [of ys] by (cases ys) auto
  have tail: "(if first_index zs npos \<noteq> npos then level\<lparr>ppl_head := first_index (ys @ zs) npos\<rparr>
        else level\<lparr>ppl_head := first_index (ys @ zs) npos, ppl_tail := last_index ys npos\<rparr>)
      = level\<lparr>ppl_head := first_index (ys @ zs) npos, ppl_tail := last_index (ys @ zs) npos\<rparr>"
    using assms(3,5) by (cases zs) (auto simp: last_index_def)
  have "unlink_node ns level i = Some (ns2, level\<lparr>ppl_head := first_index (ys @ zs) npos,
       ppl_tail := last_index (ys @ zs) npos, ppl_order_count := ppl_order_count level - 1\<rparr>)"
    by (simp only: unlink_node_def Let_def n Option.bind.simps ns1(1) head ns2(1) tail)
  then show ?thesis
    using that linked2 ns1 ns2 by auto
qed

section \<open>Simulation by the abstract book\<close>

text \<open>
  \<open>ix\<close> gives the pool index of each live order. The levels and the lookup are determined by the
  abstract book and \<open>ix\<close>; every level's queue is linked through the pool in arrival order; the
  indices in use and the free ones are disjoint and together are all of the pool.
\<close>

definition order_indices :: "(OrderId \<Rightarrow> size_t) \<Rightarrow> order list \<Rightarrow> size_t list" where
  "order_indices ix A = map (\<lambda>x. ix (o_id x)) A"

definition mk_plevel :: "(OrderId \<Rightarrow> size_t) \<Rightarrow> order list \<Rightarrow> PooledPriceLevel" where
  "mk_plevel ix A = \<lparr>ppl_total_quantity = Quantity (orders_total A), ppl_order_count = of_nat (length A),
     ppl_head = first_index (order_indices ix A) npos, ppl_tail = last_index (order_indices ix A) npos\<rparr>"

definition mk_precord :: "(OrderId \<Rightarrow> size_t) \<Rightarrow> order \<Rightarrow> PooledOrderRecord" where
  "mk_precord ix x = \<lparr>por_side = o_side x, por_price = o_price x, por_timestamp = o_timestamp x,
     por_quantity = o_quantity x, por_node_index = ix (o_id x)\<rparr>"

definition order_payload :: "order \<Rightarrow> (OrderId \<times> Timestamp \<times> Quantity \<times> bool) option" where
  "order_payload x = Some (o_id x, o_timestamp x, o_quantity x, True)"

definition pool_rep :: "(OrderId \<Rightarrow> size_t) \<Rightarrow> OrderNode list \<Rightarrow> size_t list \<Rightarrow> order list \<Rightarrow> bool" where
  "pool_rep ix ns free A \<longleftrightarrow> distinct (order_indices ix A @ free)
     \<and> (\<forall>i \<in> set free. unat i < length ns)
     \<and> length A + length free = length ns \<and> length ns \<le> node_max_size
     \<and> (\<forall>x \<in> set A. payload_of (vec_at ns (ix (o_id x))) = order_payload x)
     \<and> (\<forall>s p. linked (vec_at ns) npos (order_indices ix (level_orders s p A)) npos)"

definition pooled_rel_at :: "(OrderId \<Rightarrow> size_t) \<Rightarrow> PooledLimitOrderBook \<Rightarrow> spec_book \<Rightarrow> bool" where
  "pooled_rel_at ix b S \<longleftrightarrow> spec_inv S \<and> sb_capacity S = Some (length (nodes b))
     \<and> st_events_applied (pooled_stats b) = sb_applied S
     \<and> lookup_rep (mk_precord ix) (pooled_order_lookup b) (sb_orders S)
     \<and> (\<forall>s. levels_rep (mk_plevel ix) s (pooled_side_levels s b) (sb_orders S))
     \<and> pool_rep ix (nodes b) (free_indices b) (sb_orders S)"

definition pooled_rel :: "PooledLimitOrderBook \<Rightarrow> spec_book \<Rightarrow> bool" where
  "pooled_rel b S \<longleftrightarrow> (\<exists>ix. pooled_rel_at ix b S)"

lemma pooled_relI:
  assumes "spec_inv S" and "sb_capacity S = Some (length (nodes b))"
    and "st_events_applied (pooled_stats b) = sb_applied S"
    and "lookup_rep (mk_precord ix) (pooled_order_lookup b) (sb_orders S)"
    and "\<And>s. levels_rep (mk_plevel ix) s (pooled_side_levels s b) (sb_orders S)"
    and "pool_rep ix (nodes b) (free_indices b) (sb_orders S)"
  shows "pooled_rel b S"
  using assms by (auto simp: pooled_rel_def pooled_rel_at_def)

lemma pooled_rel_atD:
  assumes "pooled_rel_at ix b S"
  shows "spec_inv S" "sb_capacity S = Some (length (nodes b))"
    "st_events_applied (pooled_stats b) = sb_applied S"
    "lookup_rep (mk_precord ix) (pooled_order_lookup b) (sb_orders S)"
    "levels_rep (mk_plevel ix) s (pooled_side_levels s b) (sb_orders S)"
    "pool_rep ix (nodes b) (free_indices b) (sb_orders S)"
    "map_of (pooled_order_lookup b) (id_value i) = map_option (mk_precord ix) (find_order (sb_orders S) i)"
    "distinct (map o_id (sb_orders S))"
  using assms by (auto simp: pooled_rel_at_def spec_inv_def lookup_rep_find)

lemma pooled_side_levels_with [simp]:
  "pooled_side_levels s (pooled_with_side_levels s' ls b) = (if s = s' then ls else pooled_side_levels s b)"
  by (cases s; cases s') auto

lemma pooled_with_side_levels_frame [simp]:
  "pooled_order_lookup (pooled_with_side_levels s ls b) = pooled_order_lookup b"
  "pooled_stats (pooled_with_side_levels s ls b) = pooled_stats b"
  "nodes (pooled_with_side_levels s ls b) = nodes b"
  "free_indices (pooled_with_side_levels s ls b) = free_indices b"
  by (cases s; simp)+

lemma pooled_side_levels_frame [simp]:
  "pooled_side_levels s (b\<lparr>pooled_order_lookup := l\<rparr>) = pooled_side_levels s b"
  "pooled_side_levels s (b\<lparr>nodes := ns\<rparr>) = pooled_side_levels s b"
  "pooled_side_levels s (b\<lparr>free_indices := f\<rparr>) = pooled_side_levels s b"
  "pooled_side_levels s (pooled_count_applied b) = pooled_side_levels s b"
  by (cases s; simp add: pooled_count_applied_def)+

lemma pooled_count_applied_frame [simp]:
  "pooled_order_lookup (pooled_count_applied b) = pooled_order_lookup b"
  "nodes (pooled_count_applied b) = nodes b"
  "free_indices (pooled_count_applied b) = free_indices b"
  "st_events_applied (pooled_stats (pooled_count_applied b)) = st_events_applied (pooled_stats b) + 1"
  by (simp_all add: pooled_count_applied_def)

lemma pooled_find_level_side: "pooled_find_level b s p = map_of (pooled_side_levels s b) (ticks p)"
  by (cases s) (simp_all add: pooled_find_level_def)

lemma mk_precord_sel [simp]:
  "por_side (mk_precord ix x) = o_side x" "por_price (mk_precord ix x) = o_price x"
  "por_timestamp (mk_precord ix x) = o_timestamp x" "por_quantity (mk_precord ix x) = o_quantity x"
  "por_node_index (mk_precord ix x) = ix (o_id x)"
  by (simp_all add: mk_precord_def)

lemma mk_plevel_sel [simp]:
  "ppl_total_quantity (mk_plevel ix A) = Quantity (orders_total A)"
  "ppl_order_count (mk_plevel ix A) = of_nat (length A)"
  "ppl_head (mk_plevel ix A) = first_index (order_indices ix A) npos"
  "ppl_tail (mk_plevel ix A) = last_index (order_indices ix A) npos"
  by (simp_all add: mk_plevel_def)

lemma order_indices_append [simp]: "order_indices ix (A @ B) = order_indices ix A @ order_indices ix B"
  by (simp add: order_indices_def)

lemma order_indices_simps [simp]:
  "order_indices ix [] = []" "order_indices ix (x # A) = ix (o_id x) # order_indices ix A"
  by (simp_all add: order_indices_def)

lemma order_indices_set_quantity [simp]: "order_indices ix (set_quantity i q A) = order_indices ix A"
  by (simp add: order_indices_def set_quantity_def comp_def cong: map_cong)

lemma order_indices_cong:
  "(\<And>x. x \<in> set A \<Longrightarrow> ix' (o_id x) = ix (o_id x)) \<Longrightarrow> order_indices ix' A = order_indices ix A"
  by (simp add: order_indices_def)

lemma mk_plevel_cong:
  "(\<And>x. x \<in> set A \<Longrightarrow> ix' (o_id x) = ix (o_id x)) \<Longrightarrow> mk_plevel ix' A = mk_plevel ix A"
  using order_indices_cong [of A ix' ix] by (simp add: mk_plevel_def)

lemma pooled_own_level:
  assumes "pooled_rel_at ix b S" and "x \<in> set (sb_orders S)"
  shows "map_of (pooled_side_levels (o_side x) b) (ticks (o_price x))
    = Some (mk_plevel ix (level_orders (o_side x) (ticks (o_price x)) (sb_orders S)))"
  using levels_rep_find [OF pooled_rel_atD(5) [OF assms(1)]] own_level_nonempty [OF assms(2)]
  by (simp add: level_value_Some)

end
