(* ===== verification/Pooled_Refinement.thy ===== *)
theory Pooled_Refinement
  imports Pooled_Limit_Order_Book
begin

text \<open>
  The pooled book refines the abstract book: the pool's queues follow the live orders through
  every update, every query answers what the abstract book shows, and the book satisfies the
  interface \<open>order_book\<close>.
\<close>

section \<open>Facts about the pool\<close>

lemma unat_npos: "unat npos = 2 ^ 64 - 1"
  by (simp add: npos_def unsigned_minus_1_eq_mask mask_eq_exp_minus_1)

lemma node_max_size_less: "node_max_size < 2 ^ 64 - 1"
  by (simp add: node_max_size_def)

lemma pool_index_valid:
  assumes "pool_rep ix ns free A" and "x \<in> set A"
  shows "unat (ix (o_id x)) < length ns" and "ix (o_id x) \<noteq> npos"
proof -
  have "payload_of (vec_at ns (ix (o_id x))) = order_payload x"
    using assms by (simp add: pool_rep_def)
  then show "unat (ix (o_id x)) < length ns"
    by (auto simp: payload_of_def order_payload_def vec_at_def split: if_splits)
  moreover have "length ns \<le> node_max_size" using assms(1) by (simp add: pool_rep_def)
  ultimately show "ix (o_id x) \<noteq> npos"
    using node_max_size_less unat_npos by auto
qed

lemma pool_level_queue:
  assumes "pool_rep ix ns free A"
  shows "linked (vec_at ns) npos (order_indices ix (level_orders s p A)) npos"
    and "distinct (order_indices ix (level_orders s p A))"
    and "npos \<notin> set (order_indices ix (level_orders s p A))"
proof -
  show "linked (vec_at ns) npos (order_indices ix (level_orders s p A)) npos"
    using assms by (simp add: pool_rep_def)
  show "distinct (order_indices ix (level_orders s p A))"
    using assms by (simp add: pool_rep_def order_indices_def level_orders_def distinct_map_filter_key)
  show "npos \<notin> set (order_indices ix (level_orders s p A))"
    using pool_index_valid(2) [OF assms] by (force simp: order_indices_def in_level_orders)
qed

lemma pool_indices_inj:
  assumes "pool_rep ix ns free A" and "x \<in> set A" and "y \<in> set A" and "ix (o_id x) = ix (o_id y)"
  shows "x = y"
  using assms by (auto simp: pool_rep_def order_indices_def distinct_map inj_on_def)

lemma pool_levels_disjoint:
  assumes "pool_rep ix ns free A" and "s \<noteq> s' \<or> p \<noteq> p'"
  shows "set (order_indices ix (level_orders s p A)) \<inter> set (order_indices ix (level_orders s' p' A)) = {}"
  using assms(2)
  by (fastforce simp: order_indices_def in_level_orders dest: pool_indices_inj [OF assms(1)])

lemma pool_free_index:
  assumes "pool_rep ix ns (free @ [i]) A"
  obtains n where "vec_at ns i = Some n" and "i \<notin> set (order_indices ix A)" and "i \<notin> set free"
proof -
  have "unat i < length ns" "i \<notin> set (order_indices ix A)" "i \<notin> set free"
    using assms by (auto simp: pool_rep_def)
  with that show ?thesis by (auto simp: vec_at_def)
qed

lemma level_indices_subset: "set (order_indices ix (level_orders s p A)) \<subseteq> set (order_indices ix A)"
  by (auto simp: order_indices_def in_level_orders)

text \<open>A write that stays within one level's queue, and perhaps one index more, keeps the other queues.\<close>

lemma pool_other_level:
  assumes "pool_rep ix ns free A" and "s \<noteq> s' \<or> p \<noteq> p'"
    and "\<And>j. j \<notin> set (order_indices ix (level_orders s' p' A)) \<Longrightarrow> j \<noteq> i \<Longrightarrow> h j = vec_at ns j"
    and "i \<in> set (order_indices ix (level_orders s p A)) \<Longrightarrow> False"
  shows "linked h npos (order_indices ix (level_orders s p A)) npos"
proof -
  have "h j = vec_at ns j" if "j \<in> set (order_indices ix (level_orders s p A))" for j
    using that assms(3) [of j] assms(4) pool_levels_disjoint [OF assms(1,2)] by blast
  then show ?thesis using pool_level_queue(1) [OF assms(1), of s p] linked_frame by blast
qed

lemma pool_rep_add:
  assumes rep: "pool_rep ix ns (free @ [i]) A" and fresh: "o_id x \<notin> o_id ` set A"
    and os: "os = level_orders (o_side x) (ticks (o_price x)) A" and ix': "ix' = ix(o_id x := i)"
    and len: "length ns' = length ns" and queue: "linked (vec_at ns') npos (order_indices ix os @ [i]) npos"
    and frame: "\<And>j. j \<notin> set (order_indices ix os) \<Longrightarrow> j \<noteq> i \<Longrightarrow> vec_at ns' j = vec_at ns j"
    and payload: "\<And>j. payload_of (vec_at ns' j) = (if j = i then order_payload x else payload_of (vec_at ns j))"
  shows "pool_rep ix' ns' free (A @ [x])" and "order_indices ix' (os @ [x]) = order_indices ix os @ [i]"
proof -
  have i: "i \<notin> set (order_indices ix A)" "i \<notin> set free" using rep by (auto simp: pool_rep_def)
  have same: "order_indices ix' B = order_indices ix B" if "set B \<subseteq> set A" for B
    using that unfolding ix' by (intro order_indices_cong upd_fresh_key [OF fresh]) auto
  have level: "set (level_orders s p A) \<subseteq> set A" for s p by (auto simp: in_level_orders)
  show ids: "order_indices ix' (os @ [x]) = order_indices ix os @ [i]" using same [OF level] by (simp add: ix' os)
  show "pool_rep ix' ns' free (A @ [x])"
    unfolding pool_rep_def
  proof (intro conjI allI ballI)
    show "distinct (order_indices ix' (A @ [x]) @ free)" using rep i same [of A] by (auto simp: pool_rep_def ix')
    show "payload_of (vec_at ns' (ix' (o_id y))) = order_payload y" if y: "y \<in> set (A @ [x])" for y
    proof (cases "y = x")
      case False
      with y have "y \<in> set A" by simp
      with i(1) have "ix (o_id y) \<noteq> i" by (auto simp: order_indices_def)
      moreover have "o_id y \<noteq> o_id x" using \<open>y \<in> set A\<close> fresh by (metis imageI)
      ultimately show ?thesis using \<open>y \<in> set A\<close> rep by (simp add: payload ix' pool_rep_def)
    qed (simp add: payload ix')
    show "linked (vec_at ns') npos (order_indices ix' (level_orders s p (A @ [x]))) npos" for s p
    proof (cases "o_side x = s \<and> ticks (o_price x) = p")
      case True
      with queue ids show ?thesis by (auto simp: level_orders_append os)
    next
      case False
      have "linked (vec_at ns') npos (order_indices ix (level_orders s p A)) npos"
        using False frame i(1) level_indices_subset [of ix s p A] unfolding os
        by (intro pool_other_level [OF rep, where i = i]) auto
      with False same [OF level, of s p] show ?thesis by (auto simp: level_orders_append)
    qed
  qed (use rep len in \<open>auto simp: pool_rep_def\<close>)
qed

lemma pool_add:
  assumes rep: "pool_rep ix ns (free @ [i]) A" and fresh: "o_id x \<notin> o_id ` set A"
    and os: "os = level_orders (o_side x) (ticks (o_price x)) A" and ix': "ix' = ix(o_id x := i)"
  obtains ns1 ns2 where
    "update_node ns i (\<lambda>n. n\<lparr>nd_order_id := o_id x, nd_timestamp := o_timestamp x,
       nd_quantity := o_quantity x, nd_active := True\<rparr>) = Some ns1"
    "append_node ns1 (mk_plevel ix os) i = Some (ns2, (mk_plevel ix os)\<lparr>
       ppl_head := first_index (order_indices ix' (os @ [x])) npos, ppl_tail := i,
       ppl_order_count := of_nat (length os) + 1\<rparr>)"
    "length ns2 = length ns" "pool_rep ix' ns2 free (A @ [x])"
proof -
  obtain n where n: "vec_at ns i = Some n" and i: "i \<notin> set (order_indices ix A)"
    by (rule pool_free_index [OF rep])
  let ?f = "\<lambda>n. n\<lparr>nd_order_id := o_id x, nd_timestamp := o_timestamp x,
       nd_quantity := o_quantity x, nd_active := True\<rparr>"
  obtain ns1 where ns1: "update_node ns i ?f = Some ns1" "length ns1 = length ns"
    "vec_at ns1 = (vec_at ns)(i \<mapsto> ?f n)" by (rule update_node_ex [OF n])
  have i_os: "i \<notin> set (order_indices ix os)" using i os level_indices_subset by blast
  note queue = pool_level_queue [OF rep, of "o_side x" "ticks (o_price x)", folded os]
  have "linked (vec_at ns1) npos (order_indices ix os) npos" using queue(1) i_os by (simp add: ns1(3))
  moreover have "vec_at ns1 i = Some (?f n)" by (simp add: ns1(3))
  ultimately obtain ns2 where ns2:
    "append_node ns1 (mk_plevel ix os) i = Some (ns2, (mk_plevel ix os)\<lparr>
       ppl_head := first_index (order_indices ix os @ [i]) npos, ppl_tail := i,
       ppl_order_count := ppl_order_count (mk_plevel ix os) + 1\<rparr>)"
    "length ns2 = length ns1" "linked (vec_at ns2) npos (order_indices ix os @ [i]) npos"
    "\<And>j. j \<notin> set (order_indices ix os) \<Longrightarrow> j \<noteq> i \<Longrightarrow> vec_at ns2 j = vec_at ns1 j"
    "\<And>j. payload_of (vec_at ns2 j) = payload_of (vec_at ns1 j)"
    using append_node_linked [OF _ queue(2,3) _ i_os, of ns1 "?f n" "mk_plevel ix os"] by auto
  have "payload_of (vec_at ns2 j) = (if j = i then order_payload x else payload_of (vec_at ns j))" for j
    unfolding ns2(5) by (simp add: ns1(3) payload_of_def order_payload_def)
  with pool_rep_add [OF rep fresh os ix' _ ns2(3)] ns1(2,3) ns2(2,4)
  have "pool_rep ix' ns2 free (A @ [x])" "order_indices ix' (os @ [x]) = order_indices ix os @ [i]" by auto
  with that ns1 ns2 show ?thesis by simp
qed

lemma pool_set_quantity:
  assumes rep: "pool_rep ix ns free A" and x: "x \<in> set A" and dist: "distinct (map o_id A)"
  obtains ns' where "update_node ns (ix (o_id x)) (\<lambda>n. n\<lparr>nd_quantity := q\<rparr>) = Some ns'"
    "length ns' = length ns" "pool_rep ix ns' free (set_quantity (o_id x) q A)"
proof -
  have "payload_of (vec_at ns (ix (o_id x))) = order_payload x" using rep x by (simp add: pool_rep_def)
  then obtain n where n: "vec_at ns (ix (o_id x)) = Some n" by (auto simp: payload_of_def order_payload_def)
  obtain ns' where ns': "update_node ns (ix (o_id x)) (\<lambda>n. n\<lparr>nd_quantity := q\<rparr>) = Some ns'"
    "length ns' = length ns" "vec_at ns' = (vec_at ns)(ix (o_id x) \<mapsto> n\<lparr>nd_quantity := q\<rparr>)"
    by (rule update_node_ex [OF n])
  have links: "linked (vec_at ns') pv is nx = linked (vec_at ns) pv is nx" for pv "is" nx
    by (rule linked_payload) (simp add: ns'(3) n)
  have "payload_of (vec_at ns' (ix (o_id y))) = order_payload y"
    if y: "y \<in> set (set_quantity (o_id x) q A)" for y
  proof -
    obtain z where z: "z \<in> set A" "y = (if o_id z = o_id x then z\<lparr>o_quantity := q\<rparr> else z)"
      using y by (auto simp: set_quantity_def)
    have pay: "payload_of (vec_at ns (ix (o_id z))) = order_payload z"
      using rep z(1) by (simp add: pool_rep_def)
    show ?thesis
    proof (cases "o_id z = o_id x")
      case True
      with pay n z show ?thesis by (simp add: ns'(3) payload_of_def order_payload_def)
    next
      case False
      then have "ix (o_id z) \<noteq> ix (o_id x)" using pool_indices_inj [OF rep z(1) x] by auto
      with pay z False show ?thesis by (simp add: ns'(3))
    qed
  qed
  then have "pool_rep ix ns' free (set_quantity (o_id x) q A)"
    using rep by (simp add: pool_rep_def links ns'(2) level_orders_set_quantity [OF dist x])
  with that ns' show ?thesis by blast
qed

lemma pool_rep_remove:
  assumes rep: "pool_rep ix ns free A" and x: "x \<in> set A" and dist: "distinct (map o_id A)"
    and os: "os = level_orders (o_side x) (ticks (o_price x)) A" and len: "length ns' = length ns"
    and queue: "linked (vec_at ns') npos (order_indices ix (remove_order (o_id x) os)) npos"
    and frame: "\<And>j. j \<notin> set (order_indices ix os) \<Longrightarrow> vec_at ns' j = vec_at ns j"
    and payload: "\<And>j. j \<noteq> ix (o_id x) \<Longrightarrow> payload_of (vec_at ns' j) = payload_of (vec_at ns j)"
  shows "pool_rep ix ns' (free @ [ix (o_id x)]) (remove_order (o_id x) A)"
  unfolding pool_rep_def
proof (intro conjI allI ballI)
  have other: "ix (o_id y) \<noteq> ix (o_id x)" if "y \<in> set (remove_order (o_id x) A)" for y
    using that pool_indices_inj [OF rep _ x, of y] by (auto simp: set_remove_order)
  have "distinct (order_indices ix (remove_order (o_id x) A))"
    using rep by (auto simp: pool_rep_def order_indices_def remove_order_def distinct_map_filter_key)
  moreover have "ix (o_id x) \<notin> set (order_indices ix (remove_order (o_id x) A))"
    using other by (force simp: order_indices_def)
  ultimately show "distinct (order_indices ix (remove_order (o_id x) A) @ free @ [ix (o_id x)])"
    using rep x by (auto simp: pool_rep_def order_indices_def set_remove_order)
  show "payload_of (vec_at ns' (ix (o_id y))) = order_payload y" if "y \<in> set (remove_order (o_id x) A)" for y
    using rep that by (auto simp: payload [OF other [OF that]] pool_rep_def set_remove_order)
  show "linked (vec_at ns') npos (order_indices ix (level_orders s p (remove_order (o_id x) A))) npos" for s p
  proof (cases "o_side x = s \<and> ticks (o_price x) = p")
    case True
    with queue show ?thesis by (auto simp: level_orders_remove [OF dist x] os)
  next
    case False
    have "linked (vec_at ns') npos (order_indices ix (level_orders s p A)) npos"
      using False frame pool_level_queue(3) [OF rep, of s p] unfolding os
      by (intro pool_other_level [OF rep, where i = npos]) auto
    with False show ?thesis by (auto simp: level_orders_remove [OF dist x])
  qed
  show "length (remove_order (o_id x) A) + length (free @ [ix (o_id x)]) = length ns'"
    using rep length_remove_order [OF dist x] len by (simp add: pool_rep_def)
qed (use rep len pool_index_valid(1) [OF rep x] in \<open>auto simp: pool_rep_def\<close>)

lemma pool_remove:
  assumes rep: "pool_rep ix ns free A" and x: "x \<in> set A" and dist: "distinct (map o_id A)"
    and os: "os = level_orders (o_side x) (ticks (o_price x)) A"
    and level: "ppl_head level = first_index (order_indices ix os) npos"
      "ppl_tail level = last_index (order_indices ix os) npos"
  obtains ns1 ns2 where
    "unlink_node ns level (ix (o_id x)) = Some (ns1, level\<lparr>
       ppl_head := first_index (order_indices ix (remove_order (o_id x) os)) npos,
       ppl_tail := last_index (order_indices ix (remove_order (o_id x) os)) npos,
       ppl_order_count := ppl_order_count level - 1\<rparr>)"
    "vec_set ns1 (ix (o_id x)) default_node = Some ns2"
    "length ns2 = length ns" "pool_rep ix ns2 (free @ [ix (o_id x)]) (remove_order (o_id x) A)"
proof -
  have "x \<in> set os" using x by (simp add: os in_level_orders)
  then obtain ys zs where split: "os = ys @ x # zs" by (auto simp: in_set_conv_decomp)
  have "distinct (map o_id os)" unfolding os by (rule distinct_level_orders [OF dist])
  then have removed: "remove_order (o_id x) os = ys @ zs"
    unfolding remove_order_def split by (rule filter_neq_key_split)
  note queue = pool_level_queue [OF rep, of "o_side x" "ticks (o_price x)", folded os]
  obtain ns1 where ns1:
    "unlink_node ns level (ix (o_id x)) = Some (ns1, level\<lparr>
       ppl_head := first_index (order_indices ix ys @ order_indices ix zs) npos,
       ppl_tail := last_index (order_indices ix ys @ order_indices ix zs) npos,
       ppl_order_count := ppl_order_count level - 1\<rparr>)"
    "length ns1 = length ns" "linked (vec_at ns1) npos (order_indices ix ys @ order_indices ix zs) npos"
    "\<And>j. j \<notin> set (order_indices ix ys @ order_indices ix zs) \<Longrightarrow> vec_at ns1 j = vec_at ns j"
    "\<And>j. payload_of (vec_at ns1 j) = payload_of (vec_at ns j)"
    using unlink_node_linked [of ns "order_indices ix ys" "ix (o_id x)" "order_indices ix zs" level] queue level
    by (auto simp: split)
  have "unat (ix (o_id x)) < length ns1" using pool_index_valid(1) [OF rep x] ns1(2) by simp
  then obtain ns2 where ns2: "vec_set ns1 (ix (o_id x)) default_node = Some ns2" by (auto simp: vec_set_def)
  note ns2_at = vec_at_set [OF ns2] and ns2_length = vec_set_SomeD [OF ns2]
  have "ix (o_id x) \<notin> set (order_indices ix ys @ order_indices ix zs)" using queue(2) by (simp add: split)
  then have "linked (vec_at ns2) npos (order_indices ix ys @ order_indices ix zs) npos"
    using ns1(3) by (subst linked_frame [where h = "vec_at ns1"]) (auto simp: ns2_at)
  then have "linked (vec_at ns2) npos (order_indices ix (remove_order (o_id x) os)) npos" by (simp add: removed)
  moreover have "vec_at ns2 j = vec_at ns j" if "j \<notin> set (order_indices ix os)" for j
    using that ns1(4) [of j] by (auto simp: ns2_at split)
  moreover have "payload_of (vec_at ns2 j) = payload_of (vec_at ns j)" if "j \<noteq> ix (o_id x)" for j
    using that by (simp add: ns2_at ns1(5))
  ultimately have "pool_rep ix ns2 (free @ [ix (o_id x)]) (remove_order (o_id x) A)"
    using ns1(2) ns2_length by (intro pool_rep_remove [OF rep x dist os]) auto
  with that [of ns1 ns2] ns1 ns2 ns2_length show ?thesis by (simp add: removed)
qed

section \<open>Simulation of the operations\<close>

lemma at_capacity_iff: "pooled_rel_at ix b S \<Longrightarrow> at_capacity S \<longleftrightarrow> free_indices b = []"
  using pooled_rel_atD(2,6) [of ix b S] by (auto simp: at_capacity_def pool_rep_def simp flip: length_0_conv)

lemma pooled_subscript_level:
  assumes "levels_rep (mk_plevel ix) s m A"
  shows "map_of (om_subscript (side_lt s) pooled_empty_level p m) p = Some (mk_plevel ix (level_orders s p A))"
proof -
  have "pooled_empty_level = mk_plevel ix []"
    by (simp add: pooled_empty_level_def mk_plevel_def orders_total_def)
  with assms show ?thesis
    by (auto simp: levels_rep_def level_value_def side_cmp.map_of_subscript)
qed

lemma plevel_value_frame:
  assumes "level_orders s p A' = level_orders s p A"
    and "\<And>x. x \<in> set A \<Longrightarrow> ix' (o_id x) = ix (o_id x)"
  shows "level_value (mk_plevel ix') s A' p = level_value (mk_plevel ix) s A p"
  using assms by (auto simp: level_value_def in_level_orders intro: mk_plevel_cong)

text \<open>An insertion into the levels, for a new order \<open>x\<close> at the pool index \<open>ix' (o_id x)\<close>.\<close>

lemma plevels_add:
  assumes rep: "\<And>s. levels_rep (mk_plevel ix) s (pooled_side_levels s b) A"
    and same: "\<And>y. y \<in> set A \<Longrightarrow> ix' (o_id y) = ix (o_id y)"
    and m: "m = om_subscript (side_lt (o_side x)) pooled_empty_level (ticks (o_price x)) (pooled_side_levels (o_side x) b)"
  shows "levels_rep (mk_plevel ix') s (if s = o_side x
      then al_assign (ticks (o_price x)) (mk_plevel ix' (level_orders (o_side x) (ticks (o_price x)) (A @ [x]))) m
      else pooled_side_levels s b) (A @ [x])"
proof (cases "s = o_side x")
  case True
  have "levels_rep (mk_plevel ix') s (al_assign (ticks (o_price x))
      (mk_plevel ix' (level_orders s (ticks (o_price x)) (A @ [x]))) m) (A @ [x])"
    unfolding m True
    by (rule levels_rep_subscript [OF rep])
      (auto simp: level_orders_append intro!: plevel_value_frame same)
  with True show ?thesis by simp
next
  case False
  then have "levels_rep (mk_plevel ix') s (pooled_side_levels s b) (A @ [x])"
    by (intro levels_rep_keep [OF rep] plevel_value_frame same) (auto simp: level_orders_append)
  with False show ?thesis by simp
qed

lemma mk_plevel_snoc:
  "(mk_plevel ix os)\<lparr>ppl_head := first_index (order_indices ix' (os @ [x])) npos, ppl_tail := ix' (o_id x),
      ppl_order_count := of_nat (length os) + 1, ppl_total_quantity := Quantity (orders_total os + units (o_quantity x))\<rparr>
    = mk_plevel ix' (os @ [x])"
  by (simp add: mk_plevel_def orders_total_append add.commute)

lemma pooled_insert_sim:
  assumes rel: "pooled_rel_at ix b S" and room: "free_indices b = free @ [i]"
    and new: "find_order (sb_orders S) (o_id x) = None" and q: "units (o_quantity x) \<noteq> 0"
  shows "\<exists>b'. pooled_add_order b (o_id x) (o_side x) (o_price x) (o_quantity x) (o_timestamp x) = Some (Applied, b')
    \<and> pooled_rel b' (snd (spec_commit (sb_orders S @ [x]) S))"
proof -
  let ?A = "sb_orders S" and ?s = "o_side x" and ?p = "ticks (o_price x)"
  define ix' where "ix' = ix(o_id x := i)"
  define m where "m = om_subscript (side_lt ?s) pooled_empty_level ?p (pooled_side_levels ?s b)"
  define os where "os = level_orders ?s ?p ?A"
  have fresh: "o_id x \<notin> o_id ` set ?A" using new by (simp add: find_order_None_iff)
  then have same: "ix' (o_id y) = ix (o_id y)" if "y \<in> set ?A" for y
    unfolding ix'_def using that by (rule upd_fresh_key)
  have level: "map_of m ?p = Some (mk_plevel ix os)"
    unfolding m_def os_def by (rule pooled_subscript_level [OF pooled_rel_atD(5) [OF rel]])
  obtain ns1 ns2 where pool:
    "update_node (nodes b) i (\<lambda>n. n\<lparr>nd_order_id := o_id x, nd_timestamp := o_timestamp x,
       nd_quantity := o_quantity x, nd_active := True\<rparr>) = Some ns1"
    "append_node ns1 (mk_plevel ix os) i = Some (ns2, (mk_plevel ix os)\<lparr>
       ppl_head := first_index (order_indices ix' (os @ [x])) npos, ppl_tail := i,
       ppl_order_count := of_nat (length os) + 1\<rparr>)"
    "length ns2 = length (nodes b)" "pool_rep ix' ns2 free (?A @ [x])"
    using pool_add [OF pooled_rel_atD(6) [OF rel, unfolded room] fresh os_def ix'_def] by blast
  define b' where "b' = pooled_count_applied ((pooled_with_side_levels ?s
      (al_assign ?p (mk_plevel ix' (os @ [x])) m) (b\<lparr>free_indices := free\<rparr>))\<lparr>nodes := ns2,
      pooled_order_lookup := um_emplace (id_value (o_id x)) (mk_precord ix' x) (pooled_order_lookup b)\<rparr>)"
  have i: "ix' (o_id x) = i" by (simp add: ix'_def)
  have "pooled_add_order b (o_id x) ?s (o_price x) (o_quantity x) (o_timestamp x) = Some (Applied, b')"
    using q new mk_plevel_snoc [where ix = ix and os = os and ix' = ix' and x = x, unfolded i]
    by (simp add: pooled_add_order_def pooled_rel_atD(7) [OF rel] allocate_node_def room
        level [unfolded m_def] pool(1,2) b'_def m_def mk_precord_def i)
  moreover have "pooled_rel b' (snd (spec_commit (?A @ [x]) S))"
  proof (rule pooled_relI [where ix = ix'])
    show "spec_inv (snd (spec_commit (?A @ [x]) S))"
      using spec_inv_add [OF pooled_rel_atD(1) [OF rel], of x] at_capacity_iff [OF rel] new q room
      by (simp add: spec_add_def)
    show "lookup_rep (mk_precord ix') (pooled_order_lookup b') (sb_orders (snd (spec_commit (?A @ [x]) S)))"
      using lookup_rep_add [OF pooled_rel_atD(4) [OF rel] new, of "mk_precord ix'"] same
      by (simp add: b'_def spec_commit_def mk_precord_def)
    show "levels_rep (mk_plevel ix') s (pooled_side_levels s b') (sb_orders (snd (spec_commit (?A @ [x]) S)))" for s
      using plevels_add [OF pooled_rel_atD(5) [OF rel] same m_def, of s]
      by (simp add: b'_def spec_commit_def os_def level_orders_append split: if_splits)
  qed (use pooled_rel_atD [OF rel] pool(3,4) in \<open>simp_all add: spec_commit_def b'_def\<close>)
  ultimately show ?thesis by blast
qed

lemma pooled_add_order_sim:
  assumes rel: "pooled_rel_at ix b S"
  shows "\<exists>b'. pooled_add_order b (o_id x) (o_side x) (o_price x) (o_quantity x) (o_timestamp x)
      = Some (fst (spec_add S x), b') \<and> pooled_rel b' (snd (spec_add S x))"
proof (cases "units (o_quantity x) = 0 \<or> find_order (sb_orders S) (o_id x) \<noteq> None \<or> free_indices b = []")
  case True
  with rel show ?thesis
    by (auto simp: pooled_add_order_def spec_add_def pooled_rel_atD(7) [OF rel] at_capacity_iff [OF rel]
        allocate_node_def pooled_rel_def)
next
  case False
  then obtain free i where "free_indices b = free @ [i]" by (metis rev_exhaust)
  with False pooled_insert_sim [OF rel, of free i x] at_capacity_iff [OF rel] show ?thesis
    by (auto simp: spec_add_def) (simp_all add: spec_commit_def)
qed

lemma pooled_reduce_sim:
  assumes rel: "pooled_rel_at ix b S" and x: "x \<in> set (sb_orders S)" and q: "units q \<noteq> 0"
    and red: "units (o_quantity x) - r = units q"
  shows "\<exists>b'. pooled_reduce_order b (id_value (o_id x)) (mk_precord ix x) r q = Some (Applied, b')
    \<and> pooled_rel b' (snd (spec_commit (set_quantity (o_id x) q (sb_orders S)) S))"
proof -
  let ?A = "sb_orders S" and ?s = "o_side x" and ?p = "ticks (o_price x)"
  let ?os = "level_orders ?s ?p ?A" and ?A' = "set_quantity (o_id x) q ?A"
  note dist = pooled_rel_atD(8) [OF rel]
  have x_os: "x \<in> set ?os" using x by (simp add: in_level_orders)
  have tot: "orders_total ?os - r = orders_total (set_quantity (o_id x) q ?os)"
    using orders_total_set_quantity [OF distinct_level_orders [OF dist] x_os, of q] red
    by (simp add: algebra_simps)
  obtain ns where ns: "update_node (nodes b) (ix (o_id x)) (\<lambda>n. n\<lparr>nd_quantity := q\<rparr>) = Some ns"
    "length ns = length (nodes b)" "pool_rep ix ns (free_indices b) ?A'"
    using pool_set_quantity [OF pooled_rel_atD(6) [OF rel] x dist] by blast
  define b' where "b' = pooled_count_applied ((pooled_with_side_levels ?s
      (al_assign ?p (mk_plevel ix (set_quantity (o_id x) q ?os)) (pooled_side_levels ?s b)) b)\<lparr>nodes := ns,
      pooled_order_lookup := al_assign (id_value (o_id x)) (mk_precord ix (x\<lparr>o_quantity := q\<rparr>)) (pooled_order_lookup b)\<rparr>)"
  have "(mk_plevel ix ?os)\<lparr>ppl_total_quantity := Quantity (orders_total ?os - r)\<rparr> = mk_plevel ix (set_quantity (o_id x) q ?os)"
    by (simp add: mk_plevel_def tot)
  then have "pooled_reduce_order b (id_value (o_id x)) (mk_precord ix x) r q = Some (Applied, b')"
    by (simp add: pooled_reduce_order_def pooled_find_level_side pooled_own_level [OF rel x] ns(1) b'_def)
      (simp add: mk_precord_def)
  moreover have "pooled_rel b' (snd (spec_commit ?A' S))"
  proof (rule pooled_relI [where ix = ix])
    show "spec_inv (snd (spec_commit ?A' S))"
      by (rule spec_inv_set_quantity [OF pooled_rel_atD(1) [OF rel] q])
    have "find_order ?A (o_id x) = Some x" using x by (simp add: find_order_Some_iff [OF dist])
    then show "lookup_rep (mk_precord ix) (pooled_order_lookup b') (sb_orders (snd (spec_commit ?A' S)))"
      using lookup_rep_set_quantity [OF pooled_rel_atD(4) [OF rel], of "o_id x" x q]
      by (simp add: b'_def spec_commit_def)
    show "levels_rep (mk_plevel ix) s (pooled_side_levels s b') (sb_orders (snd (spec_commit ?A' S)))" for s
      using levels_rep_set_quantity [OF pooled_rel_atD(5) [OF rel] dist x, of s q]
      by (auto simp: b'_def spec_commit_def)
  qed (use pooled_rel_atD [OF rel] ns(2,3) in \<open>simp_all add: spec_commit_def b'_def\<close>)
  ultimately show ?thesis by blast
qed

lemma pool_length_less:
  assumes "pool_rep ix ns free A"
  shows "length (level_orders s p A) < 2 ^ 64"
proof -
  have "length (level_orders s p A) \<le> length A" by (simp add: level_orders_def)
  with assms node_max_size_less show ?thesis by (simp add: pool_rep_def)
qed

lemma mk_plevel_remove:
  assumes "distinct (map o_id os)" and "x \<in> set os"
  shows "(mk_plevel ix os)\<lparr>ppl_total_quantity := Quantity (orders_total os - units (o_quantity x)),
       ppl_head := first_index (order_indices ix (remove_order (o_id x) os)) npos,
       ppl_tail := last_index (order_indices ix (remove_order (o_id x) os)) npos,
       ppl_order_count := of_nat (length os) - 1\<rparr> = mk_plevel ix (remove_order (o_id x) os)"
  by (simp add: mk_plevel_def orders_total_remove [OF assms] length_remove_order [OF assms])

lemma pooled_remove_sim:
  assumes rel: "pooled_rel_at ix b S" and x: "x \<in> set (sb_orders S)"
  shows "\<exists>b'. pooled_remove_existing_order b (id_value (o_id x)) (mk_precord ix x) = Some b'
    \<and> pooled_rel (pooled_count_applied b') (snd (spec_commit (remove_order (o_id x) (sb_orders S)) S))"
proof -
  let ?A = "sb_orders S" and ?s = "o_side x" and ?p = "ticks (o_price x)"
  let ?A' = "remove_order (o_id x) ?A"
  define os where "os = level_orders ?s ?p ?A"
  define os' where "os' = remove_order (o_id x) os"
  define level where "level = (mk_plevel ix os)\<lparr>ppl_total_quantity := Quantity (orders_total os - units (o_quantity x))\<rparr>"
  note dist = pooled_rel_atD(8) [OF rel]
  have x_os: "x \<in> set os" using x by (simp add: os_def in_level_orders)
  have os_dist: "distinct (map o_id os)" unfolding os_def by (rule distinct_level_orders [OF dist])
  obtain ns1 ns2 where pool:
    "unlink_node (nodes b) level (ix (o_id x)) = Some (ns1, level\<lparr>
       ppl_head := first_index (order_indices ix os') npos, ppl_tail := last_index (order_indices ix os') npos,
       ppl_order_count := ppl_order_count level - 1\<rparr>)"
    "vec_set ns1 (ix (o_id x)) default_node = Some ns2" "length ns2 = length (nodes b)"
    "pool_rep ix ns2 (free_indices b @ [ix (o_id x)]) ?A'"
    unfolding os'_def
    using pool_remove [OF pooled_rel_atD(6) [OF rel] x dist os_def, of level] by (auto simp: level_def)
  have level': "level\<lparr>ppl_head := first_index (order_indices ix os') npos, ppl_tail := last_index (order_indices ix os') npos,
       ppl_order_count := ppl_order_count level - 1\<rparr> = mk_plevel ix os'"
    using mk_plevel_remove [OF os_dist x_os, of ix] by (simp add: level_def os'_def)
  have "length os' < 2 ^ 64"
    using pool_length_less [OF pooled_rel_atD(6) [OF rel], of ?s ?p] length_remove_order_le [of "o_id x" os]
    by (simp add: os'_def os_def)
  then have empty: "(of_nat (length os') :: size_t) = 0 \<longleftrightarrow> os' = []" by (simp add: of_nat_size_zero_iff)
  define ls where "ls = (if os' = [] then al_erase ?p (pooled_side_levels ?s b)
      else al_assign ?p (mk_plevel ix os') (pooled_side_levels ?s b))"
  define b' where "b' = (pooled_with_side_levels ?s ls (b\<lparr>nodes := ns2, free_indices := free_indices b @ [ix (o_id x)]\<rparr>))\<lparr>
      pooled_order_lookup := al_erase (id_value (o_id x)) (pooled_order_lookup b)\<rparr>"
  have "pooled_remove_existing_order b (id_value (o_id x)) (mk_precord ix x) = Some b'"
    using pool(1) unfolding level'
    by (simp add: pooled_remove_existing_order_def pooled_own_level [OF rel x] level_def os_def
        release_node_def pool(2) empty b'_def ls_def)
  moreover have "pooled_rel (pooled_count_applied b') (snd (spec_commit ?A' S))"
  proof (rule pooled_relI [where ix = ix])
    show "spec_inv (snd (spec_commit ?A' S))"
      by (rule spec_inv_remove [OF pooled_rel_atD(1) [OF rel]])
    show "lookup_rep (mk_precord ix) (pooled_order_lookup (pooled_count_applied b')) (sb_orders (snd (spec_commit ?A' S)))"
      using lookup_rep_remove [OF pooled_rel_atD(4) [OF rel], of "o_id x"]
      by (simp add: b'_def spec_commit_def)
    show "levels_rep (mk_plevel ix) s (pooled_side_levels s (pooled_count_applied b')) (sb_orders (snd (spec_commit ?A' S)))" for s
      using levels_rep_remove [OF pooled_rel_atD(5) [OF rel] dist x, of s]
      by (auto simp: b'_def spec_commit_def os_def os'_def ls_def split: if_splits)
  qed (use pooled_rel_atD [OF rel] pool(3,4) in \<open>simp_all add: spec_commit_def b'_def\<close>)
  ultimately show ?thesis by blast
qed

lemma pooled_rel_same:
  assumes "pooled_rel_at ix b S" and "x \<in> set (sb_orders S)"
  shows "pooled_rel (pooled_count_applied b)
    (snd (spec_commit (set_quantity (o_id x) (o_quantity x) (sb_orders S)) S))"
proof (rule pooled_relI [where ix = ix])
  show "spec_inv (snd (spec_commit (set_quantity (o_id x) (o_quantity x) (sb_orders S)) S))"
    using assms pooled_rel_atD(1) [OF assms(1)]
    by (intro spec_inv_set_quantity) (auto simp: spec_inv_def)
qed (use pooled_rel_atD [OF assms(1)] assms(2) in \<open>simp_all add: spec_commit_def set_quantity_same\<close>)

lemma pooled_rel_lookup:
  assumes "pooled_rel_at ix b S" and "find_order (sb_orders S) i = Some x"
  shows "x \<in> set (sb_orders S)" "o_id x = i"
    "map_of (pooled_order_lookup b) (id_value i) = Some (mk_precord ix x)"
  using assms pooled_rel_atD(7) [OF assms(1), of i] by (auto dest: find_order_SomeD)

lemma pooled_cancel_order_sim:
  assumes rel: "pooled_rel_at ix b S"
  shows "\<exists>b'. pooled_cancel_order b i = Some (fst (spec_cancel S i), b') \<and> pooled_rel b' (snd (spec_cancel S i))"
proof (cases "find_order (sb_orders S) i")
  case None
  with rel show ?thesis
    by (auto simp: pooled_cancel_order_def spec_cancel_def pooled_rel_atD(7) [OF rel] pooled_rel_def)
next
  case (Some x)
  note found = pooled_rel_lookup [OF rel Some]
  from pooled_remove_sim [OF rel found(1)] found Some show ?thesis
    by (auto simp: pooled_cancel_order_def spec_cancel_def) (simp_all add: spec_commit_def)
qed

lemma pooled_modify_order_sim:
  assumes rel: "pooled_rel_at ix b S"
  shows "\<exists>b'. pooled_modify_order b i q = Some (fst (spec_modify S i q), b') \<and> pooled_rel b' (snd (spec_modify S i q))"
proof (cases "units q = 0 \<or> find_order (sb_orders S) i = None")
  case True
  with rel show ?thesis
    by (auto simp: pooled_modify_order_def spec_modify_def pooled_rel_atD(7) [OF rel] pooled_rel_def)
next
  case False
  then obtain x where x: "find_order (sb_orders S) i = Some x" and q: "units q \<noteq> 0" by auto
  note found = pooled_rel_lookup [OF rel x]
  consider "units (o_quantity x) < units q" | "q = o_quantity x" | "units q < units (o_quantity x)"
    using Quantity_eq_iff by (metis linorder_neqE)
  then show ?thesis
  proof cases
    case 1
    with rel found x q show ?thesis by (auto simp: pooled_modify_order_def spec_modify_def pooled_rel_def)
  next
    case 2
    with pooled_rel_same [OF rel found(1)] found x q show ?thesis
      by (auto simp: pooled_modify_order_def spec_modify_def) (simp_all add: spec_commit_def)
  next
    case 3
    from pooled_reduce_sim [OF rel found(1) q, of "units (o_quantity x) - units q"] found x q 3
    show ?thesis
      by (auto simp: pooled_modify_order_def spec_modify_def) (simp_all add: spec_commit_def)
  qed
qed

lemma pooled_execute_order_sim:
  assumes rel: "pooled_rel_at ix b S"
  shows "\<exists>b'. pooled_execute_order b i q = Some (fst (spec_execute S i q), b') \<and> pooled_rel b' (snd (spec_execute S i q))"
proof (cases "units q = 0 \<or> find_order (sb_orders S) i = None")
  case True
  with rel show ?thesis
    by (auto simp: pooled_execute_order_def spec_execute_def pooled_rel_atD(7) [OF rel] pooled_rel_def)
next
  case False
  then obtain x where x: "find_order (sb_orders S) i = Some x" and q: "units q \<noteq> 0" by auto
  note found = pooled_rel_lookup [OF rel x]
  consider "units (o_quantity x) < units q" | "units q = units (o_quantity x)" | "units q < units (o_quantity x)"
    by (metis linorder_neqE)
  then show ?thesis
  proof cases
    case 1
    with rel found x q show ?thesis by (auto simp: pooled_execute_order_def spec_execute_def pooled_rel_def)
  next
    case 2
    from pooled_remove_sim [OF rel found(1)] found x q 2 show ?thesis
      by (auto simp: pooled_execute_order_def spec_execute_def) (simp_all add: spec_commit_def)
  next
    case 3
    then have "units (o_quantity x) - units q \<noteq> 0" by auto
    with pooled_reduce_sim [OF rel found(1), of "Quantity (units (o_quantity x) - units q)" "units q"]
      found x q 3
    show ?thesis
      by (auto simp: pooled_execute_order_def spec_execute_def) (simp_all add: spec_commit_def)
  qed
qed

lemma pooled_apply_event_sim:
  assumes "pooled_rel b S"
  shows "\<exists>b'. pooled_apply_event b e = Some (fst (spec_apply S e), b') \<and> pooled_rel b' (snd (spec_apply S e))"
proof -
  obtain ix where rel: "pooled_rel_at ix b S" using assms by (auto simp: pooled_rel_def)
  show ?thesis
    using pooled_add_order_sim [OF rel, of "event_order e"] pooled_cancel_order_sim [OF rel]
      pooled_modify_order_sim [OF rel] pooled_execute_order_sim [OF rel]
    by (auto simp: pooled_apply_event_def spec_apply_def event_order_def split: EventType.split)
qed

section \<open>The queries answer what the abstract book shows\<close>

lemma walk_nodes_linked:
  assumes pay: "\<And>x. x \<in> set A \<Longrightarrow> payload_of (vec_at ns (ix (o_id x))) = order_payload x"
    and f: "\<And>n x. payload_of (Some n) = order_payload x \<Longrightarrow> f n = g x"
    and npos: "npos \<notin> set (order_indices ix A)"
    and "linked (vec_at ns) pv (order_indices ix A) npos"
  shows "walk_nodes f ns (first_index (order_indices ix A) npos) acc = Some (acc @ map g A)"
  using pay npos assms(4)
proof (induction A arbitrary: acc pv)
  case Nil
  then show ?case by (simp add: walk_nodes.simps)
next
  case (Cons x A)
  from Cons.prems(3) obtain n where n: "vec_at ns (ix (o_id x)) = Some n"
    "nd_next n = first_index (order_indices ix A) npos" by auto
  from n(1) Cons.prems(1) [of x] have "f n = g x" by (intro f) simp
  with Cons.IH [of "ix (o_id x)" "acc @ [f n]"] Cons.prems n show ?case
    by (subst walk_nodes.simps) auto
qed

lemma walk_level:
  assumes rel: "pooled_rel_at ix b S" and f: "\<And>n x. payload_of (Some n) = order_payload x \<Longrightarrow> f n = g x"
  shows "walk_nodes f (nodes b) (ppl_head (mk_plevel ix (level_orders s p (sb_orders S)))) []
    = Some (map g (level_orders s p (sb_orders S)))"
proof -
  note pool = pooled_rel_atD(6) [OF rel]
  let ?os = "level_orders s p (sb_orders S)"
  have "payload_of (vec_at (nodes b) (ix (o_id x))) = order_payload x" if "x \<in> set ?os" for x
    using pool that by (simp add: pool_rep_def in_level_orders)
  from walk_nodes_linked [OF this f pool_level_queue(3) [OF pool] pool_level_queue(1) [OF pool]]
  show ?thesis by simp
qed

lemma payload_fields:
  "payload_of (Some n) = order_payload x \<Longrightarrow>
   nd_order_id n = o_id x \<and> nd_timestamp n = o_timestamp x \<and> nd_quantity n = o_quantity x \<and> nd_active n"
  by (simp add: payload_of_def order_payload_def)

lemma pooled_levels_list:
  assumes "pooled_rel_at ix b S"
  shows "pooled_side_levels s b = map (\<lambda>p. (p, mk_plevel ix (level_orders s p (sb_orders S)))) (spec_prices s (sb_orders S))"
  by (rule levels_rep_list [OF pooled_rel_atD(5) [OF assms]])

lemmas pooled_bids = pooled_levels_list [where s = Buy, simplified]
lemmas pooled_asks = pooled_levels_list [where s = Sell, simplified]

lemma pooled_view_mk: "pooled_make_price_level_view p (mk_plevel ix (level_orders s p A)) = spec_view s A p"
  by (simp add: pooled_make_price_level_view_def spec_view_def)

lemma pooled_begin_view_mk:
  "pooled_begin_view (map (\<lambda>p. (p, mk_plevel ix (level_orders s p A))) ps) = first_view (map (spec_view s A) ps)"
  by (cases ps) (simp_all add: pooled_begin_view_def first_view_def pooled_view_mk)

lemma pooled_depth_loop_take:
  "pooled_depth_loop n ls acc = acc @ take (unat n - length acc) (map (\<lambda>(p, l). pooled_make_price_level_view p l) ls)"
proof (induction ls arbitrary: acc)
  case (Cons pl ls)
  obtain p l where "pl = (p, l)" by force
  moreover have "unat n - length acc = Suc (unat n - Suc (length acc))" if "length acc < unat n"
    using that by simp
  ultimately show ?case using Cons by simp
qed simp

lemma pooled_top_sim: "pooled_rel_at ix b S \<Longrightarrow> pooled_top_of_book b = spec_top S"
  by (simp add: pooled_top_of_book_def spec_top_def spec_views_def pooled_bids pooled_asks pooled_begin_view_mk)

lemma pooled_depth_sim: "pooled_rel_at ix b S \<Longrightarrow> pooled_depth b n = spec_depth S n"
  by (simp add: pooled_depth_def spec_depth_def spec_views_def pooled_bids pooled_asks
      pooled_depth_loop_take comp_def pooled_view_mk)

lemma pooled_append_level_mk:
  assumes "pooled_rel_at ix b S"
  shows "pooled_append_level b p (mk_plevel ix (level_orders s p (sb_orders S)))
    = Some (spec_level_snapshot s (sb_orders S) p)"
proof -
  have "walk_nodes node_view (nodes b) (ppl_head (mk_plevel ix (level_orders s p (sb_orders S)))) []
      = Some (map order_view (level_orders s p (sb_orders S)))"
    by (rule walk_level [OF assms]) (auto simp: node_view_def order_view_def dest: payload_fields)
  then show ?thesis by (simp add: pooled_append_level_def spec_level_snapshot_def)
qed

lemma pooled_snapshot_loop_mk:
  assumes "pooled_rel_at ix b S"
  shows "pooled_snapshot_loop b (map (\<lambda>p. (p, mk_plevel ix (level_orders s p (sb_orders S)))) ps)
    = Some (map (spec_level_snapshot s (sb_orders S)) ps)"
  by (induction ps) (simp_all add: pooled_append_level_mk [OF assms])

lemma pooled_snapshot_sim: "pooled_rel_at ix b S \<Longrightarrow> pooled_snapshot b = Some (spec_snapshot S)"
  by (simp add: pooled_snapshot_def spec_snapshot_def pooled_bids pooled_asks pooled_snapshot_loop_mk)

lemma pooled_ids_sim:
  assumes "pooled_rel_at ix b S"
  shows "pooled_order_ids_at_price b s p = Some (spec_ids_at_price S s p)"
proof -
  have "walk_nodes nd_order_id (nodes b) (ppl_head (mk_plevel ix (level_orders s (ticks p) (sb_orders S)))) []
      = Some (map o_id (level_orders s (ticks p) (sb_orders S)))"
    by (rule walk_level [OF assms]) (auto dest: payload_fields)
  then show ?thesis
    by (simp add: pooled_order_ids_at_price_def pooled_find_level_side spec_ids_at_price_def
        levels_rep_find [OF pooled_rel_atD(5) [OF assms]] level_value_def)
qed

lemma pooled_live_sim: "pooled_rel_at ix b S \<Longrightarrow> length (pooled_order_lookup b) = length (sb_orders S)"
  by (rule lookup_rep_length [OF pooled_rel_atD(4) pooled_rel_atD(8)])

section \<open>The invariant check\<close>

lemma validate_nodes_linked:
  assumes rel: "pooled_rel_at ix b S"
  shows "set xs \<subseteq> set (level_orders s p (sb_orders S)) \<Longrightarrow> distinct (order_keys xs) \<Longrightarrow>
    set (order_keys xs) \<inter> set seen = {} \<Longrightarrow> linked (vec_at (nodes b)) pv (order_indices ix xs) npos \<Longrightarrow>
    pooled_validate_nodes b s p (first_index (order_indices ix xs) npos) pv c t seen
      = Some (Some (last_index (order_indices ix xs) pv, c + of_nat (length xs), t + orders_total xs,
          rev (order_keys xs) @ seen))"
proof (induction xs arbitrary: pv c t seen)
  case Nil
  then show ?case by (simp add: pooled_validate_nodes.simps orders_total_def)
next
  case (Cons x xs)
  from Cons.prems(1) have x: "x \<in> set (sb_orders S)" "o_side x = s" "ticks (o_price x) = p"
    by (simp_all add: in_level_orders)
  note pool = pooled_rel_atD(6) [OF rel]
  from Cons.prems(4) obtain n where n: "vec_at (nodes b) (ix (o_id x)) = Some n" "nd_prev n = pv"
    "nd_next n = first_index (order_indices ix xs) npos"
    and rest: "linked (vec_at (nodes b)) (ix (o_id x)) (order_indices ix xs) npos" by auto
  have "payload_of (vec_at (nodes b) (ix (o_id x))) = order_payload x"
    using pool x(1) by (simp add: pool_rep_def)
  with n(1) have fields: "nd_order_id n = o_id x" "nd_timestamp n = o_timestamp x"
    "nd_quantity n = o_quantity x" "nd_active n" using payload_fields [of n x] by auto
  have "find_order (sb_orders S) (o_id x) = Some x"
    by (simp add: find_order_Some_iff [OF pooled_rel_atD(8) [OF rel]] x)
  moreover have "units (o_quantity x) \<noteq> 0"
    using pooled_rel_atD(1) [OF rel] x by (auto simp: spec_inv_def)
  moreover have "pooled_validate_nodes b s p (first_index (order_indices ix xs) npos) (ix (o_id x)) (c + 1)
      (t + units (o_quantity x)) (id_value (o_id x) # seen)
    = Some (Some (last_index (order_indices ix xs) (ix (o_id x)), c + 1 + of_nat (length xs),
        t + units (o_quantity x) + orders_total xs, rev (order_keys xs) @ id_value (o_id x) # seen))"
    using Cons.prems rest by (intro Cons.IH) auto
  ultimately show ?case
    using Cons.prems x pooled_rel_atD(7) [OF rel, of "o_id x"] pool_index_valid(2) [OF pool x(1)]
    by (subst pooled_validate_nodes.simps)
      (simp add: n fields orders_total_def add.assoc last_index_Cons)
qed

lemma pooled_validate_level_mk:
  assumes rel: "pooled_rel_at ix b S" and ne: "level_orders s p (sb_orders S) \<noteq> []"
    and seen: "set (order_keys (level_orders s p (sb_orders S))) \<inter> set seen = {}"
  shows "pooled_validate_level b s p (mk_plevel ix (level_orders s p (sb_orders S))) seen
    = Some (Some (rev (order_keys (level_orders s p (sb_orders S))) @ seen))"
proof -
  let ?os = "level_orders s p (sb_orders S)"
  note queue = pool_level_queue [OF pooled_rel_atD(6) [OF rel], of s p]
  have "(of_nat (length ?os) :: size_t) \<noteq> 0"
    using pool_length_less [OF pooled_rel_atD(6) [OF rel]] ne by (simp add: of_nat_size_zero_iff)
  moreover have "first_index (order_indices ix ?os) npos \<noteq> npos"
    using queue(3) ne by (cases ?os) auto
  moreover have "last_index (order_indices ix ?os) npos \<noteq> npos"
    using last_index_npos_iff [OF queue(3)] ne by (simp add: order_indices_def)
  ultimately show ?thesis
    using validate_nodes_linked [OF rel _ _ seen queue(1), where c = 0 and t = 0]
      distinct_order_keys [OF distinct_level_orders [OF pooled_rel_atD(8) [OF rel]]]
    by (simp add: pooled_validate_level_def)
qed

lemma pooled_validate_levels_mk:
  assumes rel: "pooled_rel_at ix b S"
  shows "distinct ps \<Longrightarrow> (\<forall>p \<in> set ps. level_orders s p (sb_orders S) \<noteq> []
      \<and> set (order_keys (level_orders s p (sb_orders S))) \<inter> set seen = {}) \<Longrightarrow>
    pooled_validate_levels b s (map (\<lambda>p. (p, mk_plevel ix (level_orders s p (sb_orders S)))) ps) seen
    = Some (Some (rev (concat (map (\<lambda>p. order_keys (level_orders s p (sb_orders S))) ps)) @ seen))"
proof (induction ps arbitrary: seen)
  case (Cons p ps)
  have "set (order_keys (level_orders s p' (sb_orders S)))
      \<inter> set (rev (order_keys (level_orders s p (sb_orders S))) @ seen) = {}" if "p' \<in> set ps" for p'
    using Cons.prems that levels_keys_disjoint [OF pooled_rel_atD(8) [OF rel], of p' p s s] by auto
  with Cons show ?case by (simp add: pooled_validate_level_mk [OF rel])
qed simp

lemma pooled_validate_sides_mk:
  assumes rel: "pooled_rel_at ix b S"
  shows "pooled_validate_levels b Buy (pooled_bid_levels b) [] = Some (Some (rev (side_keys Buy (sb_orders S))))"
    and "pooled_validate_levels b Sell (pooled_ask_levels b) (rev (side_keys Buy (sb_orders S)))
      = Some (Some (rev (side_keys Sell (sb_orders S)) @ rev (side_keys Buy (sb_orders S))))"
proof -
  let ?A = "sb_orders S"
  have dist: "distinct (spec_prices s ?A)" for s
    by (rule side_cmp.sorted_keys_distinct [OF sorted_spec_prices])
  show "pooled_validate_levels b Buy (pooled_bid_levels b) [] = Some (Some (rev (side_keys Buy ?A)))"
    using pooled_validate_levels_mk [OF rel dist [of Buy], where s = Buy and seen = "[]"]
    by (simp add: pooled_bids [OF rel] side_keys_def set_spec_prices)
  have "set (order_keys (level_orders Sell p ?A)) \<inter> set (side_keys Buy ?A) = {}" for p
    using levels_keys_disjoint [OF pooled_rel_atD(8) [OF rel], of p _ Sell Buy] by (auto simp: side_keys_def)
  then show "pooled_validate_levels b Sell (pooled_ask_levels b) (rev (side_keys Buy ?A))
      = Some (Some (rev (side_keys Sell ?A) @ rev (side_keys Buy ?A)))"
    using pooled_validate_levels_mk [OF rel dist [of Sell], where s = Sell and seen = "rev (side_keys Buy ?A)"]
    by (simp add: pooled_asks [OF rel] side_keys_def set_spec_prices)
qed

lemma pooled_crossed_sim: "pooled_rel_at ix b S \<Longrightarrow> pooled_crossed b \<longleftrightarrow> spec_crossed S"
  unfolding crossed_prices_iff pooled_crossed_def
  by (cases "spec_prices Buy (sb_orders S)"; cases "spec_prices Sell (sb_orders S)")
    (simp_all add: pooled_bids pooled_asks)

lemma pooled_validate_top_holds: "pooled_validate_top b"
  by (cases "pooled_bid_levels b"; cases "pooled_ask_levels b")
    (auto simp: pooled_validate_top_def pooled_top_of_book_def pooled_begin_view_def)

lemma pooled_lookup_entries_sim:
  assumes rel: "pooled_rel_at ix b S" and kr: "(k, r) \<in> set (pooled_order_lookup b)"
  shows "k \<in> set (order_keys (sb_orders S))"
    and "case vec_at (nodes b) (por_node_index r) of None \<Rightarrow> False | Some node \<Rightarrow> nd_active node"
    and "pooled_find_level b (por_side r) (por_price r) \<noteq> None"
proof -
  have "map_of (pooled_order_lookup b) k = Some r"
    using pooled_rel_atD(4) [OF rel] kr by (simp add: lookup_rep_def)
  then have "map_option (mk_precord ix) (find_order (sb_orders S) (OrderId k)) = Some r"
    using pooled_rel_atD(7) [OF rel, of "OrderId k"] by simp
  then obtain x where x: "x \<in> set (sb_orders S)" "o_id x = OrderId k" "r = mk_precord ix x"
    by (auto dest: find_order_SomeD)
  have "payload_of (vec_at (nodes b) (ix (o_id x))) = order_payload x"
    using pooled_rel_atD(6) [OF rel] x(1) by (simp add: pool_rep_def)
  then show "case vec_at (nodes b) (por_node_index r) of None \<Rightarrow> False | Some node \<Rightarrow> nd_active node"
    by (auto simp: x(3) payload_of_def order_payload_def)
  show "k \<in> set (order_keys (sb_orders S))"
    using x by (force simp: order_keys_def)
  show "pooled_find_level b (por_side r) (por_price r) \<noteq> None"
    using pooled_own_level [OF rel x(1)] by (simp add: pooled_find_level_side x(3))
qed

lemma pooled_validate_sim:
  assumes rel: "pooled_rel_at ix b S"
  shows "pooled_validate_invariants b opts = Some (allow_crossed_book opts \<or> \<not> spec_crossed S)"
proof -
  let ?A = "sb_orders S"
  let ?seen = "rev (side_keys Sell ?A) @ rev (side_keys Buy ?A)"
  note dist = pooled_rel_atD(8) [OF rel]
  have keys: "set ?seen = set (order_keys ?A)" by (rule all_side_keys [OF dist])
  have "length ?seen = length (pooled_order_lookup b)"
    using length_side_keys [OF dist] pooled_live_sim [OF rel] by simp
  then have "pooled_validate_lookup b ?seen"
    unfolding pooled_validate_lookup_def list_all_iff keys using pooled_lookup_entries_sim [OF rel] by auto
  then show ?thesis
    by (simp add: pooled_validate_invariants_def pooled_crossed_sim [OF rel] pooled_validate_sides_mk [OF rel]
        pooled_validate_top_holds)
qed

section \<open>The pooled book implements the interface\<close>

lemma free_list_loop_rev: "free_list_loop n acc = acc @ map of_nat (rev [0..<n])"
  by (induction n arbitrary: acc) simp_all

lemma reset_free_list_pool:
  assumes "length (nodes b) \<le> node_max_size"
  shows "pool_rep ix (nodes (reset_free_list b)) (free_indices (reset_free_list b)) []"
proof -
  let ?n = "length (nodes b)"
  have small: "i < 2 ^ 64" if "i < ?n" for i
    using that assms node_max_size_less by simp
  have "inj_on (of_nat :: nat \<Rightarrow> size_t) {0..<?n}"
    using small by (auto simp: inj_on_def of_nat_size_inj)
  moreover have "unat (of_nat i :: size_t) < ?n" if "i < ?n" for i
    using that small [OF that] by (simp add: unat_of_nat)
  ultimately show ?thesis
    using assms by (auto simp: pool_rep_def reset_free_list_def free_list_loop_rev distinct_map level_orders_def)
qed

lemma pooled_rel_empty:
  assumes "length (nodes b) \<le> node_max_size" and "pooled_bid_levels b = []" and "pooled_ask_levels b = []"
    and "pooled_order_lookup b = []" and "st_events_applied (pooled_stats b) = 0"
  shows "pooled_rel (reset_free_list b) (spec_empty (Some (length (nodes b))))"
proof (rule pooled_relI)
  show "spec_inv (spec_empty (Some (length (nodes b))))" by (rule spec_inv_empty)
  show "pool_rep (\<lambda>_. 0) (nodes (reset_free_list b)) (free_indices (reset_free_list b))
      (sb_orders (spec_empty (Some (length (nodes b)))))"
    using reset_free_list_pool [OF assms(1)] by (simp add: spec_empty_def)
  show "levels_rep (mk_plevel (\<lambda>_. 0)) s (pooled_side_levels s (reset_free_list b))
      (sb_orders (spec_empty (Some (length (nodes b)))))" for s
    using assms(2,3)
    by (cases s) (simp_all add: reset_free_list_def spec_empty_def levels_rep_def level_value_def level_orders_def)
qed (use assms in \<open>simp_all add: spec_empty_def reset_free_list_def lookup_rep_def find_order_def\<close>)

lemma pooled_rel_new:
  assumes "new_pooled_book n = Inr b"
  shows "pooled_rel b (spec_empty (Some (unat n)))"
proof -
  let ?b0 = "\<lparr>nodes = replicate (unat n) default_node, free_indices = [],
        pooled_bid_levels = [], pooled_ask_levels = [], pooled_order_lookup = [],
        pooled_stats = \<lparr>st_events_applied = 0\<rparr>\<rparr>"
  have "b = reset_free_list ?b0" and "unat n \<le> node_max_size"
    using assms by (auto simp: new_pooled_book_def split: if_splits)
  with pooled_rel_empty [of ?b0] show ?thesis by simp
qed

lemma pooled_rel_clear:
  assumes "pooled_rel b S"
  shows "pooled_rel (pooled_clear b) (spec_clear S)"
proof -
  obtain ix where rel: "pooled_rel_at ix b S" using assms by (auto simp: pooled_rel_def)
  let ?b0 = "b\<lparr>pooled_bid_levels := [], pooled_ask_levels := [],
     pooled_order_lookup := [], pooled_stats := \<lparr>st_events_applied = 0\<rparr>\<rparr>"
  have "length (nodes b) \<le> node_max_size" using pooled_rel_atD(6) [OF rel] by (simp add: pool_rep_def)
  with pooled_rel_empty [of ?b0] show ?thesis
    by (simp add: pooled_clear_def spec_clear_def pooled_rel_atD(2) [OF rel])
qed

interpretation pooled: order_book pooled_rel pooled_apply_event pooled_clear pooled_top_of_book pooled_depth
  pooled_snapshot pooled_order_ids_at_price pooled_validate_invariants pooled_events_applied pooled_live_order_count
proof unfold_locales
  fix b S
  assume "pooled_rel b S"
  then obtain ix where rel: "pooled_rel_at ix b S" by (auto simp: pooled_rel_def)
  show "spec_inv S" by (rule pooled_rel_atD(1) [OF rel])
  show "pooled_top_of_book b = spec_top S" by (rule pooled_top_sim [OF rel])
  show "pooled_depth b n = spec_depth S n" for n by (rule pooled_depth_sim [OF rel])
  show "pooled_snapshot b = Some (spec_snapshot S)" by (rule pooled_snapshot_sim [OF rel])
  show "pooled_order_ids_at_price b s p = Some (spec_ids_at_price S s p)" for s p
    by (rule pooled_ids_sim [OF rel])
  show "pooled_validate_invariants b opts = Some (allow_crossed_book opts \<or> \<not> spec_crossed S)" for opts
    by (rule pooled_validate_sim [OF rel])
  show "pooled_events_applied b = sb_applied S"
    by (simp add: pooled_events_applied_def pooled_rel_atD(3) [OF rel])
  show "pooled_live_order_count b = of_nat (length (sb_orders S))"
    by (simp add: pooled_live_order_count_def pooled_live_sim [OF rel])
qed (auto intro: pooled_apply_event_sim pooled_rel_clear)

end
