(* ===== verification/Pooled_Book_Properties.thy ===== *)
theory Pooled_Book_Properties
  imports Pooled_Refinement
begin

text \<open>
  What the refinement says about the pooled book: every event sequence runs without undefined
  behaviour and all its traversals end, the capacity is exact, no pool index is lost or used
  twice, and rejected events, the invariant check and \<open>clear\<close> behave as in the baseline book.
\<close>

section \<open>Reachable books\<close>

inductive pooled_reachable :: "size_t \<Rightarrow> PooledLimitOrderBook \<Rightarrow> bool" for n where
  pooled_reach_new: "new_pooled_book n = Inr b \<Longrightarrow> pooled_reachable n b"
| pooled_reach_apply: "pooled_reachable n b \<Longrightarrow> pooled_apply_event b e = Some (r, b') \<Longrightarrow> pooled_reachable n b'"
| pooled_reach_clear: "pooled_reachable n b \<Longrightarrow> pooled_reachable n (pooled_clear b)"

lemma pooled_reachable_rel: "pooled_reachable n b \<Longrightarrow> \<exists>S. pooled_rel b S \<and> sb_capacity S = Some (unat n)"
proof (induction rule: pooled_reachable.induct)
  case (pooled_reach_new b)
  from pooled_rel_new [OF this] show ?case by (auto simp: spec_empty_def)
next
  case (pooled_reach_apply b e r b')
  then obtain S where S: "pooled_rel b S" "sb_capacity S = Some (unat n)" by blast
  from pooled.apply_sim [OF S(1), of e] pooled_reach_apply.hyps(2)
  have "pooled_rel b' (snd (spec_apply S e))" by auto
  with S(2) show ?case by (metis spec_apply_capacity)
next
  case (pooled_reach_clear b)
  then show ?case using pooled_rel_clear by (fastforce simp: spec_clear_def spec_empty_def)
qed

lemma pooled_reachable_at:
  assumes "pooled_reachable n b"
  obtains S ix where "pooled_rel b S" "pooled_rel_at ix b S" "length (nodes b) = unat n"
proof -
  obtain S where S: "pooled_rel b S" "sb_capacity S = Some (unat n)" using pooled_reachable_rel [OF assms] by blast
  then obtain ix where ix: "pooled_rel_at ix b S" by (auto simp: pooled_rel_def)
  with S pooled_rel_atD(2) [OF ix] show ?thesis by (intro that) auto
qed

lemma pooled_reachable_run:
  "pooled_reachable n b \<Longrightarrow> run_book pooled_apply_event b es = Some (rs, b') \<Longrightarrow> pooled_reachable n b'"
  by (induction es arbitrary: b rs) (auto simp: bind_eq_Some_conv intro: pooled_reach_apply)

lemma pooled_record_quantity:
  assumes "pooled_rel_at ix b S"
  shows "map_option por_quantity (map_of (pooled_order_lookup b) (id_value i)) = order_quantity S i"
  by (cases "find_order (sb_orders S) i") (simp_all add: order_quantity_def pooled_rel_atD(7) [OF assms])

lemma pool_indices_mset:
  assumes "pool_rep ix ns free A"
  shows "mset (order_indices ix A @ free) = mset (map of_nat [0..<length ns])"
proof -
  let ?is = "order_indices ix A @ free" and ?all = "map of_nat [0..<length ns] :: size_t list"
  have small: "length ns < 2 ^ 64" using assms node_max_size_less by (simp add: pool_rep_def)
  have dist: "distinct ?is" and len: "length ?is = length ns"
    using assms by (auto simp: pool_rep_def order_indices_def)
  have dist_all: "distinct ?all"
    using small by (auto simp: distinct_map inj_on_def of_nat_size_inj)
  have "i \<in> set ?all" if "i \<in> set ?is" for i
  proof -
    have "unat i < length ns"
      using that assms pool_index_valid(1) [OF assms] by (auto simp: pool_rep_def order_indices_def)
    then show ?thesis by (auto intro!: image_eqI [of _ _ "unat i"])
  qed
  then have "set ?is \<subseteq> set ?all" by blast
  moreover have "card (set ?is) = card (set ?all)"
    using distinct_card [OF dist] distinct_card [OF dist_all] len by simp
  ultimately have "set ?is = set ?all" by (intro card_subset_eq) auto
  then show ?thesis using dist dist_all set_eq_iff_mset_eq_distinct by blast
qed

definition pooled_sample_events :: "MarketEvent list" where
  "pooled_sample_events =
     [\<lparr>ev_type = Add, ev_timestamp = Timestamp 1, ev_order_id = OrderId 1, ev_side = Buy, ev_price = Price 100, ev_quantity = Quantity 5\<rparr>,
      \<lparr>ev_type = Add, ev_timestamp = Timestamp 2, ev_order_id = OrderId 2, ev_side = Buy, ev_price = Price 100, ev_quantity = Quantity 7\<rparr>,
      \<lparr>ev_type = Cancel, ev_timestamp = Timestamp 3, ev_order_id = OrderId 1, ev_side = Buy, ev_price = Price 0, ev_quantity = Quantity 0\<rparr>,
      \<lparr>ev_type = Add, ev_timestamp = Timestamp 4, ev_order_id = OrderId 3, ev_side = Sell, ev_price = Price 105, ev_quantity = Quantity 4\<rparr>]"

definition pooled_sample_start :: PooledLimitOrderBook where
  "pooled_sample_start = projr (new_pooled_book 2)"

definition pooled_sample_book :: PooledLimitOrderBook where
  "pooled_sample_book = snd (the (run_book pooled_apply_event pooled_sample_start pooled_sample_events))"

lemma pooled_sample_new: "new_pooled_book 2 = Inr pooled_sample_start"
  unfolding pooled_sample_start_def by (simp add: new_pooled_book_def node_max_size_def)

lemma pooled_sample_start_value [code]:
  "pooled_sample_start = reset_free_list \<lparr>nodes = [default_node, default_node], free_indices = [],
        pooled_bid_levels = [], pooled_ask_levels = [], pooled_order_lookup = [],
        pooled_stats = \<lparr>st_events_applied = 0\<rparr>\<rparr>"
proof -
  have two: "unat (2 :: size_t) = Suc (Suc 0)" by simp
  have "Suc (Suc 0) \<le> node_max_size" by (simp add: node_max_size_def)
  then show ?thesis
    using pooled_sample_new unfolding new_pooled_book_def two by simp
qed

lemma pooled_sample_run:
  "run_book pooled_apply_event pooled_sample_start pooled_sample_events
     = Some ([Applied, Applied, Applied, Applied], pooled_sample_book)"
  unfolding pooled_sample_book_def by code_simp

lemma pooled_sample_reachable: "pooled_reachable 2 pooled_sample_book"
  by (rule pooled_reachable_run [OF pooled_reach_new [OF pooled_sample_new] pooled_sample_run])

definition pooled_sample_next :: PooledLimitOrderBook where
  "pooled_sample_next = snd (the (pooled_cancel_order pooled_sample_book (OrderId 3)))"

lemma pooled_sample_step:
  "pooled_apply_event pooled_sample_book \<lparr>ev_type = Cancel, ev_timestamp = Timestamp 5, ev_order_id = OrderId 3,
     ev_side = Buy, ev_price = Price 0, ev_quantity = Quantity 0\<rparr> = Some (Applied, pooled_sample_next)"
  unfolding pooled_sample_next_def by code_simp

lemma pooled_sample_values:
  "pooled_crossed pooled_sample_book = False" "pooled_live_order_count pooled_sample_book = 2"
  "map_of (pooled_order_lookup pooled_sample_book) 9 = None"
  "map (\<lambda>e. por_node_index (snd e)) (pooled_order_lookup pooled_sample_book) = [0, 1]"
  by code_simp+

section \<open>Properties\<close>

text \<open>C2: any sequence of events applied to a newly constructed pooled book runs without undefined
  behaviour (no index outside the pool, no null level), every event returns the result of the
  abstract book with that capacity, and the book it ends in represents the live orders.\<close>

theorem pooled_refines:
  assumes "new_pooled_book n = Inr b0"
  shows "\<exists>b. run_book pooled_apply_event b0 es = Some (fst (spec_run (spec_empty (Some (unat n))) es), b)
     \<and> pooled_rel b (snd (spec_run (spec_empty (Some (unat n))) es))"
  by (rule pooled.run_sim [OF pooled_rel_new [OF assms]])

theorem pooled_refines_witness:
  "new_pooled_book 2 = Inr pooled_sample_start
     \<and> (\<exists>b. run_book pooled_apply_event pooled_sample_start pooled_sample_events
          = Some (fst (spec_run (spec_empty (Some (unat (2 :: size_t)))) pooled_sample_events), b)
        \<and> pooled_rel b (snd (spec_run (spec_empty (Some (unat (2 :: size_t)))) pooled_sample_events)))"
  using pooled_refines [OF pooled_sample_new] pooled_sample_new by blast

text \<open>C22: after any sequence of events all queries of the pooled book return (the traversals of the
  linked queues end) and answer what the live orders in arrival order determine.\<close>

theorem pooled_queries:
  assumes "new_pooled_book n = Inr b0"
  shows "\<exists>rs b. run_book pooled_apply_event b0 es = Some (rs, b)
     \<and> (let S = snd (spec_run (spec_empty (Some (unat n))) es) in
        pooled_top_of_book b = spec_top S \<and> pooled_depth b k = spec_depth S k
      \<and> pooled_snapshot b = Some (spec_snapshot S)
      \<and> pooled_order_ids_at_price b s p = Some (spec_ids_at_price S s p)
      \<and> pooled_live_order_count b = of_nat (length (sb_orders S)) \<and> pooled_events_applied b = sb_applied S
      \<and> pooled_capacity b = n)"
proof -
  let ?S = "snd (spec_run (spec_empty (Some (unat n))) es)"
  obtain b where run: "run_book pooled_apply_event b0 es = Some (fst (spec_run (spec_empty (Some (unat n))) es), b)"
    and rel: "pooled_rel b ?S"
    using pooled.run_sim [OF pooled_rel_new [OF assms]] by blast
  have "length (nodes b) = unat n"
    using pooled_reachable_run [OF pooled_reach_new [OF assms] run] by (auto elim: pooled_reachable_at)
  with run rel show ?thesis
    by (simp add: Let_def pooled.top_sim pooled.depth_sim pooled.snapshot_sim pooled.ids_sim pooled.live_sim
        pooled.count_sim pooled_capacity_def)
qed

theorem pooled_queries_witness:
  "new_pooled_book 2 = Inr pooled_sample_start
     \<and> (\<exists>rs b. run_book pooled_apply_event pooled_sample_start pooled_sample_events = Some (rs, b)
        \<and> pooled_top_of_book b = spec_top (snd (spec_run (spec_empty (Some (unat (2 :: size_t)))) pooled_sample_events)))"
  using pooled_queries [OF pooled_sample_new, of pooled_sample_events 0 Buy "Price 0"] pooled_sample_new
  by (auto simp: Let_def)

text \<open>Price-time priority in the pooled book: an added order joins the end of the queue at its
  price, a cancelled or fully executed order leaves, every other order keeps its place.\<close>

theorem pooled_priority:
  assumes "pooled_reachable n b" and "pooled_apply_event b e = Some (Applied, b')"
  shows "\<exists>is. pooled_order_ids_at_price b s p = Some is \<and> pooled_order_ids_at_price b' s p = Some (next_ids e
    (map_option por_quantity (map_of (pooled_order_lookup b) (id_value (ev_order_id e))) = Some (ev_quantity e)) s p is)"
proof -
  obtain S ix where rel: "pooled_rel b S" "pooled_rel_at ix b S" using assms(1) by (rule pooled_reachable_at)
  from pooled.queue_priority [OF rel(1) assms(2) pooled.ids_sim [OF rel(1)]] pooled.ids_sim [OF rel(1)]
  show ?thesis by (simp add: pooled_record_quantity [OF rel(2)])
qed

theorem pooled_priority_witness:
  "pooled_reachable 2 pooled_sample_book \<and> pooled_apply_event pooled_sample_book \<lparr>ev_type = Cancel,
     ev_timestamp = Timestamp 5, ev_order_id = OrderId 3, ev_side = Buy, ev_price = Price 0, ev_quantity = Quantity 0\<rparr>
       = Some (Applied, pooled_sample_next)
     \<and> (\<exists>is. pooled_order_ids_at_price pooled_sample_book Sell (Price 105) = Some is
        \<and> pooled_order_ids_at_price pooled_sample_next Sell (Price 105) = Some (filter (\<lambda>i. i \<noteq> OrderId 3) is))"
  using pooled_priority [OF pooled_sample_reachable pooled_sample_step, of Sell "Price 105"]
    pooled_sample_reachable pooled_sample_step
  by (auto simp: next_ids_def)

text \<open>C16: the capacity is exact. In a reachable pooled book constructed for \<open>n\<close> orders at most \<open>n\<close> orders
  are live, and an add of a new order with a positive quantity is refused with
  \<open>CapacityExceeded\<close> exactly when \<open>n\<close> orders are live.\<close>

theorem pooled_capacity_exact:
  assumes "pooled_reachable n b" and "pooled_add_order b i s p q t = Some (r, b')"
  shows "pooled_live_order_count b \<le> n \<and>
    (r = CapacityExceeded \<longleftrightarrow> units q \<noteq> 0 \<and> map_of (pooled_order_lookup b) (id_value i) = None
       \<and> pooled_live_order_count b = n)"
proof -
  obtain S ix where rel: "pooled_rel b S" "pooled_rel_at ix b S" "length (nodes b) = unat n"
    using assms(1) by (rule pooled_reachable_at)
  let ?k = "length (pooled_order_lookup b)"
  have k: "?k = length (sb_orders S)" by (rule pooled_live_sim [OF rel(2)])
  then have le: "?k \<le> unat n"
    using pooled_rel_atD(1,2) [OF rel(2)] rel(3) by (simp add: spec_inv_def)
  then have count: "unat (pooled_live_order_count b) = ?k"
    using unat_size_less [of n] by (simp add: pooled_live_order_count_def unat_of_nat)
  then have "at_capacity S \<longleftrightarrow> pooled_live_order_count b = n"
    using le k pooled_rel_atD(2) [OF rel(2)] rel(3) unat_eq_iff [of "pooled_live_order_count b" n]
    by (auto simp: at_capacity_def)
  moreover have "r = fst (spec_add S \<lparr>o_id = i, o_side = s, o_price = p, o_timestamp = t, o_quantity = q\<rparr>)"
    using pooled_add_order_sim [OF rel(2), of "\<lparr>o_id = i, o_side = s, o_price = p, o_timestamp = t, o_quantity = q\<rparr>"]
      assms(2) by simp
  ultimately show ?thesis
    using le count by (auto simp: spec_add_def spec_commit_def pooled_rel_atD(7) [OF rel(2)] word_le_nat_alt)
qed

theorem pooled_capacity_exact_witness:
  "pooled_reachable 2 pooled_sample_book \<and> pooled_live_order_count pooled_sample_book = 2
     \<and> (\<exists>b'. pooled_add_order pooled_sample_book (OrderId 9) Buy (Price 1) (Quantity 1) (Timestamp 0)
          = Some (CapacityExceeded, b'))"
proof -
  let ?r = "pooled_add_order pooled_sample_book (OrderId 9) Buy (Price 1) (Quantity 1) (Timestamp 0)"
  obtain r b' where r: "?r = Some (r, b')"
    using pooled_sample_reachable pooled_add_order_sim
    by (elim pooled_reachable_at) (metis order.select_convs)
  from pooled_capacity_exact [OF pooled_sample_reachable this] have "r = CapacityExceeded"
    by (simp add: pooled_sample_values)
  with r show ?thesis using pooled_sample_reachable by (simp add: pooled_sample_values)
qed

text \<open>C10: no pool index is lost or used twice. In a reachable pooled book the free indices together
  with the node indices of the live orders are exactly the indices of the pool, each once.\<close>

theorem pooled_no_leak:
  assumes "pooled_reachable n b"
  shows "mset (map (\<lambda>e. por_node_index (snd e)) (pooled_order_lookup b)) + mset (free_indices b)
    = mset (map of_nat [0..<unat n])"
proof -
  obtain S ix where rel: "pooled_rel_at ix b S" "length (nodes b) = unat n"
    using assms by (rule pooled_reachable_at)
  have "mset (map por_node_index (map snd (pooled_order_lookup b)))
      = mset (map por_node_index (map (mk_precord ix) (sb_orders S)))"
    using lookup_rep_mset [OF pooled_rel_atD(4) [OF rel(1)] pooled_rel_atD(8) [OF rel(1)]]
    by (metis mset_map)
  also have "map por_node_index (map (mk_precord ix) (sb_orders S)) = order_indices ix (sb_orders S)"
    by (simp add: order_indices_def)
  finally show ?thesis
    using pool_indices_mset [OF pooled_rel_atD(6) [OF rel(1)]] rel(2) by (simp add: comp_def)
qed

theorem pooled_no_leak_witness:
  "pooled_reachable 2 pooled_sample_book
     \<and> mset (map (\<lambda>e. por_node_index (snd e)) (pooled_order_lookup pooled_sample_book)) = {#0, 1#}
     \<and> free_indices pooled_sample_book = []"
proof -
  have "[0..<unat (2 :: size_t)] = [0, 1]" by (simp add: upt_rec)
  then have "mset (map of_nat [0..<unat (2 :: size_t)]) = {#0, 1 :: size_t#}" by (simp only: list.map mset.simps) simp
  with pooled_no_leak [OF pooled_sample_reachable] pooled_sample_reachable show ?thesis
    by (simp add: pooled_sample_values)
qed

text \<open>An event that the pooled book does not apply leaves the whole book as it was, the free list
  included.\<close>

theorem pooled_rejected_unchanged:
  assumes "pooled_apply_event b e = Some (r, b')" and "r \<noteq> Applied"
  shows "b' = b"
  using assms
  by (auto simp: pooled_apply_event_def pooled_add_order_def pooled_modify_order_def pooled_cancel_order_def
      pooled_execute_order_def pooled_reduce_order_def allocate_node_def bind_eq_Some_conv Let_def
      split: EventType.splits option.splits if_splits)

theorem pooled_rejected_unchanged_witness:
  "\<exists>b'. pooled_apply_event pooled_sample_book (hd pooled_sample_events) = Some (CapacityExceeded, b')
     \<and> b' = pooled_sample_book"
proof -
  let ?r = "pooled_apply_event pooled_sample_book (hd pooled_sample_events)"
  have "?r = Some (CapacityExceeded, snd (the ?r))" by code_simp
  from pooled_rejected_unchanged [OF this] this show ?thesis by auto
qed

text \<open>C34: on every reachable pooled book \<open>validate_invariants\<close> returns, and it reports failure only for
  a crossed book when crossed books are not allowed.\<close>

theorem pooled_invariants_hold:
  assumes "pooled_reachable n b"
  shows "pooled_validate_invariants b opts = Some (allow_crossed_book opts \<or> \<not> pooled_crossed b)"
proof -
  obtain S ix where rel: "pooled_rel_at ix b S" using assms by (rule pooled_reachable_at)
  show ?thesis using pooled_validate_sim [OF rel] pooled_crossed_sim [OF rel] by simp
qed

theorem pooled_invariants_hold_witness:
  "pooled_reachable 2 pooled_sample_book
     \<and> pooled_validate_invariants pooled_sample_book \<lparr>allow_crossed_book = False\<rparr> = Some True"
  using pooled_invariants_hold [OF pooled_sample_reachable] pooled_sample_reachable by (simp add: pooled_sample_values)

text \<open>\<open>clear\<close> gives back every node: on a cleared reachable book every sequence of events returns
  the same results and ends in the same snapshot as on a newly constructed one.\<close>

theorem pooled_clear_is_new:
  assumes "pooled_reachable n b" and "new_pooled_book n = Inr b0"
  shows "\<exists>rs b1 b2. run_book pooled_apply_event (pooled_clear b) es = Some (rs, b1)
     \<and> run_book pooled_apply_event b0 es = Some (rs, b2)
     \<and> pooled_snapshot b1 = pooled_snapshot b2 \<and> free_indices (pooled_clear b) = free_indices b0"
proof -
  obtain S ix where rel: "pooled_rel b S" "pooled_rel_at ix b S" "length (nodes b) = unat n"
    using assms(1) by (rule pooled_reachable_at)
  have "spec_clear S = spec_empty (Some (unat n))"
    using pooled_rel_atD(2) [OF rel(2)] rel(3) by (simp add: spec_clear_def)
  with pooled_rel_clear [OF rel(1)] have "pooled_rel (pooled_clear b) (spec_empty (Some (unat n)))" by simp
  from pooled.run_sim [OF this, of es] pooled.run_sim [OF pooled_rel_new [OF assms(2)], of es]
  obtain rs T b1 b2 where "run_book pooled_apply_event (pooled_clear b) es = Some (rs, b1)" "pooled_rel b1 T"
    "run_book pooled_apply_event b0 es = Some (rs, b2)" "pooled_rel b2 T" by blast
  moreover have "free_indices (pooled_clear b) = free_indices b0"
    using assms(2) rel(3)
    by (auto simp: pooled_clear_def reset_free_list_def new_pooled_book_def split: if_splits)
  ultimately show ?thesis using pooled.snapshot_sim by metis
qed

theorem pooled_clear_is_new_witness:
  "pooled_reachable 2 pooled_sample_book \<and> new_pooled_book 2 = Inr pooled_sample_start
     \<and> free_indices (pooled_clear pooled_sample_book) = free_indices pooled_sample_start"
  using pooled_clear_is_new [OF pooled_sample_reachable pooled_sample_new, of "[]"]
    pooled_sample_reachable pooled_sample_new by auto

end
