(* ===== verification/Std_Streams.thy ===== *)
theory Std_Streams
  imports Prelude
begin

text \<open>
  The parts of the C++ text and stream library that the sources use: \<^verbatim>\<open>std::ifstream\<close> with
  \<^verbatim>\<open>std::getline\<close>, \<^verbatim>\<open>std::from_chars\<close> in base 10, and the decimal output of integers by
  \<^verbatim>\<open>operator<<\<close>.

  The file system is a function from a path to the contents of the file, or \<^const>\<open>None\<close> when it
  cannot be opened; it is an argument of the operations that open a file. A stream reads the
  contents the file had when it was opened.
\<close>

type_synonym file_system = "string \<Rightarrow> string option"

section \<open>std::ifstream\<close>

record ifstream =
  in_open :: bool
  in_rest :: string
  in_eof :: bool
  in_fail :: bool

definition open_ifstream :: "file_system \<Rightarrow> string \<Rightarrow> ifstream \<Rightarrow> ifstream" where
  "open_ifstream fs path s =
     (case fs path of
        Some contents \<Rightarrow> \<lparr>in_open = True, in_rest = contents, in_eof = False, in_fail = False\<rparr>
      | None \<Rightarrow> s\<lparr>in_open := False, in_fail := True\<rparr>)"

definition new_ifstream :: "file_system \<Rightarrow> string \<Rightarrow> ifstream" where
  "new_ifstream fs path =
     open_ifstream fs path \<lparr>in_open = False, in_rest = [], in_eof = False, in_fail = False\<rparr>"

definition close_ifstream :: "ifstream \<Rightarrow> ifstream" where
  "close_ifstream s = (if in_open s then s\<lparr>in_open := False\<rparr> else s\<lparr>in_fail := True\<rparr>)"

abbreviation newline :: char where
  "newline \<equiv> CHR 0x0A"

text \<open>
  \<^verbatim>\<open>std::getline\<close>: the characters up to the next newline, which is extracted but not stored. The
  end of the file sets the eof flag; a call that extracts nothing fails.
\<close>

definition getline :: "ifstream \<Rightarrow> string option \<times> ifstream" where
  "getline s =
     (if in_eof s \<or> in_fail s then (None, s\<lparr>in_fail := True\<rparr>)
      else case dropWhile (\<lambda>c. c \<noteq> newline) (in_rest s) of
        _ # rest \<Rightarrow> (Some (takeWhile (\<lambda>c. c \<noteq> newline) (in_rest s)), s\<lparr>in_rest := rest\<rparr>)
      | [] \<Rightarrow>
          if in_rest s = [] then (None, s\<lparr>in_eof := True, in_fail := True\<rparr>)
          else (Some (in_rest s), s\<lparr>in_rest := [], in_eof := True\<rparr>))"

text \<open>The lines of a text, as repeated \<^verbatim>\<open>getline\<close> calls deliver them.\<close>

function text_lines :: "string \<Rightarrow> string list" where
  "text_lines t =
     (case dropWhile (\<lambda>c. c \<noteq> newline) t of
        _ # rest \<Rightarrow> takeWhile (\<lambda>c. c \<noteq> newline) t # text_lines rest
      | [] \<Rightarrow> if t = [] then [] else [t])"
  by pat_completeness auto

lemma length_dropWhile_Cons: "dropWhile P xs = y # ys \<Longrightarrow> length ys < length xs"
  using length_dropWhile_le [of P xs] by simp

termination text_lines
  by (relation "measure length") (auto dest: length_dropWhile_Cons)

declare text_lines.simps [simp del]

lemma text_lines_Nil [simp]: "text_lines [] = []"
  by (simp add: text_lines.simps)

lemma dropWhile_newline_append:
  "newline \<notin> set l \<Longrightarrow> dropWhile (\<lambda>c. c \<noteq> newline) (l @ newline # t) = newline # t"
  "newline \<notin> set l \<Longrightarrow> takeWhile (\<lambda>c. c \<noteq> newline) (l @ newline # t) = l"
  by (induction l) auto

lemma text_lines_line: "newline \<notin> set l \<Longrightarrow> text_lines (l @ newline # t) = l # text_lines t"
  by (subst text_lines.simps) (simp add: dropWhile_newline_append)

lemma text_lines_concat:
  "(\<forall>l \<in> set ls. newline \<notin> set l) \<Longrightarrow> text_lines (concat (map (\<lambda>l. l @ [newline]) ls)) = ls"
  by (induction ls) (simp_all add: text_lines_line)

text \<open>The lines a stream still has to deliver.\<close>

definition stream_lines :: "ifstream \<Rightarrow> string list" where
  "stream_lines s = (if in_eof s \<or> in_fail s then [] else text_lines (in_rest s))"

lemma getline_newline:
  assumes "\<not> in_eof s" and "\<not> in_fail s" and "dropWhile (\<lambda>c. c \<noteq> newline) (in_rest s) = c # rest"
  shows "getline s = (Some (takeWhile (\<lambda>c. c \<noteq> newline) (in_rest s)), s\<lparr>in_rest := rest\<rparr>)"
    and "stream_lines s = takeWhile (\<lambda>c. c \<noteq> newline) (in_rest s) # stream_lines (s\<lparr>in_rest := rest\<rparr>)"
proof -
  show "getline s = (Some (takeWhile (\<lambda>c. c \<noteq> newline) (in_rest s)), s\<lparr>in_rest := rest\<rparr>)"
    unfolding getline_def assms(3) using assms(1,2) by simp
  have "text_lines (in_rest s) = takeWhile (\<lambda>c. c \<noteq> newline) (in_rest s) # text_lines rest"
    by (subst text_lines.simps) (simp only: assms(3) list.case)
  with assms(1,2) show "stream_lines s = takeWhile (\<lambda>c. c \<noteq> newline) (in_rest s) # stream_lines (s\<lparr>in_rest := rest\<rparr>)"
    by (simp add: stream_lines_def)
qed

lemma getline_last:
  assumes "\<not> in_eof s" and "\<not> in_fail s" and "dropWhile (\<lambda>c. c \<noteq> newline) (in_rest s) = []"
  shows "getline s = (if in_rest s = [] then (None, s\<lparr>in_eof := True, in_fail := True\<rparr>)
      else (Some (in_rest s), s\<lparr>in_rest := [], in_eof := True\<rparr>))"
    and "stream_lines s = (if in_rest s = [] then [] else [in_rest s])"
proof -
  show "getline s = (if in_rest s = [] then (None, s\<lparr>in_eof := True, in_fail := True\<rparr>)
      else (Some (in_rest s), s\<lparr>in_rest := [], in_eof := True\<rparr>))"
    unfolding getline_def assms(3) using assms(1,2) by simp
  have "text_lines (in_rest s) = (if in_rest s = [] then [] else [in_rest s])"
    by (subst text_lines.simps) (simp only: assms(3) list.case)
  with assms(1,2) show "stream_lines s = (if in_rest s = [] then [] else [in_rest s])"
    by (simp add: stream_lines_def)
qed

lemma getline_Nil:
  assumes "stream_lines s = []"
  shows "\<exists>s'. getline s = (None, s') \<and> stream_lines s' = []"
proof (cases "in_eof s \<or> in_fail s")
  case True
  then show ?thesis by (simp add: getline_def stream_lines_def)
next
  case False
  with assms getline_newline(2) [of s] have "dropWhile (\<lambda>c. c \<noteq> newline) (in_rest s) = []"
    by (metis list.distinct(1) list.exhaust)
  with False assms getline_last [of s] show ?thesis by (auto simp: stream_lines_def split: if_splits)
qed

lemma getline_Cons:
  assumes "stream_lines s = l # ls"
  shows "\<exists>s'. getline s = (Some l, s') \<and> stream_lines s' = ls"
proof -
  have ok: "\<not> in_eof s" "\<not> in_fail s" using assms by (auto simp: stream_lines_def split: if_splits)
  show ?thesis
  proof (cases "dropWhile (\<lambda>c. c \<noteq> newline) (in_rest s)")
    case Nil
    with getline_last [OF ok this] assms show ?thesis by (auto simp: stream_lines_def split: if_splits)
  next
    case (Cons c rest)
    from getline_newline [OF ok this] assms show ?thesis by auto
  qed
qed

lemma getline_open [simp]: "in_open (snd (getline s)) = in_open s"
  by (auto simp: getline_def split: list.splits)

lemma open_ifstream_lines:
  "fs path = Some contents \<Longrightarrow> stream_lines (open_ifstream fs path s) = text_lines contents"
  by (simp add: open_ifstream_def stream_lines_def)

section \<open>Decimal numbers\<close>

definition digit_char :: "nat \<Rightarrow> char" where
  "digit_char d = char_of (48 + d)"

definition is_digit :: "char \<Rightarrow> bool" where
  "is_digit c \<longleftrightarrow> 48 \<le> (of_char c :: nat) \<and> (of_char c :: nat) \<le> 57"

definition digit_value :: "char \<Rightarrow> nat" where
  "digit_value c = of_char c - 48"

definition digits_value :: "string \<Rightarrow> nat" where
  "digits_value ds = foldl (\<lambda>n c. 10 * n + digit_value c) 0 ds"

fun show_nat :: "nat \<Rightarrow> string" where
  "show_nat n = (if n < 10 then [digit_char n] else show_nat (n div 10) @ [digit_char (n mod 10)])"

declare show_nat.simps [simp del]

definition show_int :: "int \<Rightarrow> string" where
  "show_int i = (if i < 0 then CHR ''-'' # show_nat (nat (- i)) else show_nat (nat i))"

definition show_i64 :: "i64 \<Rightarrow> string" where
  "show_i64 w = show_int (sint w)"

definition show_u64 :: "u64 \<Rightarrow> string" where
  "show_u64 w = show_nat (unat w)"

lemma of_char_digit_char: "d < 10 \<Longrightarrow> of_char (digit_char d) = (48 + d :: nat)"
  by (simp add: digit_char_def)

lemma is_digit_digit_char [simp]: "d < 10 \<Longrightarrow> is_digit (digit_char d)"
  by (simp add: is_digit_def of_char_digit_char)

lemma digit_value_digit_char [simp]: "d < 10 \<Longrightarrow> digit_value (digit_char d) = d"
  by (simp add: digit_value_def of_char_digit_char)

lemma digits_value_snoc: "digits_value (ds @ [c]) = 10 * digits_value ds + digit_value c"
  by (simp add: digits_value_def)

lemma digits_value_show_nat [simp]: "digits_value (show_nat n) = n"
proof (induction n rule: show_nat.induct)
  case (1 n)
  show ?case
  proof (cases "n < 10")
    case True
    then show ?thesis by (subst show_nat.simps) (simp add: digits_value_def)
  next
    case False
    with 1 show ?thesis by (subst show_nat.simps) (simp add: digits_value_snoc)
  qed
qed

lemma show_nat_digits: "c \<in> set (show_nat n) \<Longrightarrow> is_digit c"
proof (induction n rule: show_nat.induct)
  case (1 n)
  then show ?case by (subst (asm) (2) show_nat.simps) (auto split: if_splits)
qed

lemma show_nat_not_Nil [simp]: "show_nat n \<noteq> []"
  by (subst show_nat.simps) simp

lemma show_i64_chars: "c \<in> set (show_i64 w) \<Longrightarrow> is_digit c \<or> c = CHR ''-''"
  by (auto simp: show_i64_def show_int_def show_nat_digits split: if_splits)

lemma show_u64_chars: "c \<in> set (show_u64 w) \<Longrightarrow> is_digit c"
  by (simp add: show_u64_def show_nat_digits)

section \<open>std::from\_chars\<close>

datatype errc = invalid_argument | result_out_of_range

text \<open>
  \<^verbatim>\<open>std::from_chars(first, last, value)\<close> for an integer type with the values \<open>lo\<close> to \<open>hi\<close>: the
  part of the text after the match, and the value or the error. A minus sign is recognised for
  signed types only; there is no plus sign and no leading blank.
\<close>

definition from_chars :: "bool \<Rightarrow> int \<Rightarrow> int \<Rightarrow> string \<Rightarrow> string \<times> (errc + int)" where
  "from_chars is_signed lo hi txt =
     (let neg = is_signed \<and> txt \<noteq> [] \<and> hd txt = CHR ''-'';
          body = (if neg then tl txt else txt);
          ds = takeWhile is_digit body;
          v = (if neg then - int (digits_value ds) else int (digits_value ds))
      in if ds = [] then (txt, Inl invalid_argument)
         else if v < lo \<or> hi < v then (dropWhile is_digit body, Inl result_out_of_range)
         else (dropWhile is_digit body, Inr v))"

lemma show_nat_all_digits [simp]:
  "takeWhile is_digit (show_nat n) = show_nat n" "dropWhile is_digit (show_nat n) = []"
  using show_nat_digits by (auto simp: takeWhile_eq_all_conv dropWhile_eq_Nil_conv)

lemma is_digit_minus: "\<not> is_digit (CHR ''-'')"
  by (simp add: is_digit_def)

lemma hd_show_nat: "hd (show_nat n) \<noteq> CHR ''-''"
  using show_nat_digits [of "hd (show_nat n)" n] is_digit_minus by (metis hd_in_set show_nat_not_Nil)

lemma from_chars_show_nat: "int n \<le> hi \<Longrightarrow> lo \<le> 0 \<Longrightarrow> from_chars is_signed lo hi (show_nat n) = ([], Inr (int n))"
  using hd_show_nat [of n] by (simp add: from_chars_def Let_def)

lemma from_chars_show_int:
  assumes "lo \<le> i" and "i \<le> hi" and "lo \<le> 0"
  shows "from_chars True lo hi (show_int i) = ([], Inr i)"
proof (cases "i < 0")
  case True
  then show ?thesis
    using assms by (simp add: from_chars_def Let_def show_int_def)
next
  case False
  then show ?thesis
    using assms from_chars_show_nat [of "nat i" hi lo True] by (simp add: show_int_def)
qed

end
