(* ===== verification/Csv_Parser.thy ===== *)
theory Csv_Parser
  imports Core_Types Std_Streams
begin

text \<open>
  The CSV feed parser (\<^verbatim>\<open>include/datagine/feed/csv_parser.hpp\<close>, \<^verbatim>\<open>src/feed/csv_parser.cpp\<close>): a
  pull parser that checks the header on the first call of \<^verbatim>\<open>next\<close> and then returns one event or
  one error per line. Errors are values: every early return of \<^verbatim>\<open>parse_row\<close> is a branch here.
\<close>

section \<open>Text of one row\<close>

definition kExpectedHeader :: string where
  "kExpectedHeader = ''timestamp_ns,event_type,order_id,side,price,quantity''"

definition is_blank :: "char \<Rightarrow> bool" where
  "is_blank c \<longleftrightarrow> c = CHR '' '' \<or> c = CHR 0x09 \<or> c = CHR 0x0D"

fun remove_blank_prefix :: "string \<Rightarrow> string" where
  "remove_blank_prefix [] = []"
| "remove_blank_prefix (c # cs) = (if is_blank c then remove_blank_prefix cs else c # cs)"

definition trim :: "string \<Rightarrow> string" where
  "trim txt = rev (remove_blank_prefix (rev (remove_blank_prefix txt)))"

text \<open>The loop over \<^verbatim>\<open>row.find(',', start)\<close>; the argument is \<^verbatim>\<open>row.substr(start)\<close>.\<close>

function split_csv_columns :: "string \<Rightarrow> string list" where
  "split_csv_columns row =
     (case dropWhile (\<lambda>c. c \<noteq> CHR '','') row of
        [] \<Rightarrow> [trim row]
      | _ # rest \<Rightarrow> trim (takeWhile (\<lambda>c. c \<noteq> CHR '','') row) # split_csv_columns rest)"
  by pat_completeness auto

termination split_csv_columns
  by (relation "measure length") (auto dest: length_dropWhile_Cons)

declare split_csv_columns.simps [simp del]

definition parse_integral :: "bool \<Rightarrow> int \<Rightarrow> int \<Rightarrow> string \<Rightarrow> int option" where
  "parse_integral is_signed lo hi txt =
     (if txt = [] then None
      else case from_chars is_signed lo hi txt of
        (rest, Inr v) \<Rightarrow> if rest = [] then Some v else None
      | (rest, Inl _) \<Rightarrow> None)"

definition parse_i64 :: "string \<Rightarrow> i64 option" where
  "parse_i64 txt = map_option of_int (parse_integral True (- (2 ^ 63)) (2 ^ 63 - 1) txt)"

definition parse_u64 :: "string \<Rightarrow> u64 option" where
  "parse_u64 txt = map_option of_int (parse_integral False 0 (2 ^ 64 - 1) txt)"

definition parse_event_type :: "string \<Rightarrow> EventType option" where
  "parse_event_type txt =
     (if txt = ''ADD'' then Some Add
      else if txt = ''CANCEL'' then Some Cancel
      else if txt = ''MODIFY'' then Some Modify
      else if txt = ''EXECUTE'' then Some Execute
      else None)"

definition parse_side :: "string \<Rightarrow> Side option" where
  "parse_side txt = (if txt = ''B'' then Some Buy else if txt = ''S'' then Some Sell else None)"

definition all_empty :: "string list \<Rightarrow> bool" where
  "all_empty txts = list_all (\<lambda>t. t = []) txts"

section \<open>The parser\<close>

datatype CsvParseStatus = EventParsed | MalformedRow | EndOfFile

record CsvParseResult =
  cr_status :: CsvParseStatus
  cr_event :: "MarketEvent option"
  cr_line_number :: size_t
  cr_message :: string
  cr_raw_row :: string

record CsvParser =
  cp_input_path :: string
  cp_input :: ifstream
  cp_line_number :: size_t
  cp_header_checked :: bool
  cp_header_valid :: bool

definition malformed :: "size_t \<Rightarrow> string \<Rightarrow> string \<Rightarrow> CsvParseResult" where
  "malformed line_number message raw_row = \<lparr>cr_status = MalformedRow, cr_event = None,
     cr_line_number = line_number, cr_message = message, cr_raw_row = raw_row\<rparr>"

definition end_of_file :: CsvParseResult where
  "end_of_file = \<lparr>cr_status = EndOfFile, cr_event = None, cr_line_number = 0, cr_message = [], cr_raw_row = []\<rparr>"

text \<open>
  The event-specific columns: the switch of \<^verbatim>\<open>parse_row\<close>, with the message of the first check
  that fails. An event without a side keeps \<^verbatim>\<open>Side::Buy\<close>; CANCEL keeps price and quantity zero.
\<close>

definition parse_fields :: "EventType \<Rightarrow> string \<Rightarrow> string \<Rightarrow> string \<Rightarrow> string + (Side \<times> i64 \<times> u64)" where
  "parse_fields event_type c3 c4 c5 =
     (case event_type of
        Add \<Rightarrow>
          (case parse_side c3 of
             None \<Rightarrow> Inl ''ADD requires side B or S''
           | Some side \<Rightarrow>
               case parse_i64 c4 of
                 None \<Rightarrow> Inl ''ADD requires numeric price''
               | Some price \<Rightarrow>
                   case parse_u64 c5 of
                     None \<Rightarrow> Inl ''ADD requires numeric quantity''
                   | Some quantity \<Rightarrow> Inr (side, price, quantity))
      | Cancel \<Rightarrow>
          if \<not> all_empty [c3, c4, c5] then Inl ''CANCEL requires empty side, price, and quantity''
          else Inr (Buy, 0, 0)
      | Modify \<Rightarrow>
          if c3 \<noteq> [] then Inl ''MODIFY requires empty side''
          else (case parse_i64 c4 of
             None \<Rightarrow> Inl ''MODIFY requires numeric price''
           | Some price \<Rightarrow>
               case parse_u64 c5 of
                 None \<Rightarrow> Inl ''MODIFY requires numeric quantity''
               | Some quantity \<Rightarrow> Inr (Buy, price, quantity))
      | Execute \<Rightarrow>
          if c3 \<noteq> [] then Inl ''EXECUTE requires empty side''
          else (case parse_i64 c4 of
             None \<Rightarrow> Inl ''EXECUTE requires numeric price''
           | Some price \<Rightarrow>
               case parse_u64 c5 of
                 None \<Rightarrow> Inl ''EXECUTE requires numeric quantity''
               | Some quantity \<Rightarrow> Inr (Buy, price, quantity)))"

definition parse_columns :: "string list \<Rightarrow> string + MarketEvent" where
  "parse_columns columns =
     (if length columns \<noteq> 6 then Inl ''expected 6 columns''
      else case parse_i64 (columns ! 0) of
        None \<Rightarrow> Inl ''invalid timestamp_ns''
      | Some timestamp \<Rightarrow>
          case parse_event_type (columns ! 1) of
            None \<Rightarrow> Inl ''unknown event_type''
          | Some event_type \<Rightarrow>
              case parse_u64 (columns ! 2) of
                None \<Rightarrow> Inl ''invalid order_id''
              | Some order_id \<Rightarrow>
                  case parse_fields event_type (columns ! 3) (columns ! 4) (columns ! 5) of
                    Inl message \<Rightarrow> Inl message
                  | Inr (side, price, quantity) \<Rightarrow>
                      Inr \<lparr>ev_type = event_type, ev_timestamp = Timestamp timestamp, ev_order_id = OrderId order_id,
                        ev_side = side, ev_price = Price price, ev_quantity = Quantity quantity\<rparr>)"

definition parse_row :: "size_t \<Rightarrow> string \<Rightarrow> CsvParseResult" where
  "parse_row line_number row =
     (case parse_columns (split_csv_columns row) of
        Inl message \<Rightarrow> malformed line_number message row
      | Inr event \<Rightarrow> \<lparr>cr_status = EventParsed, cr_event = Some event, cr_line_number = line_number,
          cr_message = [], cr_raw_row = row\<rparr>)"

definition new_csv_parser :: "file_system \<Rightarrow> string \<Rightarrow> CsvParser" where
  "new_csv_parser fs path = \<lparr>cp_input_path = path, cp_input = new_ifstream fs path, cp_line_number = 0,
     cp_header_checked = False, cp_header_valid = False\<rparr>"

definition csv_input_path :: "CsvParser \<Rightarrow> string" where
  "csv_input_path p = cp_input_path p"

definition is_open :: "CsvParser \<Rightarrow> bool" where
  "is_open p = in_open (cp_input p)"

text \<open>The part of \<^verbatim>\<open>next\<close> after the header check.\<close>

definition next_row :: "CsvParser \<Rightarrow> CsvParseResult \<times> CsvParser" where
  "next_row p =
     (if \<not> cp_header_valid p then (end_of_file, p)
      else case getline (cp_input p) of
        (None, input) \<Rightarrow> (end_of_file, p\<lparr>cp_input := input\<rparr>)
      | (Some row, input) \<Rightarrow>
          let line_number = cp_line_number p + 1 in
          (parse_row line_number row, p\<lparr>cp_input := input, cp_line_number := line_number\<rparr>))"

definition csv_next :: "CsvParser \<Rightarrow> CsvParseResult \<times> CsvParser" where
  "csv_next p =
     (if \<not> is_open p then (malformed 0 ''input file is not open'' [], p)
      else if \<not> cp_header_checked p then
        (case getline (cp_input p) of
           (None, input) \<Rightarrow> (end_of_file, p\<lparr>cp_header_checked := True, cp_input := input\<rparr>)
         | (Some header, input) \<Rightarrow>
             let line_number = cp_line_number p + 1;
                 p' = p\<lparr>cp_header_checked := True, cp_input := input, cp_line_number := line_number,
                   cp_header_valid := (trim header = kExpectedHeader)\<rparr> in
             if trim header \<noteq> kExpectedHeader then (malformed line_number ''invalid CSV header'' header, p')
             else next_row p')
      else next_row p)"

definition csv_reset :: "file_system \<Rightarrow> CsvParser \<Rightarrow> CsvParser" where
  "csv_reset fs p = p\<lparr>cp_input := open_ifstream fs (cp_input_path p) (close_ifstream (cp_input p)),
     cp_line_number := 0, cp_header_checked := False, cp_header_valid := False\<rparr>"

section \<open>Columns and blanks\<close>

lemma remove_blank_prefix_dropWhile: "remove_blank_prefix = dropWhile is_blank"
proof
  show "remove_blank_prefix t = dropWhile is_blank t" for t by (induction t) simp_all
qed

lemma remove_blank_prefix_id: "t = [] \<or> \<not> is_blank (hd t) \<Longrightarrow> remove_blank_prefix t = t"
  by (cases t) auto

lemma trim_id: "t = [] \<or> (\<not> is_blank (hd t) \<and> \<not> is_blank (last t)) \<Longrightarrow> trim t = t"
  using remove_blank_prefix_id [of t] remove_blank_prefix_id [of "rev t"] by (auto simp: trim_def hd_rev)

lemma trim_snoc_blank:
  assumes "is_blank c"
  shows "trim (t @ [c]) = trim t"
proof (cases "\<forall>x \<in> set t. is_blank x")
  case True
  then have "dropWhile is_blank t = []" "dropWhile is_blank (t @ [c]) = []"
    unfolding dropWhile_eq_Nil_conv using assms by simp_all
  then show ?thesis by (simp only: trim_def remove_blank_prefix_dropWhile)
next
  case False
  then have "dropWhile is_blank (t @ [c]) = dropWhile is_blank t @ [c]"
    by (auto simp: dropWhile_append)
  then show ?thesis using assms by (simp add: trim_def remove_blank_prefix_dropWhile)
qed

lemma split_last:
  assumes "CHR '','' \<notin> set t"
  shows "split_csv_columns t = [trim t]"
proof -
  have "dropWhile (\<lambda>c. c \<noteq> CHR '','') t = []"
    unfolding dropWhile_eq_Nil_conv using assms by blast
  then show ?thesis by (subst split_csv_columns.simps) (simp only: list.case)
qed

lemma split_comma: "CHR '','' \<notin> set c \<Longrightarrow> split_csv_columns (c @ CHR '','' # t) = trim c # split_csv_columns t"
proof -
  assume "CHR '','' \<notin> set c"
  then have "dropWhile (\<lambda>x. x \<noteq> CHR '','') (c @ CHR '','' # t) = CHR '','' # t"
    "takeWhile (\<lambda>x. x \<noteq> CHR '','') (c @ CHR '','' # t) = c" by (induction c) auto
  then show ?thesis by (subst split_csv_columns.simps) (simp only: list.case)
qed

lemma split_snoc_blank:
  assumes "is_blank b"
  shows "split_csv_columns (row @ [b]) = split_csv_columns row"
proof (induction "length row" arbitrary: row rule: less_induct)
  case less
  have b: "b \<noteq> CHR '',''" using assms by (auto simp: is_blank_def)
  show ?case
  proof (cases "CHR '','' \<in> set row")
    case False
    with b show ?thesis by (simp add: split_last trim_snoc_blank [OF assms])
  next
    case True
    then obtain c t where row: "row = c @ CHR '','' # t" "CHR '','' \<notin> set c"
      by (metis split_list_first)
    with less [of t] show ?thesis by (simp add: split_comma)
  qed
qed

section \<open>Printed rows\<close>

text \<open>The text of an event in the input format.\<close>

fun csv_type :: "EventType \<Rightarrow> string" where
  "csv_type Add = ''ADD''"
| "csv_type Modify = ''MODIFY''"
| "csv_type Cancel = ''CANCEL''"
| "csv_type Execute = ''EXECUTE''"

fun csv_side :: "Side \<Rightarrow> string" where
  "csv_side Buy = ''B''"
| "csv_side Sell = ''S''"

definition csv_columns :: "MarketEvent \<Rightarrow> string list" where
  "csv_columns e = [show_i64 (nanoseconds (ev_timestamp e)), csv_type (ev_type e), show_u64 (id_value (ev_order_id e)),
     if ev_type e = Add then csv_side (ev_side e) else [],
     if ev_type e = Cancel then [] else show_i64 (ticks (ev_price e)),
     if ev_type e = Cancel then [] else show_u64 (units (ev_quantity e))]"

fun join_columns :: "string list \<Rightarrow> string" where
  "join_columns [] = []"
| "join_columns [c] = c"
| "join_columns (c # d # cs) = c @ CHR '','' # join_columns (d # cs)"

definition csv_row :: "MarketEvent \<Rightarrow> string" where
  "csv_row e = join_columns (csv_columns e)"

text \<open>What the input format can say of an event: only ADD has a side, CANCEL has an id only.\<close>

definition csv_normal :: "MarketEvent \<Rightarrow> MarketEvent" where
  "csv_normal e = (case ev_type e of
      Add \<Rightarrow> e
    | Cancel \<Rightarrow> e\<lparr>ev_side := Buy, ev_price := Price 0, ev_quantity := Quantity 0\<rparr>
    | _ \<Rightarrow> e\<lparr>ev_side := Buy\<rparr>)"

lemma split_join:
  "cs \<noteq> [] \<Longrightarrow> (\<And>c. c \<in> set cs \<Longrightarrow> CHR '','' \<notin> set c) \<Longrightarrow> split_csv_columns (join_columns cs) = map trim cs"
proof (induction cs rule: join_columns.induct)
  case (3 c d cs)
  then show ?case by (simp add: split_comma)
qed (simp_all add: split_last)

text \<open>Characters that neither separate columns nor lines and are not trimmed.\<close>

definition plain :: "char \<Rightarrow> bool" where
  "plain c \<longleftrightarrow> \<not> is_blank c \<and> c \<noteq> CHR '','' \<and> c \<noteq> newline"

lemma plain_digit: "is_digit c \<Longrightarrow> plain c"
  by (auto simp: is_digit_def is_blank_def plain_def)

lemma plain_minus: "plain (CHR ''-'')"
  by (simp add: is_blank_def plain_def)

lemma plain_show_i64: "c \<in> set (show_i64 w) \<Longrightarrow> plain c"
  using show_i64_chars [of c w] plain_digit plain_minus by auto

lemma plain_show_u64: "c \<in> set (show_u64 w) \<Longrightarrow> plain c"
  using show_u64_chars [of c w] plain_digit by blast

lemma plain_csv_type: "c \<in> set (csv_type ty) \<Longrightarrow> plain c"
  by (cases ty) (auto simp: is_blank_def plain_def)

lemma plain_csv_side: "c \<in> set (csv_side s) \<Longrightarrow> plain c"
  by (cases s) (auto simp: is_blank_def plain_def)

lemma plain_csv_columns:
  assumes "t \<in> set (csv_columns e)" and "c \<in> set t"
  shows "plain c"
proof -
  have "t \<in> {show_i64 (nanoseconds (ev_timestamp e)), csv_type (ev_type e), show_u64 (id_value (ev_order_id e)),
      csv_side (ev_side e), [], show_i64 (ticks (ev_price e)), show_u64 (units (ev_quantity e))}"
    using assms(1) unfolding csv_columns_def by (auto split: if_splits)
  then show ?thesis
    using assms(2) plain_show_i64 plain_show_u64 plain_csv_type plain_csv_side by fastforce
qed

lemma trim_plain: "(\<And>c. c \<in> set t \<Longrightarrow> \<not> is_blank c) \<Longrightarrow> trim t = t"
  by (rule trim_id) (cases "t = []"; simp)

lemma split_csv_row: "split_csv_columns (csv_row e) = csv_columns e"
proof -
  have "split_csv_columns (csv_row e) = map trim (csv_columns e)"
    unfolding csv_row_def
  proof (rule split_join)
    show "CHR '','' \<notin> set c" if "c \<in> set (csv_columns e)" for c
      using plain_csv_columns [OF that] by (auto simp: plain_def)
  qed (simp add: csv_columns_def)
  also have "\<dots> = csv_columns e"
    by (intro map_idI trim_plain) (metis plain_csv_columns plain_def)
  finally show ?thesis .
qed

lemma show_int_not_Nil [simp]: "show_int i \<noteq> []"
  by (simp add: show_int_def)

lemma parse_show_i64: "parse_i64 (show_i64 w) = Some w"
proof -
  have "- (2 ^ 63) \<le> sint w" "sint w \<le> 2 ^ 63 - 1"
    using sint_ge [of w] sint_lt [of w] by simp_all
  then show ?thesis
    by (simp add: parse_i64_def parse_integral_def show_i64_def from_chars_show_int)
qed

lemma parse_show_u64: "parse_u64 (show_u64 w) = Some w"
proof -
  have "int (unat w) \<le> 2 ^ 64 - 1" using uint_lt2p [of w] by simp
  then show ?thesis
    by (simp add: parse_u64_def parse_integral_def show_u64_def from_chars_show_nat)
qed

lemma parse_csv_columns: "parse_columns (csv_columns e) = Inr (csv_normal e)"
  by (cases "ev_type e"; cases "ev_side e")
    (simp_all add: parse_columns_def csv_columns_def parse_show_i64 parse_show_u64 parse_event_type_def
      parse_fields_def parse_side_def all_empty_def csv_normal_def)

section \<open>Numbers are read exactly\<close>

lemma u64_value_iff:
  "int n \<le> 2 ^ 64 - 1 \<and> of_nat n = (w :: u64) \<longleftrightarrow> n = unat w"
  using unat_size_less [of w] by (auto simp: unat_of_nat)

section \<open>Reading a whole file\<close>

text \<open>What is still to come from a source of parse results, one result per call.\<close>

locale result_source =
  fixes nxt :: "'p \<Rightarrow> CsvParseResult \<times> 'p" and pending :: "'p \<Rightarrow> CsvParseResult list" and ok :: "'p \<Rightarrow> bool"
  assumes next_end: "ok p \<Longrightarrow> pending p = [] \<Longrightarrow>
      \<exists>q. nxt p = (end_of_file, q) \<and> ok q \<and> pending q = []"
    and next_result: "ok p \<Longrightarrow> pending p = r # rs \<Longrightarrow>
      cr_status r \<noteq> EndOfFile \<and> (\<exists>q. nxt p = (r, q) \<and> ok q \<and> pending q = rs)"

text \<open>The loop \<^verbatim>\<open>for (;;) { parsed = parser.next(); if (EndOfFile) break; ... }\<close> that collects the results.\<close>

partial_function (option) drain ::
  "('p \<Rightarrow> CsvParseResult \<times> 'p) \<Rightarrow> 'p \<Rightarrow> (CsvParseResult list \<times> 'p) option" where
  "drain nxt p =
     (case nxt p of (r, q) \<Rightarrow>
        if cr_status r = EndOfFile then Some ([], q)
        else do { (rs, q') \<leftarrow> drain nxt q; Some (r # rs, q') })"

lemma drain_stuck:
  assumes "nxt p = (r, p)" and "cr_status r \<noteq> EndOfFile"
  shows "drain nxt p = None"
proof (cases "drain nxt p")
  case (Some y)
  have "\<forall>r. nxt p = (r, p) \<longrightarrow> cr_status r = EndOfFile"
    by (rule drain.raw_induct [OF _ Some]) (auto simp: bind_eq_Some_conv split: if_splits prod.splits)
  with assms show ?thesis by blast
qed

context result_source
begin

lemma end_stays: "ok p \<Longrightarrow> pending p = [] \<Longrightarrow> fst (nxt (((\<lambda>p. snd (nxt p)) ^^ n) p)) = end_of_file"
proof (induction n arbitrary: p)
  case 0
  with next_end [of p] show ?case by auto
next
  case (Suc n)
  with next_end [of p] have "ok (snd (nxt p))" "pending (snd (nxt p)) = []" by auto
  from Suc.IH [OF this] show ?case by (simp add: funpow_Suc_right del: funpow.simps)
qed

lemma drain_pending: "ok p \<Longrightarrow> \<exists>q. drain nxt p = Some (pending p, q) \<and> ok q \<and> pending q = []"
proof (induction "pending p" arbitrary: p)
  case Nil
  with next_end [of p] show ?case by (auto simp: drain.simps [of nxt p] end_of_file_def)
next
  case (Cons r rs)
  with next_result [of p r rs] obtain q where q: "nxt p = (r, q)" "ok q" "pending q = rs" "cr_status r \<noteq> EndOfFile"
    by auto
  from Cons.hyps(1) [OF q(3) [symmetric] q(2)] q Cons.hyps(2) [symmetric] show ?case
    by (auto simp: drain.simps [of nxt p])
qed

end

fun parse_rows :: "size_t \<Rightarrow> string list \<Rightarrow> CsvParseResult list" where
  "parse_rows n [] = []"
| "parse_rows n (row # rows) = parse_row (n + 1) row # parse_rows (n + 1) rows"

definition header_results :: "size_t \<Rightarrow> string list \<Rightarrow> CsvParseResult list" where
  "header_results n ls =
     (case ls of
        [] \<Rightarrow> []
      | header # rows \<Rightarrow> if trim header = kExpectedHeader then parse_rows (n + 1) rows
          else [malformed (n + 1) ''invalid CSV header'' header])"

definition csv_results :: "string \<Rightarrow> CsvParseResult list" where
  "csv_results contents = header_results 0 (text_lines contents)"

definition csv_pending :: "CsvParser \<Rightarrow> CsvParseResult list" where
  "csv_pending p =
     (if \<not> cp_header_checked p then header_results (cp_line_number p) (stream_lines (cp_input p))
      else if cp_header_valid p then parse_rows (cp_line_number p) (stream_lines (cp_input p))
      else [])"

lemma parse_row_not_eof: "cr_status (parse_row n row) \<noteq> EndOfFile"
  by (simp add: parse_row_def malformed_def split: sum.split)

lemma is_open_frame [simp]:
  "is_open (p\<lparr>cp_header_checked := c\<rparr>) = is_open p" "is_open (p\<lparr>cp_header_valid := v\<rparr>) = is_open p"
  "is_open (p\<lparr>cp_line_number := n\<rparr>) = is_open p" "is_open (p\<lparr>cp_input := s\<rparr>) = in_open s"
  by (simp_all add: is_open_def)

lemma next_row_end:
  assumes "is_open p" and "cp_header_checked p" and "csv_pending p = []"
  shows "\<exists>q. next_row p = (end_of_file, q) \<and> is_open q \<and> csv_pending q = []"
proof (cases "cp_header_valid p")
  case True
  with assms have "stream_lines (cp_input p) = []"
    by (cases "stream_lines (cp_input p)") (auto simp: csv_pending_def)
  from getline_Nil [OF this] obtain s where s: "getline (cp_input p) = (None, s)" "stream_lines s = []" by blast
  with getline_open [of "cp_input p"] assms True show ?thesis
    by (auto simp: next_row_def csv_pending_def is_open_def)
qed (use assms in \<open>auto simp: next_row_def csv_pending_def\<close>)

lemma next_row_result:
  assumes "is_open p" and "cp_header_checked p" and "csv_pending p = r # rs"
  shows "\<exists>q. next_row p = (r, q) \<and> is_open q \<and> csv_pending q = rs"
proof -
  from assms obtain l ls where valid: "cp_header_valid p" and l: "stream_lines (cp_input p) = l # ls"
    by (cases "stream_lines (cp_input p)") (auto simp: csv_pending_def split: if_splits)
  from getline_Cons [OF l] obtain s where s: "getline (cp_input p) = (Some l, s)" "stream_lines s = ls" by blast
  with getline_open [of "cp_input p"] assms valid l show ?thesis
    by (auto simp: next_row_def csv_pending_def is_open_def Let_def)
qed

lemma csv_next_header:
  assumes "is_open p" and "\<not> cp_header_checked p" and "stream_lines (cp_input p) = header # rows"
  obtains q where "is_open q" "cp_header_checked q" "csv_pending q = (if trim header = kExpectedHeader
      then parse_rows (cp_line_number p + 1) rows else [])"
    "csv_next p = (if trim header = kExpectedHeader then next_row q
      else (malformed (cp_line_number p + 1) ''invalid CSV header'' header, q))"
proof -
  from getline_Cons [OF assms(3)] obtain s where
    s: "getline (cp_input p) = (Some header, s)" "stream_lines s = rows" by blast
  with getline_open [of "cp_input p"] assms(1) have "in_open s" by (simp add: is_open_def)
  with s assms show ?thesis
    by (intro that [of "p\<lparr>cp_header_checked := True, cp_input := s, cp_line_number := cp_line_number p + 1,
        cp_header_valid := (trim header = kExpectedHeader)\<rparr>"]) (simp_all add: csv_next_def csv_pending_def Let_def)
qed

lemma csv_next_end:
  assumes "is_open p" and "csv_pending p = []"
  shows "\<exists>q. csv_next p = (end_of_file, q) \<and> is_open q \<and> csv_pending q = []"
proof (cases "cp_header_checked p")
  case True
  with next_row_end [OF assms(1)] assms show ?thesis by (simp add: csv_next_def)
next
  case False
  show ?thesis
  proof (cases "stream_lines (cp_input p)")
    case Nil
    from getline_Nil [OF this] obtain s where "getline (cp_input p) = (None, s)" "stream_lines s = []" by blast
    with getline_open [of "cp_input p"] False assms show ?thesis
      by (auto simp: csv_next_def csv_pending_def is_open_def)
  next
    case (Cons header rows)
    with assms(2) False have valid: "trim header = kExpectedHeader" "rows = []"
      by (cases rows; auto simp: csv_pending_def header_results_def split: if_splits)+
    with csv_next_header [OF assms(1) False Cons] next_row_end show ?thesis by (metis parse_rows.simps(1))
  qed
qed

lemma parse_rows_not_eof: "r \<in> set (parse_rows n rows) \<Longrightarrow> cr_status r \<noteq> EndOfFile"
  by (induction n rows rule: parse_rows.induct) (auto simp: parse_row_not_eof)

lemma csv_pending_not_eof: "r \<in> set (csv_pending p) \<Longrightarrow> cr_status r \<noteq> EndOfFile"
  by (auto simp: csv_pending_def header_results_def malformed_def parse_rows_not_eof
      split: if_splits list.splits)

lemma csv_next_result:
  assumes "is_open p" and "csv_pending p = r # rs"
  shows "\<exists>q. csv_next p = (r, q) \<and> is_open q \<and> csv_pending q = rs"
proof (cases "cp_header_checked p")
  case True
  then show ?thesis using next_row_result [OF assms(1)] assms by (simp add: csv_next_def)
next
  case False
  with assms(2) obtain header rows where ls: "stream_lines (cp_input p) = header # rows"
    by (cases "stream_lines (cp_input p)") (auto simp: csv_pending_def header_results_def)
  then have pend: "r # rs = (if trim header = kExpectedHeader then parse_rows (cp_line_number p + 1) rows
      else [malformed (cp_line_number p + 1) ''invalid CSV header'' header])"
    using assms(2) False by (simp add: csv_pending_def header_results_def)
  obtain q where q: "is_open q" "cp_header_checked q" "csv_pending q = (if trim header = kExpectedHeader
      then parse_rows (cp_line_number p + 1) rows else [])"
    "csv_next p = (if trim header = kExpectedHeader then next_row q
      else (malformed (cp_line_number p + 1) ''invalid CSV header'' header, q))"
    by (rule csv_next_header [OF assms(1) False ls])
  show ?thesis
  proof (cases "trim header = kExpectedHeader")
    case True
    with pend q next_row_result [OF q(1,2), of r rs] show ?thesis by simp
  next
    case False
    with pend q show ?thesis by simp
  qed
qed

interpretation csv: result_source csv_next csv_pending is_open
  using csv_next_end csv_next_result csv_pending_not_eof by unfold_locales (metis list.set_intros(1))+

lemma new_csv_parser_pending:
  "fs path = Some contents \<Longrightarrow> is_open (new_csv_parser fs path) \<and> csv_pending (new_csv_parser fs path) = csv_results contents"
  by (simp add: new_csv_parser_def new_ifstream_def open_ifstream_lines csv_pending_def csv_results_def
      is_open_def open_ifstream_def stream_lines_def)

section \<open>Properties\<close>

text \<open>C8: round trip. The row printed for an event parses back to that event, up to the fields the
  format does not carry (the side of everything but ADD, price and quantity of CANCEL).\<close>

theorem csv_roundtrip:
  "parse_row n (csv_row e) = \<lparr>cr_status = EventParsed, cr_event = Some (csv_normal e), cr_line_number = n,
     cr_message = [], cr_raw_row = csv_row e\<rparr>"
  by (simp add: parse_row_def split_csv_row parse_csv_columns)

text \<open>C24: every accepted row denotes an event in the format's normal form, and its canonical row is
  accepted with the same event.\<close>

theorem csv_accepted_canonical:
  assumes "cr_event (parse_row n row) = Some e"
  shows "csv_normal e = e \<and> cr_event (parse_row m (csv_row e)) = Some e"
proof -
  have "parse_columns (split_csv_columns row) = Inr e"
    using assms by (simp add: parse_row_def malformed_def split: sum.splits)
  then have "csv_normal e = e"
    by (auto simp: parse_columns_def parse_fields_def csv_normal_def
        split: if_splits option.splits sum.splits EventType.splits)
  then show ?thesis by (simp add: parse_row_def split_csv_row parse_csv_columns)
qed

theorem csv_accepted_canonical_witness:
  "\<exists>e. cr_event (parse_row 2 ''  7 ,EXECUTE, 0012,, -5 ,3'') = Some e \<and> csv_normal e = e
     \<and> csv_row e = ''7,EXECUTE,12,,-5,3''"
proof -
  define e where "e = \<lparr>ev_type = Execute, ev_timestamp = Timestamp 7, ev_order_id = OrderId 12, ev_side = Buy,
    ev_price = Price (- 5), ev_quantity = Quantity 3\<rparr>"
  have e: "cr_event (parse_row 2 ''  7 ,EXECUTE, 0012,, -5 ,3'') = Some e" unfolding e_def by code_simp
  have "csv_row e = ''7,EXECUTE,12,,-5,3''" unfolding e_def by code_simp
  with csv_accepted_canonical [OF e] e show ?thesis by blast
qed

text \<open>C23: reading a whole file with \<open>next\<close> ends, and gives for a valid header one result per remaining
  line, in order and numbered from 2, or else the single header error; after that every call of \<open>next\<close>
  reports the end of the file.\<close>

theorem csv_reads_file:
  assumes "fs path = Some contents"
  shows "\<exists>q. drain csv_next (new_csv_parser fs path) = Some (csv_results contents, q)
    \<and> (\<forall>n. fst (csv_next (((\<lambda>p. snd (csv_next p)) ^^ n) q)) = end_of_file)"
  using csv.drain_pending [of "new_csv_parser fs path"] new_csv_parser_pending [of fs path contents, OF assms] csv.end_stays by fastforce

theorem csv_reads_file_witness:
  "\<exists>q. drain csv_next (new_csv_parser (\<lambda>_. Some ''bad header'') ''f'')
     = Some ([malformed 1 ''invalid CSV header'' ''bad header''], q) \<and> fst (csv_next q) = end_of_file"
proof -
  have "csv_results ''bad header'' = [malformed 1 ''invalid CSV header'' ''bad header'']" by code_simp
  with csv_reads_file [of "\<lambda>_. Some ''bad header''" "''f''" "''bad header''"] show ?thesis by (metis funpow_0)
qed

text \<open>C26: a parser whose file could not be opened never reports the end of the file: \<open>next\<close> returns the
  same error forever, so the loop that waits for the end of the file does not return.\<close>

theorem csv_unopened_never_ends:
  assumes "fs path = None"
  shows "csv_next (new_csv_parser fs path) = (malformed 0 ''input file is not open'' [], new_csv_parser fs path)
    \<and> drain csv_next (new_csv_parser fs path) = None"
proof -
  have "csv_next (new_csv_parser fs path) = (malformed 0 ''input file is not open'' [], new_csv_parser fs path)"
    using assms by (simp add: csv_next_def is_open_def new_csv_parser_def new_ifstream_def open_ifstream_def)
  with drain_stuck [where nxt = csv_next, OF this] show ?thesis by (simp add: malformed_def)
qed

theorem csv_unopened_never_ends_witness:
  "drain csv_next (new_csv_parser (\<lambda>_. None) ''missing.csv'') = None"
  using csv_unopened_never_ends [of "\<lambda>_. None" "''missing.csv''"] by simp

text \<open>\<open>reset\<close> on a file that can be opened makes the parser as good as new.\<close>

theorem csv_reset_is_new:
  assumes "fs (csv_input_path p) = Some contents"
  shows "csv_reset fs p = new_csv_parser fs (csv_input_path p)"
  using assms by (simp add: csv_reset_def csv_input_path_def new_csv_parser_def new_ifstream_def open_ifstream_def)

theorem csv_reset_is_new_witness:
  "csv_reset (\<lambda>_. Some ''x'') (snd (csv_next (new_csv_parser (\<lambda>_. Some ''x'') ''f'')))
     = new_csv_parser (\<lambda>_. Some ''x'') ''f''"
proof -
  let ?p = "snd (csv_next (new_csv_parser (\<lambda>_. Some ''x'') ''f''))"
  have "csv_input_path ?p = ''f''" by code_simp
  then show ?thesis using csv_reset_is_new [of "\<lambda>_. Some ''x''" ?p "''x''"] by simp
qed

text \<open>A carriage return at the end of a row changes nothing but the recorded raw row.\<close>

theorem csv_crlf:
  "parse_row n (row @ [CHR 0x0D]) = (parse_row n row)\<lparr>cr_raw_row := row @ [CHR 0x0D]\<rparr>"
  using split_snoc_blank [of "CHR 0x0D" row]
  by (simp add: parse_row_def malformed_def is_blank_def split: sum.split)

text \<open>C25: unsigned columns are read exactly: a text is accepted when it is a non-empty sequence of digits
  whose value is below \<open>2 ^ 64\<close>, and then gives that value; nothing wraps around.\<close>

theorem parse_u64_exact:
  "parse_u64 txt = Some w \<longleftrightarrow> txt \<noteq> [] \<and> list_all is_digit txt \<and> digits_value txt = unat w"
proof (cases "list_all is_digit txt")
  case True
  then have tw: "takeWhile is_digit txt = txt" "dropWhile is_digit txt = []"
    unfolding takeWhile_eq_all_conv dropWhile_eq_Nil_conv by (simp_all add: list_all_iff)
  show ?thesis
    using True u64_value_iff [of "digits_value txt" w]
    by (simp add: parse_u64_def parse_integral_def from_chars_def Let_def tw) linarith
next
  case False
  then have "dropWhile is_digit txt \<noteq> []" unfolding dropWhile_eq_Nil_conv by (simp add: list_all_iff)
  with False show ?thesis
    by (auto simp: parse_u64_def parse_integral_def from_chars_def Let_def)
qed

end
