(* ===== verification/Checksum.thy ===== *)
theory Checksum
  imports Book_Types Std_Streams
begin

unbundle bit_operations_syntax

text \<open>
  The FNV-1a checksum of a book snapshot and its printer (\<^verbatim>\<open>src/replay/replay_engine.cpp\<close>), and the
  printer of the top of the book. The lemmas relate the checksum to the byte string it is computed
  from: the string determines the snapshot, and one changed byte always changes the checksum.
\<close>

section \<open>FNV-1a\<close>

type_synonym byte = "8 word"

definition kFnvOffsetBasis :: u64 where
  "kFnvOffsetBasis = 14695981039346656037"

definition kFnvPrime :: u64 where
  "kFnvPrime = 1099511628211"

definition hash_byte :: "u64 \<Rightarrow> byte \<Rightarrow> u64" where
  "hash_byte hash b = (hash XOR ucast b) * kFnvPrime"

text \<open>The loop \<^verbatim>\<open>for (int shift = 0; shift < 64; shift += 8)\<close> from a given shift.\<close>

function hash_u64_from :: "nat \<Rightarrow> u64 \<Rightarrow> u64 \<Rightarrow> u64" where
  "hash_u64_from shift hash v =
     (if shift < 64 then hash_u64_from (shift + 8) (hash_byte hash (ucast (drop_bit shift v AND 0xff))) v else hash)"
  by pat_completeness auto

termination hash_u64_from
  by (relation "measure (\<lambda>(shift, _). 64 - shift)") auto

declare hash_u64_from.simps [simp del]

definition hash_u64 :: "u64 \<Rightarrow> u64 \<Rightarrow> u64" where
  "hash_u64 hash v = hash_u64_from 0 hash v"

definition hash_i64 :: "u64 \<Rightarrow> i64 \<Rightarrow> u64" where
  "hash_i64 hash v = hash_u64 hash v"

definition hash_order :: "u64 \<Rightarrow> OrderView \<Rightarrow> u64" where
  "hash_order hash order = hash_u64 (hash_i64 (hash_u64 hash (id_value (ov_order_id order)))
     (nanoseconds (ov_timestamp order))) (units (ov_quantity order))"

definition hash_price_level :: "u64 \<Rightarrow> PriceLevelSnapshot \<Rightarrow> u64" where
  "hash_price_level hash level =
     foldl hash_order
       (hash_u64 (hash_u64 (hash_i64 hash (ticks (ps_price level))) (units (ps_quantity level)))
         (of_nat (length (ps_orders level))))
       (ps_orders level)"

definition checksum_snapshot :: "BookSnapshot \<Rightarrow> u64" where
  "checksum_snapshot s =
     (let h1 = hash_byte (hash_byte kFnvOffsetBasis 0x44) 0x47;
          h2 = hash_u64 h1 (of_nat (length (snap_bids s)));
          h3 = foldl (\<lambda>h level. hash_price_level (hash_byte h 0x42) level) h2 (snap_bids s);
          h4 = hash_u64 h3 (of_nat (length (snap_asks s)))
      in foldl (\<lambda>h level. hash_price_level (hash_byte h 0x41) level) h4 (snap_asks s))"

section \<open>Printers\<close>

definition hex_char :: "nat \<Rightarrow> char" where
  "hex_char d = (if d < 10 then char_of (48 + d) else char_of (87 + d))"

fun show_hex :: "nat \<Rightarrow> string" where
  "show_hex n = (if n < 16 then [hex_char n] else show_hex (n div 16) @ [hex_char (n mod 16)])"

declare show_hex.simps [simp del]

text \<open>\<^verbatim>\<open>std::setw(width)\<close> with \<^verbatim>\<open>std::setfill(c)\<close>: fill on the left up to the width.\<close>

definition fill_left :: "nat \<Rightarrow> char \<Rightarrow> string \<Rightarrow> string" where
  "fill_left width c t = replicate (width - length t) c @ t"

definition format_checksum :: "u64 \<Rightarrow> string" where
  "format_checksum checksum = ''0x'' @ fill_left 16 (CHR ''0'') (show_hex (unat checksum))"

definition append_level :: "string \<Rightarrow> PriceLevelView option \<Rightarrow> string" where
  "append_level output level =
     (case level of
        None \<Rightarrow> output @ ''none''
      | Some v \<Rightarrow> output @ show_i64 (ticks (pv_price v)) @ ''x'' @ show_u64 (units (pv_quantity v)))"

definition format_top_of_book :: "TopOfBook \<Rightarrow> string" where
  "format_top_of_book t = append_level (append_level ''bid='' (top_bid t) @ '' ask='') (top_ask t)"

section \<open>The hashed bytes\<close>

definition u64_bytes :: "u64 \<Rightarrow> byte list" where
  "u64_bytes v = map (\<lambda>i. ucast (drop_bit (8 * i) v)) [0..<8]"

definition order_bytes :: "OrderView \<Rightarrow> byte list" where
  "order_bytes order = u64_bytes (id_value (ov_order_id order)) @ u64_bytes (nanoseconds (ov_timestamp order))
     @ u64_bytes (units (ov_quantity order))"

definition counted :: "('a \<Rightarrow> byte list) \<Rightarrow> 'a list \<Rightarrow> byte list" where
  "counted enc xs = u64_bytes (of_nat (length xs)) @ concat (map enc xs)"

definition level_bytes :: "PriceLevelSnapshot \<Rightarrow> byte list" where
  "level_bytes level = u64_bytes (ticks (ps_price level)) @ u64_bytes (units (ps_quantity level))
     @ counted order_bytes (ps_orders level)"

definition snapshot_bytes :: "BookSnapshot \<Rightarrow> byte list" where
  "snapshot_bytes s = [0x44, 0x47] @ counted (\<lambda>l. 0x42 # level_bytes l) (snap_bids s)
     @ counted (\<lambda>l. 0x41 # level_bytes l) (snap_asks s)"

abbreviation fnv :: "u64 \<Rightarrow> byte list \<Rightarrow> u64" where
  "fnv \<equiv> foldl hash_byte"

lemma ucast_and_ff: "(ucast (w AND 0xff :: u64) :: byte) = ucast w"
proof -
  have "w AND 0xff = take_bit 8 w" by (simp add: take_bit_eq_mask mask_eq_exp_minus_1)
  then show ?thesis by (auto intro: bit_word_eqI simp: bit_simps)
qed

lemma fnv_u64: "hash_u64 h v = fnv h (u64_bytes v)"
proof -
  have "[0..<8] = [0, 1, 2, 3, 4, 5, 6, 7 :: nat]" by code_simp
  then show ?thesis
    by (simp add: hash_u64_def hash_u64_from.simps ucast_and_ff u64_bytes_def)
qed

lemma fnv_concat: "(\<And>h x. x \<in> set xs \<Longrightarrow> f h x = fnv h (enc x)) \<Longrightarrow> foldl f h xs = fnv h (concat (map enc xs))"
  by (induction xs arbitrary: h) simp_all

lemma fnv_order: "hash_order h x = fnv h (order_bytes x)"
  by (simp add: hash_order_def order_bytes_def hash_i64_def fnv_u64)

lemma fnv_level: "hash_price_level h l = fnv h (level_bytes l)"
  by (simp add: hash_price_level_def level_bytes_def counted_def hash_i64_def fnv_u64 fnv_concat [OF fnv_order])

lemma checksum_fnv: "checksum_snapshot s = fnv kFnvOffsetBasis (snapshot_bytes s)"
proof -
  have level: "foldl (\<lambda>h l. hash_price_level (hash_byte h c) l) h ls = fnv h (concat (map (\<lambda>l. c # level_bytes l) ls))" for c h ls
    by (rule fnv_concat) (simp add: fnv_level)
  show ?thesis
    by (simp add: checksum_snapshot_def Let_def snapshot_bytes_def counted_def fnv_u64 level)
qed

section \<open>The bytes determine the snapshot\<close>

text \<open>An encoding that can be read back from the front of a byte string.\<close>

definition readable :: "('a \<Rightarrow> bool) \<Rightarrow> ('a \<Rightarrow> byte list) \<Rightarrow> bool" where
  "readable ok enc \<longleftrightarrow> (\<forall>x y r s. ok x \<longrightarrow> ok y \<longrightarrow> enc x @ r = enc y @ s \<longrightarrow> x = y \<and> r = s)"

lemma readableD: "readable ok enc \<Longrightarrow> ok x \<Longrightarrow> ok y \<Longrightarrow> enc x @ r = enc y @ s \<Longrightarrow> x = y \<and> r = s"
  unfolding readable_def by blast

lemma u64_bytes_inj: "u64_bytes v = u64_bytes w \<Longrightarrow> v = w"
proof (rule bit_word_eqI)
  fix n assume eq: "u64_bytes v = u64_bytes w" and "n < LENGTH(64)"
  then have n: "n div 8 < 8" by simp
  from eq have "u64_bytes v ! (n div 8) = u64_bytes w ! (n div 8)" by simp
  with n have "(ucast (drop_bit (8 * (n div 8)) v) :: byte) = ucast (drop_bit (8 * (n div 8)) w)"
    by (simp add: u64_bytes_def)
  then have "bit (ucast (drop_bit (8 * (n div 8)) v) :: byte) (n mod 8) = bit (ucast (drop_bit (8 * (n div 8)) w) :: byte) (n mod 8)"
    by simp
  then show "bit v n = bit w n" by (simp add: bit_simps)
qed

lemma readable_u64: "readable (\<lambda>_. True) u64_bytes"
proof -
  have "length (u64_bytes v) = 8" for v by (simp add: u64_bytes_def)
  then show ?thesis by (auto simp: readable_def dest!: u64_bytes_inj)
qed

lemmas u64_bytesD = readableD [OF readable_u64 TrueI TrueI]

lemma readable_order: "readable (\<lambda>_. True) order_bytes"
  unfolding readable_def order_bytes_def
  by (auto dest!: u64_bytesD simp: OrderId_eq_iff Timestamp_eq_iff Quantity_eq_iff intro!: OrderView.equality)

lemma concat_readable:
  assumes "readable ok enc"
  shows "length xs = length ys \<Longrightarrow> \<forall>x \<in> set xs \<union> set ys. ok x \<Longrightarrow>
    concat (map enc xs) @ r = concat (map enc ys) @ s \<Longrightarrow> xs = ys \<and> r = s"
proof (induction xs ys rule: list_induct2)
  case (Cons x xs y ys)
  have "enc x @ concat (map enc xs) @ r = enc y @ concat (map enc ys) @ s" using Cons.prems(2) by simp
  moreover have "ok x" "ok y" using Cons.prems(1) by simp_all
  ultimately have "x = y" "concat (map enc xs) @ r = concat (map enc ys) @ s"
    using readableD [OF assms] by blast+
  with Cons.IH Cons.prems(1) show ?case by simp
qed simp

definition countable_length :: "('a \<Rightarrow> bool) \<Rightarrow> 'a list \<Rightarrow> bool" where
  "countable_length ok xs \<longleftrightarrow> length xs < 2 ^ 64 \<and> list_all ok xs"

lemma readable_counted:
  assumes "readable ok enc"
  shows "readable (countable_length ok) (counted enc)"
  unfolding readable_def
proof (intro allI impI)
  fix xs ys :: "'a list" and r s :: "byte list"
  assume ok: "countable_length ok xs" "countable_length ok ys" and eq: "counted enc xs @ r = counted enc ys @ s"
  from eq have "(of_nat (length xs) :: u64) = of_nat (length ys)"
    and rest: "concat (map enc xs) @ r = concat (map enc ys) @ s"
    using u64_bytesD by (auto simp: counted_def)
  then have "length xs = length ys"
    using ok by (simp add: countable_length_def word_unat_eq_iff unat_of_nat)
  from concat_readable [OF assms this _ rest] ok show "xs = ys \<and> r = s"
    by (auto simp: countable_length_def list_all_iff)
qed

definition level_ok :: "PriceLevelSnapshot \<Rightarrow> bool" where
  "level_ok l \<longleftrightarrow> countable_length (\<lambda>_. True) (ps_orders l)"

definition snapshot_ok :: "BookSnapshot \<Rightarrow> bool" where
  "snapshot_ok s \<longleftrightarrow> countable_length level_ok (snap_bids s) \<and> countable_length level_ok (snap_asks s)"

lemma readable_level: "readable level_ok (\<lambda>l. c # level_bytes l)"
  unfolding readable_def
proof (intro allI impI)
  fix x y r s
  assume ok: "level_ok x" "level_ok y" and eq: "(c # level_bytes x) @ r = (c # level_bytes y) @ s"
  from eq have "ticks (ps_price x) = ticks (ps_price y)" "units (ps_quantity x) = units (ps_quantity y)"
    and rest: "counted order_bytes (ps_orders x) @ r = counted order_bytes (ps_orders y) @ s"
    by (auto simp: level_bytes_def dest!: u64_bytesD)
  moreover from readableD [OF readable_counted [OF readable_order] _ _ rest] ok
  have "ps_orders x = ps_orders y" "r = s" by (simp_all add: level_ok_def)
  ultimately show "x = y \<and> r = s" by (simp add: Price_eq_iff Quantity_eq_iff PriceLevelSnapshot.equality)
qed

text \<open>C27: the checksum is the FNV-1a hash of a byte string that determines the snapshot: two snapshots with
  the same bytes are equal (as long as every vector has fewer than \<open>2 ^ 64\<close> elements), so checksums
  collide only when FNV-1a collides.\<close>

theorem checksum_encodes_snapshot:
  assumes "snapshot_ok s" and "snapshot_ok t"
  shows "checksum_snapshot s = fnv kFnvOffsetBasis (snapshot_bytes s) \<and> (snapshot_bytes s = snapshot_bytes t \<longleftrightarrow> s = t)"
proof -
  have "s = t" if eq: "snapshot_bytes s = snapshot_bytes t"
  proof -
    note counted = readable_counted [OF readable_level]
    from eq have "snap_bids s = snap_bids t \<and> counted (\<lambda>l. 0x41 # level_bytes l) (snap_asks s)
        = counted (\<lambda>l. 0x41 # level_bytes l) (snap_asks t)"
      using assms by (intro readableD [OF counted]) (simp_all add: snapshot_bytes_def snapshot_ok_def)
    moreover from this have "snap_asks s = snap_asks t"
      using assms readableD [OF counted, of "snap_asks s" "snap_asks t" "0x41" "[]" "[]"] by (simp add: snapshot_ok_def)
    ultimately show ?thesis by (simp add: BookSnapshot.equality)
  qed
  then show ?thesis using checksum_fnv by blast
qed

definition one_order_snapshot :: "u64 \<Rightarrow> BookSnapshot" where
  "one_order_snapshot q = \<lparr>snap_bids = [\<lparr>ps_price = Price 100, ps_quantity = Quantity q,
     ps_orders = [\<lparr>ov_order_id = OrderId 1, ov_timestamp = Timestamp 5, ov_quantity = Quantity q\<rparr>]\<rparr>], snap_asks = []\<rparr>"

theorem checksum_encodes_snapshot_witness:
  "snapshot_bytes (one_order_snapshot 3) \<noteq> snapshot_bytes (one_order_snapshot 4)"
  using checksum_encodes_snapshot [of "one_order_snapshot 3" "one_order_snapshot 4"]
  by (simp add: snapshot_ok_def countable_length_def level_ok_def one_order_snapshot_def)

section \<open>One changed byte changes the checksum\<close>

lemma fnv_prime_inverse: "kFnvPrime * 0xce965057aff6957b = 1"
  by (simp add: kFnvPrime_def)

lemma fnv_mult_cancel: "a * kFnvPrime = b * kFnvPrime \<longleftrightarrow> a = b"
proof
  assume "a * kFnvPrime = b * kFnvPrime"
  then have "a * kFnvPrime * 0xce965057aff6957b = b * kFnvPrime * 0xce965057aff6957b" by (rule arg_cong)
  then show "a = b" unfolding mult.assoc fnv_prime_inverse by simp
qed simp

lemma xor_cancel: "a XOR c = b XOR c \<longleftrightarrow> a = b" for a b c :: u64
proof
  assume "a XOR c = b XOR c"
  then have "(a XOR c) XOR c = (b XOR c) XOR c" by (rule arg_cong)
  then show "a = b" unfolding xor.assoc by simp
qed simp

lemma hash_byte_inj: "hash_byte a c = hash_byte b c \<longleftrightarrow> a = b"
  unfolding hash_byte_def fnv_mult_cancel xor_cancel ..

lemma ucast_byte_inj: "(ucast a :: u64) = ucast b \<longleftrightarrow> a = b" for a b :: byte
proof
  assume eq: "(ucast a :: u64) = ucast b"
  show "a = b"
  proof (rule bit_word_eqI)
    fix n assume "n < LENGTH(8)"
    then have "bit (ucast x :: u64) n = bit x n" for x :: byte by (simp add: bit_simps)
    with eq show "bit a n = bit b n" by metis
  qed
qed simp

lemma hash_byte_differs: "hash_byte h a = hash_byte h b \<longleftrightarrow> a = b"
  unfolding hash_byte_def fnv_mult_cancel xor.commute [of h] xor_cancel ucast_byte_inj ..

lemma fnv_inj: "fnv a ys = fnv b ys \<longleftrightarrow> a = b"
  by (induction ys arbitrary: a b) (simp_all add: hash_byte_inj)

text \<open>C28: the checksums of two snapshots whose bytes differ in exactly one place are different.\<close>

theorem checksum_detects_byte:
  assumes "snapshot_bytes s = xs @ a # ys" and "snapshot_bytes t = xs @ b # ys" and "a \<noteq> b"
  shows "checksum_snapshot s \<noteq> checksum_snapshot t"
  using assms by (simp add: checksum_fnv fnv_inj hash_byte_differs)

theorem checksum_detects_byte_witness:
  "checksum_snapshot (\<lparr>snap_bids = [], snap_asks = []\<rparr>\<lparr>snap_asks := snap_bids (one_order_snapshot 3)\<rparr>)
     \<noteq> checksum_snapshot (\<lparr>snap_bids = [], snap_asks = []\<rparr>\<lparr>snap_asks := [\<lparr>ps_price = Price 101, ps_quantity = Quantity 3,
     ps_orders = [\<lparr>ov_order_id = OrderId 1, ov_timestamp = Timestamp 5, ov_quantity = Quantity 3\<rparr>]\<rparr>]\<rparr>)"
  by (rule checksum_detects_byte [where xs = "[0x44, 0x47] @ u64_bytes 0 @ u64_bytes 1 @ [0x41]" and a = 100 and b = 101]) code_simp+

section \<open>Printed checksums\<close>

definition hex_digits :: string where
  "hex_digits = ''0123456789abcdef''"

definition hex_digit_value :: "char \<Rightarrow> nat" where
  "hex_digit_value c = length (takeWhile (\<lambda>d. d \<noteq> c) hex_digits)"

definition hex_value :: "string \<Rightarrow> nat" where
  "hex_value ds = foldl (\<lambda>n c. 16 * n + hex_digit_value c) 0 ds"

lemma hex_char_digit: "d < 16 \<Longrightarrow> hex_char d \<in> set hex_digits"
proof -
  have "\<forall>i \<in> set [0..<16]. hex_char i \<in> set hex_digits" by code_simp
  then show "d < 16 \<Longrightarrow> hex_char d \<in> set hex_digits" by simp
qed

lemma hex_digit_value_char: "d < 16 \<Longrightarrow> hex_digit_value (hex_char d) = d"
proof -
  have "\<forall>i \<in> set [0..<16]. hex_digit_value (hex_char i) = i" by code_simp
  then show "d < 16 \<Longrightarrow> hex_digit_value (hex_char d) = d" by simp
qed

lemma hex_value_snoc: "hex_value (ds @ [c]) = 16 * hex_value ds + hex_digit_value c"
  by (simp add: hex_value_def)

lemma show_hex_value: "hex_value (show_hex n) = n \<and> set (show_hex n) \<subseteq> set hex_digits"
proof (induction n rule: show_hex.induct)
  case (1 n)
  show ?case
  proof (cases "n < 16")
    case True
    then show ?thesis by (subst (1 2) show_hex.simps) (simp add: hex_value_def hex_digit_value_char hex_char_digit)
  next
    case False
    with 1 show ?thesis by (subst (1 2) show_hex.simps) (simp add: hex_value_snoc hex_digit_value_char hex_char_digit)
  qed
qed

lemma hex_value_zeros: "hex_value (replicate k (CHR ''0'') @ ds) = hex_value ds"
proof (induction k)
  case (Suc k)
  have "hex_digit_value (CHR ''0'') = 0" by code_simp
  with Suc show ?case by (simp add: hex_value_def)
qed simp

lemma length_show_hex: "n < 16 ^ Suc k \<Longrightarrow> length (show_hex n) \<le> Suc k"
proof (induction k arbitrary: n)
  case 0
  then show ?case by (subst show_hex.simps) simp
next
  case (Suc k)
  have "n div 16 < 16 ^ Suc k" using Suc.prems by (simp add: less_mult_imp_div_less mult.commute)
  from Suc.IH [OF this] show ?case by (subst show_hex.simps) simp
qed

text \<open>C29: a printed checksum is \<open>0x\<close> and exactly sixteen digits, each one of \<open>0123456789abcdef\<close>, whose value in base
  sixteen is the checksum.\<close>

theorem format_checksum_roundtrip:
  "\<exists>ds. format_checksum c = ''0x'' @ ds \<and> length ds = 16 \<and> set ds \<subseteq> set hex_digits \<and> hex_value ds = unat c"
proof -
  have "unat c < 16 ^ Suc 15" using unat_size_less [of c] by simp
  moreover have "CHR ''0'' \<in> set hex_digits" by (simp add: hex_digits_def)
  ultimately show ?thesis
    using length_show_hex [of "unat c" 15] show_hex_value [of "unat c"]
    by (auto simp: format_checksum_def fill_left_def hex_value_zeros)
qed

section \<open>The printed top of the book\<close>

definition level_text :: "PriceLevelView option \<Rightarrow> string" where
  "level_text level = append_level [] level"

lemma append_level_text: "append_level out level = out @ level_text level"
  by (simp add: level_text_def append_level_def split: option.split)

lemma show_i64_inj: "show_i64 a = show_i64 b \<Longrightarrow> a = b"
proof -
  assume "show_i64 a = show_i64 b"
  then have "sint a = sint b"
    using hd_show_nat [of "nat (sint a)"] hd_show_nat [of "nat (sint b)"]
      arg_cong [where f = digits_value, of "show_nat _" "show_nat _"]
    by (auto simp: show_i64_def show_int_def split: if_splits) (metis list.sel(1) digits_value_show_nat eq_nat_nat_iff linorder_not_less neg_equal_iff_equal neg_0_less_iff_less less_imp_le)+
  then show "a = b" by (simp add: sint_eq_iff)
qed

lemma append_mark_inj:
  assumes "c \<notin> set xs" and "c \<notin> set ys" and "xs @ c # r = ys @ c # s"
  shows "xs = ys \<and> r = s"
  using assms
proof (induction xs arbitrary: ys)
  case Nil
  then show ?case by (cases ys) auto
next
  case (Cons x xs)
  then show ?case by (cases ys) auto
qed

definition shown :: "PriceLevelView option \<Rightarrow> (Price \<times> Quantity) option" where
  "shown level = map_option (\<lambda>v. (pv_price v, pv_quantity v)) level"

lemma level_text_chars:
  assumes "c \<in> set (level_text level)"
  shows "is_digit c \<or> c \<in> set ''-xnoe''"
  using assms show_i64_chars [of c] show_u64_chars [of c]
  by (auto simp: level_text_def append_level_def split: option.splits)

lemma number_marks: "c \<in> {CHR ''x'', CHR ''n''} \<Longrightarrow> c \<notin> set (show_i64 w)"
  using show_i64_chars [of c w] by (auto simp: is_digit_def)

lemma level_text_none: "level_text (Some v) \<noteq> ''none''"
proof
  assume eq: "level_text (Some v) = ''none''"
  have "CHR ''x'' \<in> set (level_text (Some v))" by (simp add: level_text_def append_level_def)
  then show False by (simp add: eq)
qed

lemma level_text_inj: "level_text a = level_text b \<Longrightarrow> shown a = shown b"
proof (cases a; cases b)
  fix v w assume eq: "level_text a = level_text b" and some: "a = Some v" "b = Some w"
  have "show_i64 (ticks (pv_price v)) @ CHR ''x'' # show_u64 (units (pv_quantity v))
      = show_i64 (ticks (pv_price w)) @ CHR ''x'' # show_u64 (units (pv_quantity w))"
    using eq by (simp add: some level_text_def append_level_def)
  from append_mark_inj [OF number_marks number_marks this]
  have texts: "show_i64 (ticks (pv_price v)) = show_i64 (ticks (pv_price w))"
    "show_u64 (units (pv_quantity v)) = show_u64 (units (pv_quantity w))" by auto
  have "units (pv_quantity v) = units (pv_quantity w)"
    using arg_cong [OF texts(2), of digits_value] by (simp add: show_u64_def unat_eq_iff)
  with show_i64_inj [OF texts(1)]
  show "shown a = shown b" by (simp add: some shown_def Price_eq_iff Quantity_eq_iff)
next
  assume "level_text a = level_text b" "a = None" "b = None"
  then show "shown a = shown b" by simp
next
  fix v assume "level_text a = level_text b" "a = None" "b = Some v"
  then show "shown a = shown b" using level_text_none [of v] by (simp add: level_text_def append_level_def)
next
  fix v assume "level_text a = level_text b" "a = Some v" "b = None"
  then show "shown a = shown b" using level_text_none [of v] by (simp add: level_text_def append_level_def)
qed

text \<open>The printed top of the book determines which sides are there, with the price and the quantity of each.\<close>

theorem format_top_inj:
  assumes "format_top_of_book t = format_top_of_book u"
  shows "shown (top_bid t) = shown (top_bid u) \<and> shown (top_ask t) = shown (top_ask u)"
proof -
  have blank: "CHR '' '' \<notin> set (level_text l)" for l
    using level_text_chars [of "CHR '' ''" l] by (auto simp: is_digit_def)
  have "level_text (top_bid t) @ CHR '' '' # ''ask='' @ level_text (top_ask t)
      = level_text (top_bid u) @ CHR '' '' # ''ask='' @ level_text (top_ask u)"
    using assms by (simp add: format_top_of_book_def append_level_text)
  from append_mark_inj [OF blank blank this] show ?thesis by (auto dest: level_text_inj)
qed

theorem format_top_inj_witness:
  "format_top_of_book \<lparr>top_bid = None, top_ask = Some \<lparr>pv_price = Price (- 3), pv_quantity = Quantity 20, pv_order_count = 1\<rparr>\<rparr>
     = ''bid=none ask=-3x20'' \<and>
   (\<forall>t. format_top_of_book t = ''bid=none ask=-3x20'' \<longrightarrow> top_bid t = None \<and> shown (top_ask t) = Some (Price (- 3), Quantity 20))"
proof -
  let ?u = "\<lparr>top_bid = None, top_ask = Some \<lparr>pv_price = Price (- 3), pv_quantity = Quantity 20, pv_order_count = 1\<rparr>\<rparr>"
  have u: "format_top_of_book ?u = ''bid=none ask=-3x20''" by code_simp
  show ?thesis
  proof (intro conjI allI impI)
    fix t assume "format_top_of_book t = ''bid=none ask=-3x20''"
    then have "format_top_of_book t = format_top_of_book ?u" by (simp only: u)
    from format_top_inj [OF this] show "top_bid t = None" "shown (top_ask t) = Some (Price (- 3), Quantity 20)"
      by (simp_all add: shown_def)
  qed (rule u)
qed

end
