(* ===== verification/Anomaly_Detector.thy ===== *)
theory Anomaly_Detector
  imports Limit_Order_Book
begin

text \<open>
  The anomaly monitor (\<^verbatim>\<open>include/datagine/anomaly/anomaly_detector.hpp\<close>,
  \<^verbatim>\<open>src/anomaly/anomaly_detector.cpp\<close>): a feature extractor with rolling windows, an EWMA z-score
  detector and the monitor that composes them.

  \<^verbatim>\<open>double\<close> is a type parameter \<open>'d\<close>; its operations, conversions and literals are the fields of
  the record \<open>double_ops\<close>, the first argument of every operation that computes with doubles.
  The theorems hold for every choice of them, in particular for IEEE 754 arithmetic with NaN.

  The windows compare timestamps by a signed 64-bit subtraction, whose overflow is undefined
  behaviour; operations that subtract timestamps therefore return an option.
\<close>

section \<open>Doubles\<close>

record 'd double_ops =
  d_add :: "'d \<Rightarrow> 'd \<Rightarrow> 'd"
  d_sub :: "'d \<Rightarrow> 'd \<Rightarrow> 'd"
  d_mul :: "'d \<Rightarrow> 'd \<Rightarrow> 'd"
  d_div :: "'d \<Rightarrow> 'd \<Rightarrow> 'd"
  d_neg :: "'d \<Rightarrow> 'd"
  d_abs :: "'d \<Rightarrow> 'd"
  d_sqrt :: "'d \<Rightarrow> 'd"
  d_less :: "'d \<Rightarrow> 'd \<Rightarrow> bool"
  d_le :: "'d \<Rightarrow> 'd \<Rightarrow> bool"
  d_of_i64 :: "i64 \<Rightarrow> 'd"
  d_of_u64 :: "u64 \<Rightarrow> 'd"
  d_0 :: 'd
  d_1 :: 'd
  d_2 :: 'd
  d_1e9 :: 'd
  d_1em9 :: 'd
  d_0_05 :: 'd
  d_4 :: 'd

definition d_max :: "'d double_ops \<Rightarrow> 'd \<Rightarrow> 'd \<Rightarrow> 'd" where
  "d_max D a b = (if d_less D a b then b else a)"

definition kVarianceFloor :: "'d double_ops \<Rightarrow> 'd" where
  "kVarianceFloor D = d_1em9 D"

section \<open>Data\<close>

record 'd AnomalyConfig =
  top_n_levels :: size_t
  message_window_ns :: i64
  cancel_ratio_window_ns :: i64
  volatility_window_ns :: i64
  ewma_alpha :: 'd
  z_score_threshold :: 'd
  min_samples :: size_t

text \<open>The default member initialisers.\<close>

definition default_anomaly_config :: "'d double_ops \<Rightarrow> 'd AnomalyConfig" where
  "default_anomaly_config D = \<lparr>top_n_levels = 5, message_window_ns = 1000000000, cancel_ratio_window_ns = 1000000000,
     volatility_window_ns = 100000000, ewma_alpha = d_0_05 D, z_score_threshold = d_4 D, min_samples = 20\<rparr>"

record 'd MicrostructureFeatures =
  mf_timestamp :: Timestamp
  has_two_sided_book :: bool
  bid_ask_spread :: "'d option"
  mid_price :: "'d option"
  top_n_bid_depth :: u64
  top_n_ask_depth :: u64
  order_book_imbalance :: "'d option"
  mf_message_rate :: 'd
  mf_cancel_add_ratio :: 'd
  mid_price_volatility :: "'d option"

record 'd AnomalyEvent =
  an_timestamp :: Timestamp
  an_order_id :: OrderId
  an_feature :: string
  an_reason :: string
  an_value :: 'd
  an_z_score :: 'd

record EventWindowEntry =
  ew_timestamp :: Timestamp
  ew_type :: EventType

record 'd MidPriceEntry =
  mp_timestamp :: Timestamp
  mp_mid_price :: 'd

record 'd FeatureExtractor =
  fx_config :: "'d AnomalyConfig"
  message_window :: "EventWindowEntry list"
  cancel_ratio_window :: "EventWindowEntry list"
  mid_price_window :: "'d MidPriceEntry list"

section \<open>Feature extraction\<close>

definition new_feature_extractor :: "'d AnomalyConfig \<Rightarrow> 'd FeatureExtractor" where
  "new_feature_extractor config = \<lparr>fx_config = config, message_window = [], cancel_ratio_window = [],
     mid_price_window = []\<rparr>"

fun sum_depth :: "PriceLevelView list \<Rightarrow> u64" where
  "sum_depth [] = 0"
| "sum_depth (level # levels) = units (pv_quantity level) + sum_depth levels"

text \<open>Signed subtraction: \<^const>\<open>None\<close> when the result is not representable.\<close>

definition i64_sub :: "i64 \<Rightarrow> i64 \<Rightarrow> i64 option" where
  "i64_sub a b = (if - (2 ^ 63) \<le> sint a - sint b \<and> sint a - sint b < 2 ^ 63 then Some (a - b) else None)"

text \<open>The loop \<^verbatim>\<open>while (!window.empty() && now - window.front().timestamp > window_ns) window.pop_front()\<close>.\<close>

fun expire :: "('e \<Rightarrow> Timestamp) \<Rightarrow> i64 \<Rightarrow> Timestamp \<Rightarrow> 'e list \<Rightarrow> 'e list option" where
  "expire stamp window_ns now [] = Some []"
| "expire stamp window_ns now (e # es) = do {
     age \<leftarrow> i64_sub (nanoseconds now) (nanoseconds (stamp e));
     if sint age > sint window_ns then expire stamp window_ns now es else Some (e # es)
   }"

definition expire_event_windows :: "'d FeatureExtractor \<Rightarrow> Timestamp \<Rightarrow> 'd FeatureExtractor option" where
  "expire_event_windows x timestamp = do {
     mw \<leftarrow> expire ew_timestamp (message_window_ns (fx_config x)) timestamp (message_window x);
     cw \<leftarrow> expire ew_timestamp (cancel_ratio_window_ns (fx_config x)) timestamp (cancel_ratio_window x);
     Some (x\<lparr>message_window := mw, cancel_ratio_window := cw\<rparr>)
   }"

definition expire_mid_window :: "'d FeatureExtractor \<Rightarrow> Timestamp \<Rightarrow> 'd FeatureExtractor option" where
  "expire_mid_window x timestamp = do {
     pw \<leftarrow> expire mp_timestamp (volatility_window_ns (fx_config x)) timestamp (mid_price_window x);
     Some (x\<lparr>mid_price_window := pw\<rparr>)
   }"

definition window_seconds :: "'d double_ops \<Rightarrow> i64 \<Rightarrow> 'd" where
  "window_seconds D window_ns = d_div D (d_of_i64 D window_ns) (d_1e9 D)"

definition message_rate :: "'d double_ops \<Rightarrow> 'd FeatureExtractor \<Rightarrow> 'd" where
  "message_rate D x =
     (let seconds = window_seconds D (message_window_ns (fx_config x)) in
      if d_less D (d_0 D) seconds
      then d_div D (d_of_u64 D (of_nat (length (message_window x)))) seconds else d_0 D)"

definition is_cancel :: "EventType \<Rightarrow> bool" where
  "is_cancel ty \<longleftrightarrow> ty = Cancel"

definition is_add :: "EventType \<Rightarrow> bool" where
  "is_add ty \<longleftrightarrow> ty = Add"

fun count_cancel_add :: "EventWindowEntry list \<Rightarrow> size_t \<Rightarrow> size_t \<Rightarrow> size_t \<times> size_t" where
  "count_cancel_add [] cancel_count add_count = (cancel_count, add_count)"
| "count_cancel_add (entry # es) cancel_count add_count =
     (if is_cancel (ew_type entry) then count_cancel_add es (cancel_count + 1) add_count
      else if is_add (ew_type entry) then count_cancel_add es cancel_count (add_count + 1)
      else count_cancel_add es cancel_count add_count)"

definition cancel_add_ratio :: "'d double_ops \<Rightarrow> 'd FeatureExtractor \<Rightarrow> 'd" where
  "cancel_add_ratio D x =
     (let (cancel_count, add_count) = count_cancel_add (cancel_ratio_window x) 0 0 in
      d_div D (d_of_u64 D cancel_count) (d_of_u64 D (max 1 add_count)))"

definition mid_volatility :: "'d double_ops \<Rightarrow> 'd FeatureExtractor \<Rightarrow> 'd option" where
  "mid_volatility D x =
     (if length (mid_price_window x) < 2 then None
      else
        let n = d_of_u64 D (of_nat (length (mid_price_window x)));
            sum = foldl (\<lambda>acc entry. d_add D acc (mp_mid_price entry)) (d_0 D) (mid_price_window x);
            mean = d_div D sum n;
            variance = foldl (\<lambda>acc entry. let delta = d_sub D (mp_mid_price entry) mean in d_add D acc (d_mul D delta delta))
              (d_0 D) (mid_price_window x)
        in Some (d_sqrt D (d_div D variance n)))"

text \<open>The two-sided part of \<^verbatim>\<open>extract\<close>.\<close>

definition two_sided_features ::
  "'d double_ops \<Rightarrow> 'd FeatureExtractor \<Rightarrow> Timestamp \<Rightarrow> PriceLevelView \<Rightarrow> PriceLevelView
     \<Rightarrow> 'd MicrostructureFeatures \<Rightarrow> 'd MicrostructureFeatures \<times> 'd FeatureExtractor" where
  "two_sided_features D x timestamp top_b top_a features =
     (let bid = d_of_i64 D (ticks (pv_price top_b));
          ask = d_of_i64 D (ticks (pv_price top_a));
          mid = d_div D (d_add D bid ask) (d_2 D);
          total_depth = top_n_bid_depth features + top_n_ask_depth features;
          imbalance = (if total_depth > 0
            then Some (d_div D (d_sub D (d_of_u64 D (top_n_bid_depth features)) (d_of_u64 D (top_n_ask_depth features)))
              (d_of_u64 D total_depth))
            else None);
          x' = x\<lparr>mid_price_window := mid_price_window x @ [\<lparr>mp_timestamp = timestamp, mp_mid_price = mid\<rparr>]\<rparr>
      in (features\<lparr>has_two_sided_book := True, bid_ask_spread := Some (d_sub D ask bid), mid_price := Some mid,
            order_book_imbalance := imbalance, mid_price_volatility := mid_volatility D x'\<rparr>, x'))"

text \<open>The part of \<^verbatim>\<open>extract\<close> after the windows have been updated.\<close>

definition current_features ::
  "'d double_ops \<Rightarrow> 'd FeatureExtractor \<Rightarrow> MarketEvent \<Rightarrow> LimitOrderBook
     \<Rightarrow> 'd MicrostructureFeatures \<times> 'd FeatureExtractor" where
  "current_features D x event book =
     (let d = depth book (top_n_levels (fx_config x));
          features = \<lparr>mf_timestamp = ev_timestamp event, has_two_sided_book = False, bid_ask_spread = None,
            mid_price = None, top_n_bid_depth = sum_depth (depth_bids d), top_n_ask_depth = sum_depth (depth_asks d),
            order_book_imbalance = None, mf_message_rate = message_rate D x, mf_cancel_add_ratio = cancel_add_ratio D x,
            mid_price_volatility = None\<rparr>
      in case (top_bid (top_of_book book), top_ask (top_of_book book)) of
           (Some b, Some a) \<Rightarrow> two_sided_features D x (ev_timestamp event) b a features
         | _ \<Rightarrow> (features, x))"

definition extract_features ::
  "'d double_ops \<Rightarrow> 'd FeatureExtractor \<Rightarrow> MarketEvent \<Rightarrow> LimitOrderBook
     \<Rightarrow> ('d MicrostructureFeatures \<times> 'd FeatureExtractor) option" where
  "extract_features D x event book = do {
     x1 \<leftarrow> expire_event_windows x (ev_timestamp event);
     x2 \<leftarrow> expire_mid_window x1 (ev_timestamp event);
     let entry = \<lparr>ew_timestamp = ev_timestamp event, ew_type = ev_type event\<rparr>;
     Some (current_features D (x2\<lparr>message_window := message_window x2 @ [entry],
       cancel_ratio_window := cancel_ratio_window x2 @ [entry]\<rparr>) event book)
   }"

definition extractor_reset :: "'d FeatureExtractor \<Rightarrow> 'd FeatureExtractor" where
  "extractor_reset x = x\<lparr>message_window := [], cancel_ratio_window := [], mid_price_window := []\<rparr>"

section \<open>EWMA z-scores\<close>

record 'd EwmaState =
  es_mean :: 'd
  es_variance :: 'd
  es_samples :: size_t

record 'd EwmaZScoreDetector =
  dt_config :: "'d AnomalyConfig"
  dt_states :: "string \<rightharpoonup> 'd EwmaState"

definition new_detector :: "'d AnomalyConfig \<Rightarrow> 'd EwmaZScoreDetector" where
  "new_detector config = \<lparr>dt_config = config, dt_states = Map.empty\<rparr>"

text \<open>\<^verbatim>\<open>states_[std::string{feature}]\<close>: an absent state is value-initialised.\<close>

definition state_of :: "'d double_ops \<Rightarrow> 'd EwmaZScoreDetector \<Rightarrow> string \<Rightarrow> 'd EwmaState" where
  "state_of D dt feature = (case dt_states dt feature of
      Some state \<Rightarrow> state
    | None \<Rightarrow> \<lparr>es_mean = d_0 D, es_variance = d_0 D, es_samples = 0\<rparr>)"

definition score :: "'d double_ops \<Rightarrow> 'd EwmaZScoreDetector \<Rightarrow> string \<Rightarrow> 'd \<Rightarrow> 'd option \<times> 'd EwmaZScoreDetector" where
  "score D dt feature v =
     (let state = state_of D dt feature;
          z_score = (if es_samples state \<ge> min_samples (dt_config dt)
            then Some (d_div D (d_sub D v (es_mean state)) (d_sqrt D (d_max D (es_variance state) (kVarianceFloor D))))
            else None)
      in if es_samples state = 0
         then (z_score, dt\<lparr>dt_states := (dt_states dt)(feature \<mapsto>
           \<lparr>es_mean = v, es_variance = d_0 D, es_samples = 1\<rparr>)\<rparr>)
         else
           let alpha = ewma_alpha (dt_config dt);
               delta = d_sub D v (es_mean state)
           in (z_score, dt\<lparr>dt_states := (dt_states dt)(feature \<mapsto>
             \<lparr>es_mean = d_add D (es_mean state) (d_mul D alpha delta),
              es_variance = d_mul D (d_sub D (d_1 D) alpha)
                (d_add D (es_variance state) (d_mul D (d_mul D alpha delta) delta)),
              es_samples = es_samples state + 1\<rparr>)\<rparr>))"

definition detector_reset :: "'d EwmaZScoreDetector \<Rightarrow> 'd EwmaZScoreDetector" where
  "detector_reset dt = dt\<lparr>dt_states := Map.empty\<rparr>"

section \<open>The monitor\<close>

datatype ScoreDirection = Positive | Negative | Absolute

record 'd AnomalyMonitor =
  am_config :: "'d AnomalyConfig"
  am_extractor :: "'d FeatureExtractor"
  am_detector :: "'d EwmaZScoreDetector"

definition new_monitor :: "'d AnomalyConfig \<Rightarrow> 'd AnomalyMonitor" where
  "new_monitor config = \<lparr>am_config = config, am_extractor = new_feature_extractor config,
     am_detector = new_detector config\<rparr>"

definition passes :: "'d double_ops \<Rightarrow> ScoreDirection \<Rightarrow> 'd \<Rightarrow> 'd \<Rightarrow> bool" where
  "passes D direction threshold z = (case direction of
      Positive \<Rightarrow> d_le D threshold z
    | Negative \<Rightarrow> d_le D z (d_neg D threshold)
    | Absolute \<Rightarrow> d_le D threshold (d_abs D z))"

definition maybe_emit ::
  "'d double_ops \<Rightarrow> MarketEvent \<Rightarrow> string \<Rightarrow> string \<Rightarrow> ScoreDirection \<Rightarrow> 'd
     \<Rightarrow> 'd AnomalyEvent list \<times> 'd AnomalyMonitor \<Rightarrow> 'd AnomalyEvent list \<times> 'd AnomalyMonitor" where
  "maybe_emit D event feature reason direction v om =
     (let (output, m) = om;
          (z_score, dt) = score D (am_detector m) feature v;
          m' = m\<lparr>am_detector := dt\<rparr>
      in case z_score of
           None \<Rightarrow> (output, m')
         | Some z \<Rightarrow>
             if passes D direction (z_score_threshold (am_config m)) z
             then (output @ [\<lparr>an_timestamp = ev_timestamp event, an_order_id = ev_order_id event, an_feature = feature,
               an_reason = reason, an_value = v, an_z_score = z\<rparr>], m')
             else (output, m'))"

text \<open>A feature that may be absent is scored only when it is there.\<close>

definition emit_optional ::
  "'d double_ops \<Rightarrow> MarketEvent \<Rightarrow> string \<Rightarrow> string \<Rightarrow> ScoreDirection \<Rightarrow> 'd option
     \<Rightarrow> 'd AnomalyEvent list \<times> 'd AnomalyMonitor \<Rightarrow> 'd AnomalyEvent list \<times> 'd AnomalyMonitor" where
  "emit_optional D event feature reason direction v om =
     (case v of None \<Rightarrow> om | Some x \<Rightarrow> maybe_emit D event feature reason direction x om)"

definition observe ::
  "'d double_ops \<Rightarrow> 'd AnomalyMonitor \<Rightarrow> MarketEvent \<Rightarrow> LimitOrderBook
     \<Rightarrow> ('d AnomalyEvent list \<times> 'd AnomalyMonitor) option" where
  "observe D m event book = do {
     (features, extractor) \<leftarrow> extract_features D (am_extractor m) event book;
     let depth_of = (\<lambda>n. if has_two_sided_book features then Some (d_of_u64 D n) else None);
     let om0 = ([], m\<lparr>am_extractor := extractor\<rparr>);
     let om1 = emit_optional D event ''bid_ask_spread'' ''spread_widening'' Positive (bid_ask_spread features) om0;
     let om2 = emit_optional D event ''top_n_bid_depth'' ''bid_depth_collapse'' Negative (depth_of (top_n_bid_depth features)) om1;
     let om3 = emit_optional D event ''top_n_ask_depth'' ''ask_depth_collapse'' Negative (depth_of (top_n_ask_depth features)) om2;
     let om4 = emit_optional D event ''order_book_imbalance'' ''imbalance_spike'' Positive
       (map_option (d_abs D) (order_book_imbalance features)) om3;
     let om5 = maybe_emit D event ''message_rate'' ''message_rate_burst'' Positive (mf_message_rate features) om4;
     let om6 = maybe_emit D event ''cancel_add_ratio'' ''cancel_add_ratio_spike'' Positive (mf_cancel_add_ratio features) om5;
     Some (emit_optional D event ''mid_price_volatility'' ''mid_volatility_spike'' Positive (mid_price_volatility features) om6)
   }"

definition monitor_reset :: "'d AnomalyMonitor \<Rightarrow> 'd AnomalyMonitor" where
  "monitor_reset m = m\<lparr>am_extractor := extractor_reset (am_extractor m), am_detector := detector_reset (am_detector m)\<rparr>"

section \<open>Counting reasons\<close>

text \<open>\<^verbatim>\<open>std::less<std::string>\<close>: lexicographic comparison of unsigned characters.\<close>

fun string_less :: "string \<Rightarrow> string \<Rightarrow> bool" where
  "string_less xs [] = False"
| "string_less [] (y # ys) = True"
| "string_less (x # xs) (y # ys) =
     ((of_char x :: nat) < of_char y \<or> (x = y \<and> string_less xs ys))"

definition increment_count :: "string \<Rightarrow> (string \<times> size_t) list \<Rightarrow> (string \<times> size_t) list" where
  "increment_count key counts =
     (let m = om_subscript string_less 0 key counts in
      al_assign key ((case map_of m key of None \<Rightarrow> 0 | Some n \<Rightarrow> n) + 1) m)"

definition summarize_anomaly_reasons :: "'d AnomalyEvent list \<Rightarrow> (string \<times> size_t) list" where
  "summarize_anomaly_reasons anomalies = foldl (\<lambda>counts anomaly. increment_count (an_reason anomaly) counts) [] anomalies"

end
