(* ===== verification/Replay_Engine.thy ===== *)
theory Replay_Engine
  imports Csv_Parser Checksum Anomaly_Detector
begin

text \<open>
  The replay engine (\<^verbatim>\<open>include/datagine/replay/replay_engine.hpp\<close>,
  \<^verbatim>\<open>src/replay/replay_engine.cpp\<close>): it pulls parse results from the CSV parser, applies the events
  to its order book, optionally lets the anomaly monitor observe each applied event and validates
  the book's invariants, and collects counters and errors.

  The loop over \<^verbatim>\<open>parser.next()\<close> is a partial function: \<^const>\<open>None\<close> is a loop that does not end
  or undefined behaviour of a component. The function that delivers the next parse result is a
  parameter of the loop; \<^verbatim>\<open>replay_file\<close> passes the parser's.
\<close>

section \<open>Data\<close>

datatype ReplayErrorType = ParseError | ApplyRejected | InvariantFailure | FileOpenFailure

record ReplayError =
  re_type :: ReplayErrorType
  re_line_number :: size_t
  re_message :: string
  re_raw_row :: string

record 'd ReplayOptions =
  invariant_options :: InvariantOptions
  validate_after_apply :: bool
  enable_anomaly_detection :: bool
  anomaly_config :: "'d AnomalyConfig"

record 'd ReplayResult =
  events_processed :: size_t
  rejected_events :: size_t
  file_open_failed :: bool
  invariant_failed :: bool
  final_checksum :: u64
  final_top :: TopOfBook
  final_snapshot :: BookSnapshot
  errors :: "ReplayError list"
  anomalies :: "'d AnomalyEvent list"
  anomaly_reason_counts :: "(string \<times> size_t) list"

definition new_replay_result :: "'d ReplayResult" where
  "new_replay_result = \<lparr>events_processed = 0, rejected_events = 0, file_open_failed = False, invariant_failed = False,
     final_checksum = 0, final_top = \<lparr>top_bid = None, top_ask = None\<rparr>,
     final_snapshot = \<lparr>snap_bids = [], snap_asks = []\<rparr>, errors = [], anomalies = [], anomaly_reason_counts = []\<rparr>"

record ReplayEngine =
  engine_book :: LimitOrderBook

definition new_engine :: ReplayEngine where
  "new_engine = \<lparr>engine_book = new_book\<rparr>"

text \<open>The locals of \<^verbatim>\<open>replay_file\<close> that the loop changes, beside the parser.\<close>

record 'd replay_state =
  rs_result :: "'d ReplayResult"
  rs_book :: LimitOrderBook
  rs_monitor :: "'d AnomalyMonitor"

section \<open>One parsed row\<close>

definition push_error :: "ReplayErrorType \<Rightarrow> CsvParseResult \<Rightarrow> string \<Rightarrow> 'd ReplayResult \<Rightarrow> 'd ReplayResult" where
  "push_error ty parsed message result = result\<lparr>errors := errors result @
     [\<lparr>re_type = ty, re_line_number = cr_line_number parsed, re_message = message, re_raw_row = cr_raw_row parsed\<rparr>]\<rparr>"

definition reject_row :: "ReplayErrorType \<Rightarrow> CsvParseResult \<Rightarrow> string \<Rightarrow> 'd ReplayResult \<Rightarrow> 'd ReplayResult" where
  "reject_row ty parsed message result =
     push_error ty parsed message (result\<lparr>rejected_events := rejected_events result + 1\<rparr>)"

definition record_anomaly :: "'d ReplayResult \<Rightarrow> 'd AnomalyEvent \<Rightarrow> 'd ReplayResult" where
  "record_anomaly result anomaly = result\<lparr>
     anomaly_reason_counts := increment_count (an_reason anomaly) (anomaly_reason_counts result),
     anomalies := anomalies result @ [anomaly]\<rparr>"

definition watch_event ::
  "'d double_ops \<Rightarrow> 'd ReplayOptions \<Rightarrow> MarketEvent \<Rightarrow> 'd replay_state \<Rightarrow> 'd replay_state option" where
  "watch_event D options event st =
     (if enable_anomaly_detection options then do {
        (reports, monitor) \<leftarrow> observe D (rs_monitor st) event (rs_book st);
        Some (st\<lparr>rs_monitor := monitor, rs_result := foldl record_anomaly (rs_result st) reports\<rparr>)
      } else Some st)"

text \<open>The rest of the loop body once the event has been applied. The flag says whether the loop goes on.\<close>

definition after_apply ::
  "'d double_ops \<Rightarrow> 'd ReplayOptions \<Rightarrow> CsvParseResult \<Rightarrow> MarketEvent \<Rightarrow> 'd replay_state \<Rightarrow> (bool \<times> 'd replay_state) option" where
  "after_apply D options parsed event st = do {
     let st1 = st\<lparr>rs_result := (rs_result st)\<lparr>events_processed := events_processed (rs_result st) + 1\<rparr>\<rparr>;
     st2 \<leftarrow> watch_event D options event st1;
     Some (if validate_after_apply options \<and> \<not> validate_invariants (rs_book st2) (invariant_options options)
       then (False, st2\<lparr>rs_result := push_error InvariantFailure parsed ''book invariant validation failed''
          ((rs_result st2)\<lparr>invariant_failed := True\<rparr>)\<rparr>)
       else (True, st2))
   }"

text \<open>The loop body for a result other than \<^verbatim>\<open>EndOfFile\<close>.\<close>

definition replay_step ::
  "'d double_ops \<Rightarrow> 'd ReplayOptions \<Rightarrow> CsvParseResult \<Rightarrow> 'd replay_state \<Rightarrow> (bool \<times> 'd replay_state) option" where
  "replay_step D options parsed st =
     (if cr_status parsed = MalformedRow
      then Some (True, st\<lparr>rs_result := reject_row ParseError parsed (cr_message parsed) (rs_result st)\<rparr>)
      else do {
        event \<leftarrow> cr_event parsed;
        (apply_result, book) \<leftarrow> apply_event (rs_book st) event;
        let st' = st\<lparr>rs_book := book\<rparr>;
        if apply_result \<noteq> Applied
        then Some (True, st'\<lparr>rs_result := reject_row ApplyRejected parsed
          (''book rejected event: '' @ book_result_to_string apply_result) (rs_result st')\<rparr>)
        else after_apply D options parsed event st'
      })"

section \<open>The loop and the engine\<close>

partial_function (option) replay_loop ::
  "('p \<Rightarrow> CsvParseResult \<times> 'p) \<Rightarrow> 'd double_ops \<Rightarrow> 'd ReplayOptions \<Rightarrow> 'p \<Rightarrow> 'd replay_state \<Rightarrow> 'd replay_state option" where
  "replay_loop nxt D options p st =
     (case nxt p of (parsed, q) \<Rightarrow>
        if cr_status parsed = EndOfFile then Some st
        else do {
          (go, st') \<leftarrow> replay_step D options parsed st;
          if go then replay_loop nxt D options q st' else Some st'
        })"

definition finish_replay :: "LimitOrderBook \<Rightarrow> 'd ReplayResult \<Rightarrow> 'd ReplayResult" where
  "finish_replay book result =
     (let result1 = result\<lparr>final_top := top_of_book book\<rparr>;
          result2 = result1\<lparr>final_snapshot := snapshot book\<rparr>
      in result2\<lparr>final_checksum := checksum_snapshot (final_snapshot result2)\<rparr>)"

definition replay_file ::
  "'d double_ops \<Rightarrow> file_system \<Rightarrow> ReplayEngine \<Rightarrow> string \<Rightarrow> 'd ReplayOptions \<Rightarrow> ('d ReplayResult \<times> ReplayEngine) option" where
  "replay_file D fs engine input_path options =
     (let book = clear (engine_book engine);
          result = new_replay_result;
          parser = new_csv_parser fs input_path
      in if \<not> is_open parser then
           Some (finish_replay book (result\<lparr>file_open_failed := True, errors := errors result @
             [\<lparr>re_type = FileOpenFailure, re_line_number = 0, re_message = ''failed to open input file'',
               re_raw_row = input_path\<rparr>]\<rparr>), engine\<lparr>engine_book := book\<rparr>)
         else do {
           st \<leftarrow> replay_loop csv_next D options parser
             \<lparr>rs_result = result, rs_book = book, rs_monitor = new_monitor (anomaly_config options)\<rparr>;
           Some (finish_replay (rs_book st) (rs_result st), engine\<lparr>engine_book := rs_book st\<rparr>)
         })"

definition replay_book :: "ReplayEngine \<Rightarrow> LimitOrderBook" where
  "replay_book engine = engine_book engine"

definition checksum_book :: "LimitOrderBook \<Rightarrow> u64" where
  "checksum_book book = checksum_snapshot (snapshot book)"

end
