(* ===== verification/Anomaly_Properties.thy ===== *)
theory Anomaly_Properties
  imports Anomaly_Detector
begin

text \<open>
  Properties of the anomaly monitor: exact rolling windows, definedness of the timestamp
  arithmetic, warm-up and independence of the z-score detector, what the monitor can report, and
  the counts of reasons.
\<close>

section \<open>Rolling windows\<close>

text \<open>The extractor over a stream of events, each with the book after it.\<close>

fun extract_run :: "'d double_ops \<Rightarrow> 'd FeatureExtractor \<Rightarrow> (MarketEvent \<times> LimitOrderBook) list
    \<Rightarrow> ('d MicrostructureFeatures list \<times> 'd FeatureExtractor) option" where
  "extract_run D x [] = Some ([], x)"
| "extract_run D x ((e, b) # ebs) = do {
     (f, x') \<leftarrow> extract_features D x e b;
     (fs, x'') \<leftarrow> extract_run D x' ebs;
     Some (f # fs, x'')
   }"

abbreviation ns_of :: "Timestamp \<Rightarrow> int" where
  "ns_of t \<equiv> sint (nanoseconds t)"

lemma i64_sub_exact:
  assumes "- (2 ^ 63) \<le> sint a - sint b" and "sint a - sint b < 2 ^ 63"
  shows "i64_sub a b = Some (a - b)" and "sint (a - b) = sint a - sint b"
  using assms by (simp_all add: i64_sub_def sint_word_diff signed_take_bit_int_eq_self)

lemma i64_sub_nonneg:
  assumes "0 \<le> sint a" and "0 \<le> sint b"
  shows "i64_sub a b = Some (a - b)" and "sint (a - b) = sint a - sint b"
proof -
  have "sint a < 2 ^ 63" "sint b < 2 ^ 63" using sint_lt [of a] sint_lt [of b] by simp_all
  with assms show "i64_sub a b = Some (a - b)" "sint (a - b) = sint a - sint b"
    by (auto intro!: i64_sub_exact)
qed

lemma expire_defined:
  assumes "0 \<le> ns_of now" and "\<forall>e \<in> set es. 0 \<le> ns_of (stamp e)"
  shows "\<exists>n. expire stamp w now es = Some (drop n es)"
  using assms(2)
proof (induction es)
  case (Cons e es)
  then obtain n where n: "expire stamp w now es = Some (drop n es)" by auto
  note sub = i64_sub_nonneg [OF assms(1), of "nanoseconds (stamp e)"]
  show ?case
  proof (cases "sint w < sint (nanoseconds now - nanoseconds (stamp e))")
    case True
    with n sub Cons.prems have "expire stamp w now (e # es) = Some (drop (Suc n) (e # es))" by simp
    then show ?thesis by blast
  next
    case False
    with sub Cons.prems have "expire stamp w now (e # es) = Some (drop 0 (e # es))" by simp
    then show ?thesis by blast
  qed
qed simp

text \<open>On timestamps in order, expiry keeps exactly the entries that are not too old.\<close>

lemma expire_filter:
  assumes "0 \<le> ns_of now" and "\<forall>e \<in> set es. 0 \<le> ns_of (stamp e)" and "sorted_wrt (\<lambda>a b. ns_of (stamp a) \<le> ns_of (stamp b)) es"
  shows "expire stamp w now es = Some (filter (\<lambda>e. ns_of now - ns_of (stamp e) \<le> sint w) es)"
  using assms(2,3)
proof (induction es)
  case (Cons e es)
  note sub = i64_sub_nonneg [OF assms(1), of "nanoseconds (stamp e)"]
  have "filter (\<lambda>e. ns_of now - ns_of (stamp e) \<le> sint w) es = es" if "ns_of now - ns_of (stamp e) \<le> sint w"
    using Cons.prems(2) that by (fastforce simp: filter_id_conv)
  with Cons sub show ?case by (auto simp: not_less)
qed simp

definition window_entry :: "MarketEvent \<Rightarrow> EventWindowEntry" where
  "window_entry e = \<lparr>ew_timestamp = ev_timestamp e, ew_type = ev_type e\<rparr>"

lemma current_features_windows:
  assumes "current_features D x e b = (f, x')"
  shows "message_window x' = message_window x" "cancel_ratio_window x' = cancel_ratio_window x"
    "fx_config x' = fx_config x"
    "mid_price_window x' = mid_price_window x
     \<or> (\<exists>p. mid_price_window x' = mid_price_window x @ [\<lparr>mp_timestamp = ev_timestamp e, mp_mid_price = p\<rparr>])"
  using assms
  by (auto simp: current_features_def two_sided_features_def Let_def split: option.splits)

lemma extract_cases:
  assumes "expire ew_timestamp (message_window_ns (fx_config x)) (ev_timestamp e) (message_window x) = Some mw"
    "expire ew_timestamp (cancel_ratio_window_ns (fx_config x)) (ev_timestamp e) (cancel_ratio_window x) = Some cw"
    "expire mp_timestamp (volatility_window_ns (fx_config x)) (ev_timestamp e) (mid_price_window x) = Some pw"
  obtains f x' where "extract_features D x e b = Some (f, x')"
    "message_window x' = mw @ [window_entry e]" "cancel_ratio_window x' = cw @ [window_entry e]"
    "fx_config x' = fx_config x"
    "mid_price_window x' = pw \<or> (\<exists>p. mid_price_window x' = pw @ [\<lparr>mp_timestamp = ev_timestamp e, mp_mid_price = p\<rparr>])"
proof -
  define x3 where "x3 = x\<lparr>mid_price_window := pw, message_window := mw @ [window_entry e],
    cancel_ratio_window := cw @ [window_entry e]\<rparr>"
  obtain f x' where fx: "current_features D x3 e b = (f, x')" by force
  have "extract_features D x e b = Some (current_features D x3 e b)"
    using assms by (simp add: extract_features_def expire_event_windows_def expire_mid_window_def
        x3_def window_entry_def Let_def)
  with fx current_features_windows [OF fx] show ?thesis by (intro that) (simp_all add: x3_def)
qed

text \<open>The extractor whose windows hold entries with timestamps from zero on.\<close>

definition stamps_nonneg :: "'d FeatureExtractor \<Rightarrow> bool" where
  "stamps_nonneg x \<longleftrightarrow> (\<forall>e \<in> set (message_window x) \<union> set (cancel_ratio_window x). 0 \<le> ns_of (ew_timestamp e))
     \<and> (\<forall>e \<in> set (mid_price_window x). 0 \<le> ns_of (mp_timestamp e))"

lemma extract_nonneg:
  assumes "stamps_nonneg x" and "0 \<le> ns_of (ev_timestamp e)"
  shows "\<exists>f x'. extract_features D x e b = Some (f, x') \<and> stamps_nonneg x' \<and> fx_config x' = fx_config x"
proof -
  from assms obtain n1 n2 n3 where n:
    "expire ew_timestamp (message_window_ns (fx_config x)) (ev_timestamp e) (message_window x) = Some (drop n1 (message_window x))"
    "expire ew_timestamp (cancel_ratio_window_ns (fx_config x)) (ev_timestamp e) (cancel_ratio_window x) = Some (drop n2 (cancel_ratio_window x))"
    "expire mp_timestamp (volatility_window_ns (fx_config x)) (ev_timestamp e) (mid_price_window x) = Some (drop n3 (mid_price_window x))"
    using expire_defined [of "ev_timestamp e"] by (metis UnI1 UnI2 stamps_nonneg_def)
  obtain f x' where x': "extract_features D x e b = Some (f, x')"
    "message_window x' = drop n1 (message_window x) @ [window_entry e]"
    "cancel_ratio_window x' = drop n2 (cancel_ratio_window x) @ [window_entry e]" "fx_config x' = fx_config x"
    "mid_price_window x' = drop n3 (mid_price_window x)
     \<or> (\<exists>p. mid_price_window x' = drop n3 (mid_price_window x) @ [\<lparr>mp_timestamp = ev_timestamp e, mp_mid_price = p\<rparr>])"
    by (rule extract_cases [OF n])
  have old: "\<forall>en \<in> set (drop n1 (message_window x)) \<union> set (drop n2 (cancel_ratio_window x)). 0 \<le> ns_of (ew_timestamp en)"
    "\<forall>en \<in> set (drop n3 (mid_price_window x)). 0 \<le> ns_of (mp_timestamp en)"
    using assms(1) unfolding stamps_nonneg_def by (meson UnE UnI1 UnI2 in_set_dropD)+
  have "stamps_nonneg x'"
    using old assms(2) x'(2,3,5) unfolding stamps_nonneg_def by (auto simp: window_entry_def)
  with x'(1,4) show ?thesis by blast
qed

lemma extract_run_append:
  "extract_run D x (ebs @ [(e, b)]) = do {
     (fs, x') \<leftarrow> extract_run D x ebs;
     (f, x'') \<leftarrow> extract_features D x' e b;
     Some (fs @ [f], x'')
   }"
proof (induction ebs arbitrary: x)
  case Nil
  show ?case by (cases "extract_features D x e b") auto
next
  case (Cons eb ebs)
  obtain e' b' where "eb = (e', b')" by force
  with Cons show ?case by (auto split: Option.bind_splits prod.splits)
qed

text \<open>The entries of a history that a window of length \<open>w\<close> holds at time \<open>t\<close>.\<close>

definition window_at :: "int \<Rightarrow> int \<Rightarrow> MarketEvent list \<Rightarrow> EventWindowEntry list" where
  "window_at t w hist = map window_entry (filter (\<lambda>e. t - ns_of (ev_timestamp e) \<le> w) hist)"

lemma expire_window_at:
  assumes "0 \<le> ns_of now" and "\<forall>e \<in> set hist. 0 \<le> ns_of (ev_timestamp e)"
    and "sorted_wrt (\<lambda>a b. ns_of (ev_timestamp a) \<le> ns_of (ev_timestamp b)) hist" and "t \<le> ns_of now"
  shows "expire ew_timestamp w now (window_at t (sint w) hist) = Some (window_at (ns_of now) (sint w) hist)"
proof -
  have "expire ew_timestamp w now (window_at t (sint w) hist)
      = Some (filter (\<lambda>e. ns_of now - ns_of (ew_timestamp e) \<le> sint w) (window_at t (sint w) hist))"
    using assms(2,3)
    by (intro expire_filter [OF assms(1)]) (auto simp: window_at_def window_entry_def sorted_wrt_map sorted_wrt_filter)
  also have "filter (\<lambda>e. ns_of now - ns_of (ew_timestamp e) \<le> sint w) (window_at t (sint w) hist)
      = window_at (ns_of now) (sint w) hist"
    using assms(4)
    by (auto simp: window_at_def window_entry_def filter_map comp_def
        intro!: arg_cong [where f = "map window_entry"] filter_cong)
  finally show ?thesis .
qed

lemma windows_run:
  assumes "0 \<le> sint (message_window_ns c)" and "0 \<le> sint (cancel_ratio_window_ns c)"
  shows "(\<forall>e \<in> fst ` set ebs. 0 \<le> ns_of (ev_timestamp e)) \<Longrightarrow>
    sorted_wrt (\<lambda>a b. ns_of (ev_timestamp a) \<le> ns_of (ev_timestamp b)) (map fst ebs) \<Longrightarrow>
    t = (if ebs = [] then 0 else ns_of (ev_timestamp (fst (last ebs)))) \<Longrightarrow>
    \<exists>fs x. extract_run D (new_feature_extractor c) ebs = Some (fs, x) \<and> stamps_nonneg x \<and> fx_config x = c
      \<and> message_window x = window_at t (sint (message_window_ns c)) (map fst ebs)
      \<and> cancel_ratio_window x = window_at t (sint (cancel_ratio_window_ns c)) (map fst ebs)"
proof (induction ebs arbitrary: t rule: rev_induct)
  case Nil
  then show ?case by (simp add: new_feature_extractor_def stamps_nonneg_def window_at_def)
next
  case (snoc eb ebs)
  obtain e b where eb: "eb = (e, b)" by force
  define t0 where "t0 = (if ebs = [] then 0 else ns_of (ev_timestamp (fst (last ebs))))"
  have now: "0 \<le> ns_of (ev_timestamp e)" and hist: "\<forall>e \<in> set (map fst ebs). 0 \<le> ns_of (ev_timestamp e)"
    and sorted: "sorted_wrt (\<lambda>a b. ns_of (ev_timestamp a) \<le> ns_of (ev_timestamp b)) (map fst ebs)"
    and t: "t = ns_of (ev_timestamp e)" and le: "t0 \<le> ns_of (ev_timestamp e)"
    using snoc.prems by (auto simp: eb sorted_wrt_append t0_def)
  from snoc.IH [OF _ sorted t0_def] hist obtain fs x where
    run: "extract_run D (new_feature_extractor c) ebs = Some (fs, x)" and x: "stamps_nonneg x" "fx_config x = c"
    "message_window x = window_at t0 (sint (message_window_ns c)) (map fst ebs)"
    "cancel_ratio_window x = window_at t0 (sint (cancel_ratio_window_ns c)) (map fst ebs)" by auto
  have ex: "expire ew_timestamp w (ev_timestamp e) (window_at t0 (sint w) (map fst ebs))
      = Some (window_at t (sint w) (map fst ebs))" for w
    unfolding t by (rule expire_window_at [OF now hist sorted le])
  from extract_nonneg [OF x(1) now] obtain f x' where
    fx: "extract_features D x e b = Some (f, x')" "stamps_nonneg x'" "fx_config x' = fx_config x" by blast
  obtain pw where "expire mp_timestamp (volatility_window_ns (fx_config x)) (ev_timestamp e) (mid_price_window x) = Some pw"
    using expire_defined [OF now] x(1) by (metis stamps_nonneg_def)
  with ex x have "message_window x' = window_at t (sint (message_window_ns c)) (map fst ebs) @ [window_entry e]
      \<and> cancel_ratio_window x' = window_at t (sint (cancel_ratio_window_ns c)) (map fst ebs) @ [window_entry e]"
    using fx(1) by (metis extract_cases option.inject prod.inject)
  with fx run x assms t show ?case
    by (simp add: eb extract_run_append window_at_def)
qed

section \<open>Properties\<close>

definition sample_config :: "int AnomalyConfig" where
  "sample_config = \<lparr>top_n_levels = 5, message_window_ns = 10, cancel_ratio_window_ns = 10, volatility_window_ns = 10,
     ewma_alpha = 1, z_score_threshold = 3, min_samples = 2\<rparr>"

text \<open>Integers as a stand-in for doubles, to evaluate examples.\<close>

definition int_doubles :: "int double_ops" where
  "int_doubles = \<lparr>d_add = (+), d_sub = (-), d_mul = (*), d_div = (div), d_neg = uminus, d_abs = abs, d_sqrt = id,
     d_less = (<), d_le = (\<le>), d_of_i64 = sint, d_of_u64 = uint, d_0 = 0, d_1 = 1, d_2 = 2, d_1e9 = 1, d_1em9 = 1,
     d_0_05 = 0, d_4 = 4\<rparr>"

definition stamped :: "int \<Rightarrow> MarketEvent" where
  "stamped t = \<lparr>ev_type = Add, ev_timestamp = Timestamp (of_int t), ev_order_id = OrderId 1, ev_side = Buy,
     ev_price = Price 100, ev_quantity = Quantity 1\<rparr>"

text \<open>C14: the message and cancel/add windows are exact. On a stream with timestamps from zero on and in
  order, and with window lengths that are not negative, feature extraction never meets undefined
  behaviour, and afterwards each window holds exactly the events that are at most the window's
  length older than the last one.\<close>

theorem windows_exact:
  assumes "\<forall>e \<in> fst ` set ebs. 0 \<le> ns_of (ev_timestamp e)"
    and "sorted_wrt (\<lambda>a b. ns_of (ev_timestamp a) \<le> ns_of (ev_timestamp b)) (map fst ebs)"
    and "0 \<le> sint (message_window_ns c)" and "0 \<le> sint (cancel_ratio_window_ns c)" and "ebs \<noteq> []"
    and "t = ns_of (ev_timestamp (fst (last ebs)))"
  shows "\<exists>fs x. extract_run D (new_feature_extractor c) ebs = Some (fs, x)
    \<and> message_window x = map window_entry (filter (\<lambda>e. t - ns_of (ev_timestamp e) \<le> sint (message_window_ns c)) (map fst ebs))
    \<and> cancel_ratio_window x = map window_entry (filter (\<lambda>e. t - ns_of (ev_timestamp e) \<le> sint (cancel_ratio_window_ns c)) (map fst ebs))"
  using windows_run [OF assms(3,4,1,2), of t D] assms(5,6) by (auto simp: window_at_def)

theorem windows_exact_witness:
  "\<exists>fs x. extract_run int_doubles (new_feature_extractor sample_config)
      [(stamped 0, new_book), (stamped 5, new_book), (stamped 12, new_book)] = Some (fs, x)
     \<and> message_window x = [window_entry (stamped 5), window_entry (stamped 12)]"
proof -
  let ?ebs = "[(stamped 0, new_book), (stamped 5, new_book), (stamped 12, new_book)]"
  have t: "ns_of (ev_timestamp (stamped 0)) = 0" "ns_of (ev_timestamp (stamped 5)) = 5"
    "ns_of (ev_timestamp (stamped 12)) = 12" "sint (message_window_ns sample_config) = 10"
    "sint (cancel_ratio_window_ns sample_config) = 10" by code_simp+
  then show ?thesis
    using windows_exact [of ?ebs sample_config 12 int_doubles] by auto
qed

text \<open>With timestamps from zero on, in any order, feature extraction never meets undefined
  behaviour.\<close>

theorem extract_defined_nonneg:
  assumes "\<forall>e \<in> fst ` set ebs. 0 \<le> ns_of (ev_timestamp e)"
  shows "extract_run D (new_feature_extractor c) ebs \<noteq> None"
proof -
  have "stamps_nonneg x \<Longrightarrow> \<forall>e \<in> fst ` set ebs. 0 \<le> ns_of (ev_timestamp e) \<Longrightarrow> extract_run D x ebs \<noteq> None" for x
  proof (induction ebs arbitrary: x)
    case (Cons eb ebs)
    obtain e b where eb: "eb = (e, b)" by force
    with extract_nonneg [OF Cons.prems(1), of e] Cons.prems(2) obtain f x' where
      "extract_features D x e b = Some (f, x')" "stamps_nonneg x'" by fastforce
    with Cons.IH [of x'] Cons.prems(2) show ?case by (auto simp: eb)
  qed simp
  then show ?thesis using assms by (simp add: stamps_nonneg_def new_feature_extractor_def)
qed

theorem extract_defined_nonneg_witness:
  "extract_run int_doubles (new_feature_extractor sample_config) [(stamped 9, new_book), (stamped 5, new_book)] \<noteq> None"
proof -
  have "ns_of (ev_timestamp (stamped 9)) = 9" "ns_of (ev_timestamp (stamped 5)) = 5" by code_simp+
  then show ?thesis
    using extract_defined_nonneg [of "[(stamped 9, new_book), (stamped 5, new_book)]" int_doubles sample_config] by simp
qed

text \<open>C40: negative timestamps, which the feed parser accepts, can make the timestamp subtraction overflow:
  an event at \<open>2 ^ 63 - 1\<close> after one at \<open>-1\<close> is undefined behaviour, for every configuration.\<close>

theorem extract_overflow:
  "extract_run D (new_feature_extractor c) [(stamped (- 1), b1), (stamped (2 ^ 63 - 1), b2)] = None"
proof -
  have first: "ns_of (ev_timestamp (stamped (- 1))) = - 1" and second: "ns_of (ev_timestamp (stamped (2 ^ 63 - 1))) = 2 ^ 63 - 1"
    by code_simp+
  obtain f x where fx: "extract_features D (new_feature_extractor c) (stamped (- 1)) b1 = Some (f, x)"
    "message_window x = [] @ [window_entry (stamped (- 1))]"
    by (rule extract_cases [where x = "new_feature_extractor c" and e = "stamped (- 1)" and mw = "[]" and cw = "[]"
          and pw = "[]" and D = D and b = b1]) (auto simp: new_feature_extractor_def)
  have "i64_sub (nanoseconds (ev_timestamp (stamped (2 ^ 63 - 1)))) (nanoseconds (ev_timestamp (stamped (- 1)))) = None"
    unfolding i64_sub_def first second by simp
  then have "expire ew_timestamp w (ev_timestamp (stamped (2 ^ 63 - 1))) (message_window x) = None" for w
    by (simp add: fx(2) window_entry_def)
  then have "extract_features D x (stamped (2 ^ 63 - 1)) b2 = None"
    by (simp add: extract_features_def expire_event_windows_def)
  with fx(1) show ?thesis by simp
qed

section \<open>Z-scores\<close>

fun score_run :: "'d double_ops \<Rightarrow> 'd EwmaZScoreDetector \<Rightarrow> (string \<times> 'd) list
    \<Rightarrow> (string \<times> 'd option) list \<times> 'd EwmaZScoreDetector" where
  "score_run D dt [] = ([], dt)"
| "score_run D dt ((f, v) # vs) =
     (let (z, dt') = score D dt f v; (zs, dt'') = score_run D dt' vs in ((f, z) # zs, dt''))"

lemma score_frame:
  "dt_config (snd (score D dt f v)) = dt_config dt"
  "g \<noteq> f \<Longrightarrow> state_of D (snd (score D dt f v)) g = state_of D dt g"
  by (simp_all add: score_def Let_def state_of_def)

lemma score_samples:
  "es_samples (state_of D (snd (score D dt f v)) f) = es_samples (state_of D dt f) + 1"
  by (simp add: score_def Let_def state_of_def split: option.split)

lemma score_cong:
  assumes "dt_config dt = dt_config dt'" and "state_of D dt f = state_of D dt' f"
  shows "fst (score D dt f v) = fst (score D dt' f v)"
    and "state_of D (snd (score D dt f v)) f = state_of D (snd (score D dt' f v)) f"
  using assms by (simp_all add: score_def Let_def state_of_def)

lemma score_warm: "fst (score D dt f v) = None \<longleftrightarrow> es_samples (state_of D dt f) < min_samples (dt_config dt)"
  by (cases "es_samples (state_of D dt f) = 0") (auto simp: score_def Let_def not_le word_gt_0)

lemma score_run_independent:
  "dt_config dt = dt_config dt' \<Longrightarrow> state_of D dt f = state_of D dt' f \<Longrightarrow>
   filter (\<lambda>r. fst r = f) (fst (score_run D dt vs)) = fst (score_run D dt' (filter (\<lambda>r. fst r = f) vs))"
proof (induction vs arbitrary: dt dt')
  case (Cons w vs)
  obtain g v where w: "w = (g, v)" by force
  show ?case
  proof (cases "g = f")
    case True
    have "dt_config (snd (score D dt f v)) = dt_config (snd (score D dt' f v))"
      by (simp add: score_frame(1) Cons.prems(1))
    from Cons.IH [OF this score_cong(2) [OF Cons.prems]] score_cong(1) [OF Cons.prems, of v] True
    show ?thesis by (simp add: w case_prod_beta Let_def)
  next
    case False
    with Cons.IH [of "snd (score D dt g v)" dt'] Cons.prems score_frame(1) [of D dt g v]
      score_frame(2) [where f = g and g = f and D = D and dt = dt and v = v]
    show ?thesis by (simp add: w case_prod_beta Let_def)
  qed
qed simp

lemma score_run_warm:
  "unat (es_samples (state_of D dt f)) + length vs < 2 ^ 64 \<Longrightarrow> i < length vs \<Longrightarrow>
   snd (fst (score_run D dt (map (\<lambda>v. (f, v)) vs)) ! i) = None
     \<longleftrightarrow> unat (es_samples (state_of D dt f)) + i < unat (min_samples (dt_config dt))"
proof (induction vs arbitrary: dt i)
  case (Cons v vs)
  let ?dt = "snd (score D dt f v)"
  have "unat (es_samples (state_of D ?dt f)) = Suc (unat (es_samples (state_of D dt f)))"
    unfolding score_samples using Cons.prems(1) by (intro unat_plus_one) simp
  with Cons.IH [of ?dt "i - 1"] Cons.prems score_frame(1) [of D dt f v] score_warm [of D dt f v] show ?case
    by (cases i) (simp_all add: case_prod_beta Let_def word_less_nat_alt)
qed simp

text \<open>The detector warms up: scoring one feature from a new detector, the first \<open>min_samples\<close> values get
  no score and every later one does.\<close>

theorem score_warm_up:
  assumes "length vs < 2 ^ 64" and "i < length vs"
  shows "snd (fst (score_run D (new_detector c) (map (\<lambda>v. (f, v)) vs)) ! i) = None \<longleftrightarrow> i < unat (min_samples c)"
  using score_run_warm [of D "new_detector c" f vs i] assms by (simp add: new_detector_def state_of_def)

theorem score_warm_up_witness:
  "length [1, 1, 5 :: int] < 2 ^ 64 \<and> (2 :: nat) < length [1, 1, 5 :: int]
     \<and> snd (fst (score_run int_doubles (new_detector sample_config) (map (\<lambda>v. (''f'', v)) [1, 1, 5])) ! 2) \<noteq> None"
proof -
  have "unat (min_samples sample_config) = 2" by (simp add: sample_config_def)
  then show ?thesis using score_warm_up [of "[1, 1, 5]" 2 int_doubles sample_config "''f''"] by simp
qed

text \<open>Features are scored independently: in any interleaving of values for several features, the
  scores of one feature are those it gets when its values come alone.\<close>

theorem score_independent:
  "filter (\<lambda>r. fst r = f) (fst (score_run D (new_detector c) vs))
    = fst (score_run D (new_detector c) (filter (\<lambda>r. fst r = f) vs))"
  by (rule score_run_independent) simp_all

section \<open>What the monitor reports\<close>

lemma emit_configs:
  "am_config (snd (maybe_emit D e f r d v om)) = am_config (snd om)"
  "am_extractor (snd (maybe_emit D e f r d v om)) = am_extractor (snd om)"
  "dt_config (am_detector (snd (maybe_emit D e f r d v om))) = dt_config (am_detector (snd om))"
  by (simp_all add: maybe_emit_def case_prod_beta Let_def score_frame(1) split: option.split)

lemma emit_optional_configs:
  "am_config (snd (emit_optional D e f r d v om)) = am_config (snd om)"
  "am_extractor (snd (emit_optional D e f r d v om)) = am_extractor (snd om)"
  "dt_config (am_detector (snd (emit_optional D e f r d v om))) = dt_config (am_detector (snd om))"
  by (simp_all add: emit_optional_def emit_configs split: option.split)
















inductive monitor_reachable :: "'d double_ops \<Rightarrow> 'd AnomalyConfig \<Rightarrow> 'd AnomalyMonitor \<Rightarrow> bool" for D c where
  monitor_new: "monitor_reachable D c (new_monitor c)"
| monitor_observe: "monitor_reachable D c m \<Longrightarrow> observe D m e b = Some (as, m') \<Longrightarrow> monitor_reachable D c m'"

lemma extract_config: "extract_features D x e b = Some (f, x') \<Longrightarrow> fx_config x' = fx_config x"
  by (auto simp: extract_features_def expire_event_windows_def expire_mid_window_def bind_eq_Some_conv Let_def
      dest!: current_features_windows(3))

lemma observe_final:
  assumes "observe D m e b = Some (as, m')" and "extract_features D (am_extractor m) e b = Some (ft, x)"
  shows "am_config m' = am_config m" "am_extractor m' = x" "dt_config (am_detector m') = dt_config (am_detector m)"
proof -
  have "am_config (snd om) = am_config m \<and> am_extractor (snd om) = x \<and> dt_config (am_detector (snd om)) = dt_config (am_detector m)"
    if "observe D m e b = Some om" for om
    using that assms(2)
    by (simp add: observe_def Let_def, elim subst) (simp add: emit_configs emit_optional_configs)
  from this [OF assms(1)] show "am_config m' = am_config m" "am_extractor m' = x"
    "dt_config (am_detector m') = dt_config (am_detector m)" by simp_all
qed

lemma monitor_configs:
  "monitor_reachable D c m \<Longrightarrow> am_config m = c \<and> fx_config (am_extractor m) = c \<and> dt_config (am_detector m) = c"
proof (induction rule: monitor_reachable.induct)
  case monitor_new
  then show ?case by (simp add: new_monitor_def new_feature_extractor_def new_detector_def)
next
  case (monitor_observe m e b as m')
  then obtain ft x where ft: "extract_features D (am_extractor m) e b = Some (ft, x)"
    by (auto simp: observe_def bind_eq_Some_conv)
  have "m' = snd (as, m')" by simp
  with monitor_observe ft extract_config [OF ft] show ?case
    by (metis (no_types, lifting) observe_final)
qed




text \<open>\<^verbatim>\<open>reset\<close> puts a monitor that has observed any events back into the state of a new monitor with
  the same configuration.\<close>

theorem monitor_reset_is_new:
  assumes "monitor_reachable D c m"
  shows "monitor_reset m = new_monitor c"
  using monitor_configs [OF assms]
  by (simp add: monitor_reset_def new_monitor_def extractor_reset_def detector_reset_def
      new_feature_extractor_def new_detector_def)

theorem monitor_reset_witness:
  "\<exists>as m. observe int_doubles (new_monitor sample_config) (stamped 5) new_book = Some (as, m)
     \<and> length (message_window (am_extractor m)) = 1 \<and> monitor_reset m = new_monitor sample_config"
proof -
  let ?m = "new_monitor sample_config"
  obtain ft x where ft: "extract_features int_doubles (am_extractor ?m) (stamped 5) new_book = Some (ft, x)"
    and one: "length (message_window x) = 1"
    by (rule extract_cases [where x = "am_extractor ?m" and mw = "[]" and cw = "[]" and pw = "[]" and D = int_doubles
          and e = "stamped 5" and b = new_book]) (simp_all add: new_monitor_def new_feature_extractor_def)
  then obtain as m where om: "observe int_doubles ?m (stamped 5) new_book = Some (as, m)"
    by (auto simp: observe_def Let_def) (metis surj_pair)
  have "monitor_reset m = ?m"
    using monitor_reset_is_new monitor_observe [OF monitor_new om] by blast
  with om one observe_final(2) [OF om ft] show ?thesis by blast
qed

section \<open>The summary of reasons\<close>

lemma string_less_irrefl: "\<not> string_less a a"
  by (induction a) auto

lemma string_less_trans: "string_less a b \<Longrightarrow> string_less b c \<Longrightarrow> string_less a c"
proof (induction a b arbitrary: c rule: string_less.induct)
  case (3 x xs y ys)
  then show ?case by (cases c) auto
next
  case (2 y ys)
  then show ?case by (cases c) auto
qed simp

lemma string_less_total: "a \<noteq> b \<Longrightarrow> string_less a b \<or> string_less b a"
proof (induction a b rule: string_less.induct)
  case (1 xs)
  then show ?case by (cases xs) auto
next
  case (3 x xs y ys)
  have "(of_char x :: nat) = of_char y \<Longrightarrow> x = y" by (simp add: of_char_eq_iff)
  with 3 show ?case by (metis (no_types) linorder_neqE_nat string_less.simps(3))
qed simp

interpretation string_cmp: comparator string_less
  by unfold_locales (auto simp: string_less_irrefl dest: string_less_total intro: string_less_trans)

lemma increment_count_map:
  assumes "sorted_wrt string_less (map fst m)"
  shows "sorted_wrt string_less (map fst (increment_count k m))"
    and "map_of (increment_count k m) = (map_of m)(k \<mapsto> (case map_of m k of None \<Rightarrow> 0 | Some n \<Rightarrow> n) + 1)"
  using assms string_cmp.sorted_subscript [OF assms, of 0 k] string_cmp.map_of_subscript [OF assms, of 0 k]
  by (auto simp: increment_count_def Let_def map_of_al_assign fun_eq_iff split: option.split)

definition reason_count :: "'d AnomalyEvent list \<Rightarrow> string \<Rightarrow> nat" where
  "reason_count as r = count_list (map an_reason as) r"

lemma summarize_counts:
  "sorted_wrt string_less (map fst (summarize_anomaly_reasons as)) \<and>
   map_of (summarize_anomaly_reasons as) r =
     (if reason_count as r = 0 then None else Some (of_nat (reason_count as r)))"
proof (induction as rule: rev_induct)
  case Nil
  then show ?case by (simp add: summarize_anomaly_reasons_def reason_count_def)
next
  case (snoc a as)
  then show ?case
    by (auto simp: summarize_anomaly_reasons_def increment_count_map reason_count_def)
qed

text \<open>The summary has one entry per reason that occurs, in lexicographic order, and its value is the number
  of reports with that reason (modulo \<open>2 ^ 64\<close>, the width of \<^verbatim>\<open>std::size_t\<close>).\<close>

theorem summarize_exact:
  "sorted_wrt string_less (map fst (summarize_anomaly_reasons as)) \<and>
   set (map fst (summarize_anomaly_reasons as)) = set (map an_reason as) \<and>
   map_of (summarize_anomaly_reasons as) r =
     (if r \<in> set (map an_reason as) then Some (of_nat (reason_count as r)) else None)"
proof -
  have iff: "r \<in> set (map an_reason as) \<longleftrightarrow> reason_count as r \<noteq> 0" for r
    by (simp add: reason_count_def count_list_0_iff)
  have "set (map fst (summarize_anomaly_reasons as)) = dom (map_of (summarize_anomaly_reasons as))"
    by (simp add: dom_map_of_conv_image_fst)
  also have "\<dots> = set (map an_reason as)"
    using summarize_counts [of as] by (auto simp: iff dom_def split: if_splits simp del: set_map)
  finally show ?thesis
    using summarize_counts [of as r] by (simp add: iff del: set_map)
qed

end
