(* ===== verification/Replay_Properties.thy ===== *)
theory Replay_Properties
  imports Replay_Engine Limit_Book_Refinement Anomaly_Properties
begin

text \<open>
  Correctness of a replay: the loop over the parser is a pass over the parse results of the file,
  that pass is simulated by a pass over the abstract book, and so \<^verbatim>\<open>replay_file\<close> returns, with the
  counters, errors and final views that the rows of the file determine.
\<close>

section \<open>The loop as a pass over parse results\<close>

fun replay_rows ::
  "'d double_ops \<Rightarrow> 'd ReplayOptions \<Rightarrow> CsvParseResult list \<Rightarrow> 'd replay_state \<Rightarrow> 'd replay_state option" where
  "replay_rows D options [] st = Some st"
| "replay_rows D options (r # rs) st = do {
     (go, st') \<leftarrow> replay_step D options r st;
     if go then replay_rows D options rs st' else Some st'
   }"

context result_source
begin

lemma replay_loop_rows: "ok p \<Longrightarrow> replay_loop nxt D options p st = replay_rows D options (pending p) st"
proof (induction "pending p" arbitrary: p st)
  case Nil
  with next_end [of p] show ?case by (auto simp: replay_loop.simps [of nxt D options p] end_of_file_def)
next
  case (Cons r rs)
  with next_result [of p r rs] obtain q where q: "nxt p = (r, q)" "ok q" "pending q = rs" "cr_status r \<noteq> EndOfFile"
    by auto
  have "replay_loop nxt D options q st' = replay_rows D options rs st'" for st'
    using Cons.hyps(1) q by blast
  with q Cons.hyps(2) [symmetric] show ?case
    by (simp add: replay_loop.simps [of nxt D options p] cong: if_cong)
qed

end

section \<open>The pass over the abstract book\<close>

definition replay_error :: "ReplayErrorType \<Rightarrow> CsvParseResult \<Rightarrow> string \<Rightarrow> ReplayError" where
  "replay_error ty r message = \<lparr>re_type = ty, re_line_number = cr_line_number r, re_message = message,
     re_raw_row = cr_raw_row r\<rparr>"

text \<open>One row: whether the pass goes on, the errors it adds and the new book. A row that does not
  parse or is rejected adds an error; an applied event that leaves a forbidden crossed book ends
  the pass.\<close>

definition stops_at :: "'d ReplayOptions \<Rightarrow> spec_book \<Rightarrow> bool" where
  "stops_at options S \<longleftrightarrow> validate_after_apply options \<and> \<not> allow_crossed_book (invariant_options options) \<and> spec_crossed S"

definition spec_row :: "'d ReplayOptions \<Rightarrow> spec_book \<Rightarrow> CsvParseResult \<Rightarrow> bool \<times> ReplayError list \<times> spec_book" where
  "spec_row options S r =
     (case cr_event r of
        None \<Rightarrow> (True, [replay_error ParseError r (cr_message r)], S)
      | Some e \<Rightarrow>
          let (res, S') = spec_apply S e in
          if res \<noteq> Applied
          then (True, [replay_error ApplyRejected r (''book rejected event: '' @ book_result_to_string res)], S)
          else if stops_at options S'
          then (False, [replay_error InvariantFailure r ''book invariant validation failed''], S')
          else (True, [], S'))"

fun spec_replay :: "'d ReplayOptions \<Rightarrow> spec_book \<Rightarrow> CsvParseResult list \<Rightarrow> bool \<times> ReplayError list \<times> spec_book" where
  "spec_replay options S [] = (True, [], S)"
| "spec_replay options S (r # rs) =
     (let (go, es, S') = spec_row options S r in
      if go then let (go', es', S'') = spec_replay options S' rs in (go', es @ es', S'')
      else (False, es, S'))"

definition rejections :: "ReplayError list \<Rightarrow> nat" where
  "rejections es = length (filter (\<lambda>e. re_type e \<noteq> InvariantFailure) es)"

text \<open>The engine's state against the abstract pass.\<close>

definition tracks :: "'d ReplayOptions \<Rightarrow> 'd replay_state \<Rightarrow> bool \<Rightarrow> ReplayError list \<Rightarrow> spec_book \<Rightarrow> bool" where
  "tracks options st go es S \<longleftrightarrow>
     lob_rel (rs_book st) S
   \<and> errors (rs_result st) = es \<and> invariant_failed (rs_result st) = (\<not> go)
   \<and> \<not> file_open_failed (rs_result st)
   \<and> events_processed (rs_result st) = sb_applied S
   \<and> rejected_events (rs_result st) = of_nat (rejections es)
   \<and> anomaly_reason_counts (rs_result st) = summarize_anomaly_reasons (anomalies (rs_result st))
   \<and> (enable_anomaly_detection options \<longrightarrow> stamps_nonneg (am_extractor (rs_monitor st)))"

definition row_ok :: "'d ReplayOptions \<Rightarrow> CsvParseResult \<Rightarrow> bool" where
  "row_ok options r \<longleftrightarrow>
     (case cr_event r of
        None \<Rightarrow> cr_status r = MalformedRow
      | Some e \<Rightarrow> cr_status r = EventParsed \<and> (enable_anomaly_detection options \<longrightarrow> 0 \<le> ns_of (ev_timestamp e)))"

lemma record_anomalies:
  "foldl record_anomaly res as = res\<lparr>
     anomaly_reason_counts := foldl (\<lambda>c a. increment_count (an_reason a) c) (anomaly_reason_counts res) as,
     anomalies := anomalies res @ as\<rparr>"
  by (induction as arbitrary: res) (simp_all add: record_anomaly_def)

lemma observe_nonneg:
  assumes "stamps_nonneg (am_extractor m)" and "0 \<le> ns_of (ev_timestamp e)"
  obtains as m' where "observe D m e b = Some (as, m')" "stamps_nonneg (am_extractor m')"
proof -
  obtain ft x where ft: "extract_features D (am_extractor m) e b = Some (ft, x)" "stamps_nonneg x"
    using extract_nonneg [OF assms] by blast
  then obtain as m' where om: "observe D m e b = Some (as, m')"
    by (auto simp: observe_def Let_def) (metis surj_pair)
  with observe_final(2) [OF om ft(1)] ft(2) show ?thesis by (simp add: that)
qed

lemma watch_tracks:
  assumes "tracks options st go es S" and "row_ok options r" and "cr_event r = Some e"
  obtains st' where "watch_event D options e st = Some st'" "tracks options st' go es S" "rs_book st' = rs_book st"
proof (cases "enable_anomaly_detection options")
  case True
  with assms have "stamps_nonneg (am_extractor (rs_monitor st))" "0 \<le> ns_of (ev_timestamp e)"
    by (simp_all add: tracks_def row_ok_def)
  then obtain as m' where "observe D (rs_monitor st) e (rs_book st) = Some (as, m')" "stamps_nonneg (am_extractor m')"
    by (rule observe_nonneg)
  with True assms(1) show ?thesis
    by (intro that [of "st\<lparr>rs_monitor := m', rs_result := foldl record_anomaly (rs_result st) as\<rparr>"])
      (auto simp: watch_event_def tracks_def record_anomalies summarize_anomaly_reasons_def)
next
  case False
  with assms(1) show ?thesis by (intro that [of st]) (simp_all add: watch_event_def)
qed

lemma rejections_simps [simp]:
  "rejections [] = 0" "rejections (es @ fs) = rejections es + rejections fs"
  "rejections [replay_error ty r m] = (if ty = InvariantFailure then 0 else 1)"
  by (simp_all add: rejections_def replay_error_def)

lemma reject_tracks:
  assumes "tracks options st True es S" and "ty \<noteq> InvariantFailure"
  shows "tracks options (st\<lparr>rs_result := reject_row ty r m (rs_result st)\<rparr>) True (es @ [replay_error ty r m]) S"
  using assms by (simp add: tracks_def reject_row_def push_error_def replay_error_def rejections_def)

lemma step_tracks:
  assumes st: "tracks options st True es S" and r: "row_ok options r" and row: "spec_row options S r = (go, es', S')"
  shows "\<exists>st'. replay_step D options r st = Some (go, st') \<and> tracks options st' go (es @ es') S'"
proof (cases "cr_event r")
  case None
  with assms reject_tracks [OF st, of ParseError r "cr_message r"] show ?thesis
    by (auto simp: replay_step_def row_ok_def spec_row_def)
next
  case (Some e)
  have rel: "lob_rel (rs_book st) S" using st by (simp add: tracks_def)
  obtain res T where app: "spec_apply S e = (res, T)" by force
  with lob.apply_sim [OF rel, of e] obtain b where
    b: "apply_event (rs_book st) e = Some (res, b)" "lob_rel b T" by auto
  have step: "replay_step D options r st = (if res \<noteq> Applied
      then Some (True, st\<lparr>rs_book := b, rs_result := reject_row ApplyRejected r
        (''book rejected event: '' @ book_result_to_string res) (rs_result st)\<rparr>)
      else after_apply D options r e (st\<lparr>rs_book := b\<rparr>))"
    using r Some b(1) by (simp add: replay_step_def row_ok_def Let_def)
  show ?thesis
  proof (cases "res = Applied")
    case False
    with app have "T = S" using spec_apply_rejected [of S e] by simp
    with st b have "tracks options (st\<lparr>rs_book := b\<rparr>) True es S" by (simp add: tracks_def)
    from reject_tracks [OF this, of ApplyRejected r "''book rejected event: '' @ book_result_to_string res"] False row Some app
    show ?thesis by (auto simp: step spec_row_def)
  next
    case True
    let ?st = "st\<lparr>rs_book := b, rs_result := (rs_result st)\<lparr>events_processed := events_processed (rs_result st) + 1\<rparr>\<rparr>"
    have "sb_applied T = sb_applied S + 1" using spec_apply_count [of S e] True app by simp
    with st b have "tracks options ?st True es T" by (simp add: tracks_def)
    from watch_tracks [OF this r Some] obtain st' where
      w: "watch_event D options e ?st = Some st'" "tracks options st' True es T" "rs_book st' = b" by auto
    have inv: "validate_invariants b (invariant_options options) \<longleftrightarrow> allow_crossed_book (invariant_options options) \<or> \<not> spec_crossed T"
      using lob.validate_sim [OF b(2)] by simp
    show ?thesis
      using w row Some app True
      by (auto simp: step after_apply_def Let_def inv spec_row_def stops_at_def tracks_def push_error_def replay_error_def rejections_def)
  qed
qed

lemma rows_tracks:
  assumes "tracks options st True es S" and "\<forall>r \<in> set rs. row_ok options r" and "spec_replay options S rs = (go, es', S')"
  shows "\<exists>st'. replay_rows D options rs st = Some st' \<and> tracks options st' go (es @ es') S'"
  using assms
proof (induction rs arbitrary: st es S es' go S')
  case Nil
  then show ?case by simp
next
  case (Cons r rs)
  obtain g1 es1 S1 where row: "spec_row options S r = (g1, es1, S1)" by (cases "spec_row options S r")
  from step_tracks [OF Cons.prems(1) _ row, where D = D] Cons.prems(2) obtain st1 where
    st1: "replay_step D options r st = Some (g1, st1)" "tracks options st1 g1 (es @ es1) S1" by auto
  show ?case
  proof (cases g1)
    case True
    obtain g2 es2 S2 where rest: "spec_replay options S1 rs = (g2, es2, S2)" by (cases "spec_replay options S1 rs")
    with True row Cons.prems(3) have eq: "go = g2" "es' = es1 @ es2" "S' = S2" by simp_all
    have "tracks options st1 True (es @ es1) S1" using st1(2) True by simp
    from Cons.IH [OF this _ rest] Cons.prems(2) True st1(1) show ?thesis by (simp add: eq)
  next
    case False
    with st1 row Cons.prems(3) show ?thesis by auto
  qed
qed

section \<open>Replaying a file\<close>

lemma start_tracks:
  "tracks options \<lparr>rs_result = new_replay_result, rs_book = clear b, rs_monitor = new_monitor c\<rparr> True [] (spec_empty None)"
proof -
  have "sb_applied (spec_empty None) = 0" by (simp add: spec_empty_def)
  then show ?thesis
    by (simp add: tracks_def lob_rel_cleared new_replay_result_def summarize_anomaly_reasons_def
        stamps_nonneg_def new_monitor_def new_feature_extractor_def)
qed

lemma parse_rows_ok: "r \<in> set (parse_rows n rows) \<Longrightarrow> (cr_event r = None \<and> cr_status r = MalformedRow)
    \<or> ((\<exists>e. cr_event r = Some e) \<and> cr_status r = EventParsed)"
  by (induction n rows rule: parse_rows.induct) (auto simp: parse_row_def malformed_def split: sum.splits)

lemma csv_results_ok: "r \<in> set (csv_results contents) \<Longrightarrow> (cr_event r = None \<and> cr_status r = MalformedRow)
    \<or> ((\<exists>e. cr_event r = Some e) \<and> cr_status r = EventParsed)"
  by (auto simp: csv_results_def header_results_def malformed_def dest: parse_rows_ok split: list.splits if_splits)

text \<open>The events of a file, in order.\<close>

definition csv_events :: "string \<Rightarrow> MarketEvent list" where
  "csv_events contents = List.map_filter cr_event (csv_results contents)"

lemma csv_events_iff: "e \<in> set (csv_events contents) \<longleftrightarrow> (\<exists>r \<in> set (csv_results contents). cr_event r = Some e)"
  by (force simp: csv_events_def map_filter_def)

text \<open>The anomaly monitor is off, or sees no negative timestamp.\<close>

definition safe_stamps :: "'d ReplayOptions \<Rightarrow> string \<Rightarrow> bool" where
  "safe_stamps options contents \<longleftrightarrow>
     (enable_anomaly_detection options \<longrightarrow> list_all (\<lambda>e. 0 \<le> ns_of (ev_timestamp e)) (csv_events contents))"

lemma replay_file_tracks:
  assumes "fs path = Some contents" and "safe_stamps options contents"
    and "spec_replay options (spec_empty None) (csv_results contents) = (go, es, S)"
  shows "\<exists>st. tracks options st go es S \<and> replay_file D fs engine path options
    = Some (finish_replay (rs_book st) (rs_result st), engine\<lparr>engine_book := rs_book st\<rparr>)"
proof -
  let ?p = "new_csv_parser fs path"
  have p: "is_open ?p" "csv_pending ?p = csv_results contents"
    using new_csv_parser_pending [of fs path, OF assms(1)] by simp_all
  have "\<forall>r \<in> set (csv_results contents). row_ok options r"
    using csv_results_ok assms(2) by (fastforce simp: row_ok_def safe_stamps_def list_all_iff csv_events_iff)
  from rows_tracks [OF start_tracks this assms(3), where D = D] obtain st where
    "replay_rows D options (csv_results contents) \<lparr>rs_result = new_replay_result, rs_book = clear (engine_book engine),
        rs_monitor = new_monitor (anomaly_config options)\<rparr> = Some st" "tracks options st go es S" by auto
  with p csv.replay_loop_rows [OF p(1), of D options] show ?thesis
    by (intro exI [of _ st]) (simp add: replay_file_def Let_def)
qed

section \<open>Rows are accounted for\<close>




section \<open>Engines cannot be told apart\<close>

definition same_state :: "'d replay_state \<Rightarrow> 'd replay_state \<Rightarrow> bool" where
  "same_state s t \<longleftrightarrow> rs_result s = rs_result t \<and> rs_monitor s = rs_monitor t
     \<and> (\<exists>S. lob_rel (rs_book s) S \<and> lob_rel (rs_book t) S)"

lemma observe_views:
  assumes "lob_rel a S" and "lob_rel b S"
  shows "observe D m e a = observe D m e b"
  using assms
  by (simp add: observe_def extract_features_def current_features_def lob.top_sim lob.depth_sim)

lemma finish_views: "lob_rel a S \<Longrightarrow> lob_rel b S \<Longrightarrow> finish_replay a res = finish_replay b res"
  using lob.snapshot_sim [of a S] lob.snapshot_sim [of b S] by (simp add: finish_replay_def Let_def lob.top_sim)

lemma watch_same:
  assumes "same_state s t"
  shows "rel_option same_state (watch_event D options e s) (watch_event D options e t)"
proof -
  from assms obtain S where rel: "lob_rel (rs_book s) S" "lob_rel (rs_book t) S" and eq: "rs_result s = rs_result t"
    "rs_monitor s = rs_monitor t" by (auto simp: same_state_def)
  show ?thesis
    using observe_views [OF rel, of D "rs_monitor t" e] rel eq
    by (cases "observe D (rs_monitor t) e (rs_book t)") (auto simp: watch_event_def same_state_def)
qed

lemma after_same:
  assumes "same_state s t"
  shows "rel_option (rel_prod (=) same_state) (after_apply D options r e s) (after_apply D options r e t)"
proof -
  let ?bump = "\<lambda>s. s\<lparr>rs_result := (rs_result s)\<lparr>events_processed := events_processed (rs_result s) + 1\<rparr>\<rparr>"
  have valid: "validate_invariants (rs_book a) opts = validate_invariants (rs_book b) opts" if "same_state a b"
    for a b :: "'a replay_state" and opts
    using that by (auto simp: same_state_def dest!: lob.validate_sim [where opts = opts])
  have "same_state (?bump s) (?bump t)" using assms by (simp add: same_state_def)
  from watch_same [OF this, of D options e] show ?thesis
  proof (cases rule: option.rel_cases)
    case None
    then show ?thesis by (simp add: after_apply_def)
  next
    case (Some a b)
    with valid [OF Some(3)] show ?thesis by (simp add: after_apply_def same_state_def)
  qed
qed

lemma step_same:
  assumes "same_state s t"
  shows "rel_option (rel_prod (=) same_state) (replay_step D options r s) (replay_step D options r t)"
proof (cases "cr_status r = MalformedRow \<or> cr_event r = None")
  case True
  with assms show ?thesis by (auto simp: replay_step_def same_state_def)
next
  case False
  then obtain e where e: "cr_event r = Some e" "cr_status r \<noteq> MalformedRow" by auto
  from assms obtain S where "lob_rel (rs_book s) S" "lob_rel (rs_book t) S" by (auto simp: same_state_def)
  from lob.apply_sim [OF this(1), of e] lob.apply_sim [OF this(2), of e] obtain a b where
    ab: "apply_event (rs_book s) e = Some (fst (spec_apply S e), a)" "apply_event (rs_book t) e = Some (fst (spec_apply S e), b)"
    "lob_rel a (snd (spec_apply S e))" "lob_rel b (snd (spec_apply S e))" by blast
  with assms have "same_state (s\<lparr>rs_book := a\<rparr>) (t\<lparr>rs_book := b\<rparr>)" by (auto simp: same_state_def)
  with after_same [OF this, of D options r e] e ab show ?thesis
    by (simp add: replay_step_def same_state_def Let_def)
qed

lemma rows_same: "same_state s t \<Longrightarrow> rel_option same_state (replay_rows D options rs s) (replay_rows D options rs t)"
proof (induction rs arbitrary: s t)
  case (Cons r rs)
  from step_same [OF Cons.prems, of D options r] show ?case
  proof (cases rule: option.rel_cases)
    case None
    then show ?thesis by simp
  next
    case (Some x y)
    with Cons.IH show ?thesis by (auto simp: rel_prod_sel split: prod.split)
  qed
qed simp

section \<open>Properties\<close>

text \<open>C4: replaying a readable file returns: every row is parsed and applied in file order to a cleared book,
  rows that do not parse or are rejected are recorded as errors and skipped, and the replay stops
  early exactly at the first applied event that leaves a forbidden crossed book. Counters, errors
  and the final top, snapshot and checksum are those of that pass, and the engine keeps the
  resulting book. (With anomaly detection the timestamps must not be negative.)\<close>

theorem replay_correct:
  assumes "fs path = Some contents" and "safe_stamps options contents"
    and "spec_replay options (spec_empty None) (csv_results contents) = (go, es, S)"
  shows "\<exists>result engine'. replay_file D fs engine path options = Some (result, engine')
    \<and> errors result = es \<and> invariant_failed result = (\<not> go) \<and> \<not> file_open_failed result
    \<and> events_processed result = sb_applied S \<and> rejected_events result = of_nat (rejections es)
    \<and> final_top result = spec_top S \<and> final_snapshot result = spec_snapshot S
    \<and> final_checksum result = checksum_book (engine_book engine') \<and> lob_rel (engine_book engine') S"
  using replay_file_tracks [of fs path, OF assms, of D engine]
  by (auto simp: tracks_def finish_replay_def Let_def checksum_book_def lob.top_sim lob.snapshot_sim [simplified])

definition sample_options :: "bool \<Rightarrow> int ReplayOptions" where
  "sample_options detect = \<lparr>invariant_options = \<lparr>allow_crossed_book = False\<rparr>, validate_after_apply = True,
     enable_anomaly_detection = detect, anomaly_config = sample_config\<rparr>"

definition sample_file :: string where
  "sample_file = concat (map (\<lambda>l. l @ [newline]) [kExpectedHeader, ''1,ADD,7,B,100,5'', ''2,ADD,7,B,100,5'', ''3,FOO,1,,,'',
     ''4,ADD,8,S,99,5'', ''5,CANCEL,7,,,''])"

theorem replay_correct_witness:
  "\<exists>result engine'. replay_file int_doubles (\<lambda>_. Some sample_file) new_engine ''f'' (sample_options True) = Some (result, engine')
     \<and> invariant_failed result \<and> events_processed result = 2 \<and> rejected_events result = 2
     \<and> map re_line_number (errors result) = [3, 4, 5]"
proof -
  obtain go es S where run: "spec_replay (sample_options True) (spec_empty None) (csv_results sample_file) = (go, es, S)"
    by (metis prod.exhaust)
  have "\<not> fst (spec_replay (sample_options True) (spec_empty None) (csv_results sample_file))
    \<and> map re_line_number (fst (snd (spec_replay (sample_options True) (spec_empty None) (csv_results sample_file)))) = [3, 4, 5]
    \<and> rejections (fst (snd (spec_replay (sample_options True) (spec_empty None) (csv_results sample_file)))) = 2
    \<and> sb_applied (snd (snd (spec_replay (sample_options True) (spec_empty None) (csv_results sample_file)))) = 2"
    by code_simp
  moreover have "safe_stamps (sample_options True) sample_file" by code_simp
  ultimately show ?thesis
    using replay_correct [of "\<lambda>_. Some sample_file" "''f''", OF refl _ run, of int_doubles new_engine] by (auto simp: run)
qed



text \<open>C13: a replay does not depend on what the engine replayed before: with any earlier book the result, reports
  and checksum included, is the one a new engine returns.\<close>

theorem replay_independent:
  "map_option fst (replay_file D fs engine path options) = map_option fst (replay_file D fs new_engine path options)"
proof (cases "is_open (new_csv_parser fs path)")
  case False
  then show ?thesis
    using finish_views [OF lob_rel_cleared lob_rel_cleared] by (simp add: replay_file_def Let_def)
next
  case True
  let ?st = "\<lambda>b. \<lparr>rs_result = new_replay_result, rs_book = clear b, rs_monitor = new_monitor (anomaly_config options)\<rparr>"
  have "same_state (?st (engine_book engine)) (?st (engine_book new_engine))"
    using lob_rel_cleared by (auto simp: same_state_def)
  from rows_same [OF this, of D options "csv_pending (new_csv_parser fs path)"] show ?thesis
  proof (cases rule: option.rel_cases)
    case None
    with True show ?thesis by (simp add: replay_file_def Let_def csv.replay_loop_rows)
  next
    case (Some x y)
    then obtain S where "lob_rel (rs_book x) S" "lob_rel (rs_book y) S" "rs_result x = rs_result y"
      by (auto simp: same_state_def)
    then have "finish_replay (rs_book x) (rs_result x) = finish_replay (rs_book y) (rs_result y)"
      using finish_views by metis
    with Some True show ?thesis by (simp add: replay_file_def Let_def csv.replay_loop_rows)
  qed
qed

text \<open>A file that cannot be opened gives the empty book and a single error that names the path, and leaves the
  engine with an empty book.\<close>

theorem replay_unopened:
  assumes "fs path = None"
  shows "\<exists>result engine'. replay_file D fs engine path options = Some (result, engine')
    \<and> file_open_failed result \<and> events_processed result = 0 \<and> rejected_events result = 0
    \<and> map re_type (errors result) = [FileOpenFailure] \<and> map re_raw_row (errors result) = [path]
    \<and> final_snapshot result = \<lparr>snap_bids = [], snap_asks = []\<rparr>
    \<and> live_order_count (engine_book engine') = 0"
proof -
  have "\<not> is_open (new_csv_parser fs path)"
    using assms by (simp add: is_open_def new_csv_parser_def new_ifstream_def open_ifstream_def)
  then show ?thesis
    by (simp add: replay_file_def Let_def finish_replay_def new_replay_result_def snapshot_def clear_def live_order_count_def)
qed

theorem replay_unopened_witness:
  "\<exists>result engine'. replay_file int_doubles (\<lambda>_. None) new_engine ''gone.csv'' (sample_options False) = Some (result, engine')
     \<and> map re_raw_row (errors result) = [''gone.csv'']"
  using replay_unopened [of "\<lambda>_. None" "''gone.csv''" int_doubles new_engine "sample_options False"] by auto

section \<open>Reports\<close>

definition reports_counted :: "'d replay_state \<Rightarrow> bool" where
  "reports_counted st \<longleftrightarrow> anomaly_reason_counts (rs_result st) = summarize_anomaly_reasons (anomalies (rs_result st))"

definition keeps_reports :: "'d ReplayOptions \<Rightarrow> 'd replay_state \<Rightarrow> 'd replay_state \<Rightarrow> bool" where
  "keeps_reports options st st' \<longleftrightarrow> (reports_counted st \<longrightarrow> reports_counted st')
     \<and> (\<not> enable_anomaly_detection options \<longrightarrow> anomalies (rs_result st') = anomalies (rs_result st))"

lemma watch_reports: "watch_event D options e st = Some st' \<Longrightarrow> keeps_reports options st st'"
  by (auto simp: watch_event_def bind_eq_Some_conv record_anomalies reports_counted_def keeps_reports_def
      summarize_anomaly_reasons_def split: if_splits)

lemma error_reports:
  "keeps_reports options s (t\<lparr>rs_result := push_error ty r m ((rs_result t)\<lparr>invariant_failed := f\<rparr>)\<rparr>) = keeps_reports options s t"
  "keeps_reports options s (t\<lparr>rs_result := reject_row ty r m (rs_result t)\<rparr>) = keeps_reports options s t"
  by (simp_all add: keeps_reports_def reports_counted_def push_error_def reject_row_def)

lemma after_reports:
  assumes "after_apply D options r e st = Some (go, st')"
  shows "keeps_reports options st st'"
proof -
  let ?st = "st\<lparr>rs_result := (rs_result st)\<lparr>events_processed := events_processed (rs_result st) + 1\<rparr>\<rparr>"
  from assms obtain t where t: "watch_event D options e ?st = Some t"
    and "st' = t \<or> st' = t\<lparr>rs_result := push_error InvariantFailure r ''book invariant validation failed''
          ((rs_result t)\<lparr>invariant_failed := True\<rparr>)\<rparr>"
    by (auto simp: after_apply_def Let_def bind_eq_Some_conv simp del: list.inject split: if_splits)
  moreover have "keeps_reports options st t"
    using watch_reports [OF t] by (simp add: keeps_reports_def reports_counted_def)
  ultimately show ?thesis by (auto simp: error_reports)
qed

lemma step_reports:
  assumes "replay_step D options r st = Some (go, st')"
  shows "keeps_reports options st st'"
proof (cases "cr_status r = MalformedRow")
  case True
  have "keeps_reports options st st" by (simp add: keeps_reports_def)
  with True assms show ?thesis by (auto simp: replay_step_def error_reports)
next
  case False
  with assms obtain e res b where e: "apply_event (rs_book st) e = Some (res, b)"
    "(if res \<noteq> Applied then Some (True, (st\<lparr>rs_book := b\<rparr>)\<lparr>rs_result := reject_row ApplyRejected r
          (''book rejected event: '' @ book_result_to_string res) (rs_result (st\<lparr>rs_book := b\<rparr>))\<rparr>)
        else after_apply D options r e (st\<lparr>rs_book := b\<rparr>)) = Some (go, st')"
    by (auto simp: replay_step_def bind_eq_Some_conv Let_def)
  have st: "keeps_reports options st t \<longleftrightarrow> keeps_reports options (st\<lparr>rs_book := b\<rparr>) t" for t
    by (simp add: keeps_reports_def reports_counted_def)
  have "keeps_reports options (st\<lparr>rs_book := b\<rparr>) (st\<lparr>rs_book := b\<rparr>)" by (simp add: keeps_reports_def)
  then show ?thesis
    using e(2) after_reports [of D options r e "st\<lparr>rs_book := b\<rparr>" go st'] unfolding st
    by (cases "res = Applied") (auto simp only: simp_thms if_True if_False option.inject prod.inject error_reports)
qed

lemma rows_reports: "replay_rows D options rs st = Some st' \<Longrightarrow> keeps_reports options st st'"
proof (induction rs arbitrary: st)
  case Nil
  then show ?case by (simp add: keeps_reports_def)
next
  case (Cons r rs)
  then obtain go st1 where st1: "replay_step D options r st = Some (go, st1)"
    "if go then replay_rows D options rs st1 = Some st' else st1 = st'"
    by (auto simp: bind_eq_Some_conv split: if_splits)
  from step_reports [OF st1(1)] st1(2) Cons.IH [of st1] show ?case by (auto simp: keeps_reports_def split: if_splits)
qed

text \<open>The reason counts that a replay accumulates while it runs are the summary of the reports it returns; without
  anomaly detection there are none.\<close>

theorem replay_reason_counts:
  assumes "replay_file D fs engine path options = Some (result, engine')"
  shows "anomaly_reason_counts result = summarize_anomaly_reasons (anomalies result)
    \<and> (\<not> enable_anomaly_detection options \<longrightarrow> anomalies result = [])"
proof (cases "is_open (new_csv_parser fs path)")
  case False
  with assms show ?thesis
    by (auto simp: replay_file_def Let_def finish_replay_def new_replay_result_def summarize_anomaly_reasons_def)
next
  case True
  let ?st = "\<lparr>rs_result = new_replay_result, rs_book = clear (engine_book engine), rs_monitor = new_monitor (anomaly_config options)\<rparr>"
  from assms True obtain st where "replay_rows D options (csv_pending (new_csv_parser fs path)) ?st = Some st"
    and "result = finish_replay (rs_book st) (rs_result st)"
    by (auto simp: replay_file_def Let_def csv.replay_loop_rows bind_eq_Some_conv)
  with rows_reports [of D options "csv_pending (new_csv_parser fs path)" ?st st] show ?thesis
    by (simp add: keeps_reports_def reports_counted_def finish_replay_def Let_def new_replay_result_def
        summarize_anomaly_reasons_def)
qed

theorem replay_reason_counts_witness:
  "\<exists>result engine'. replay_file int_doubles (\<lambda>_. Some sample_file) new_engine ''f'' (sample_options True) = Some (result, engine')
     \<and> anomaly_reason_counts result = summarize_anomaly_reasons (anomalies result)"
proof -
  have "safe_stamps (sample_options True) sample_file" by code_simp
  with replay_file_tracks [of "\<lambda>_. Some sample_file" "''f''", OF refl] obtain result engine' where
    "replay_file int_doubles (\<lambda>_. Some sample_file) new_engine ''f'' (sample_options True) = Some (result, engine')"
    by (metis prod.exhaust)
  with replay_reason_counts [OF this] show ?thesis by blast
qed

section \<open>Replaying printed events\<close>

definition csv_file :: "MarketEvent list \<Rightarrow> string" where
  "csv_file es = concat (map (\<lambda>l. l @ [newline]) (kExpectedHeader # map csv_row es))"

lemma newline_csv_row: "newline \<notin> set (csv_row e)"
proof -
  have "newline \<notin> set (join_columns cs)" if "\<forall>c \<in> set cs. newline \<notin> set c" for cs
    using that by (induction cs rule: join_columns.induct) auto
  then show ?thesis unfolding csv_row_def using plain_csv_columns by (metis plain_def)
qed

definition printed_result :: "size_t \<Rightarrow> MarketEvent \<Rightarrow> CsvParseResult" where
  "printed_result n e = \<lparr>cr_status = EventParsed, cr_event = Some (csv_normal e), cr_line_number = n,
     cr_message = [], cr_raw_row = csv_row e\<rparr>"

fun printed_results :: "size_t \<Rightarrow> MarketEvent list \<Rightarrow> CsvParseResult list" where
  "printed_results n [] = []"
| "printed_results n (e # es) = printed_result (n + 1) e # printed_results (n + 1) es"

lemma csv_results_file: "csv_results (csv_file es) = printed_results 1 es"
proof -
  have "newline \<notin> set kExpectedHeader" "trim kExpectedHeader = kExpectedHeader" by code_simp+
  moreover have "parse_rows n (map csv_row es) = printed_results n es" for n
    by (induction es arbitrary: n)
      (simp_all add: parse_row_def split_csv_row parse_csv_columns printed_result_def)
  ultimately show ?thesis
    using text_lines_concat [of "kExpectedHeader # map csv_row es"] newline_csv_row
    by (simp add: csv_results_def csv_file_def header_results_def)
qed

lemma spec_apply_normal: "spec_apply S (csv_normal e) = spec_apply S e"
  by (simp add: spec_apply_def csv_normal_def event_order_def split: EventType.split)

lemma spec_replay_printed:
  assumes "\<And>k. \<not> stops_at options (snd (spec_run S (take k es)))"
  shows "\<exists>errs. spec_replay options S (printed_results n es) = (True, errs, snd (spec_run S es))
    \<and> rejections errs = length (filter (\<lambda>r. r \<noteq> Applied) (fst (spec_run S es)))"
  using assms
proof (induction es arbitrary: S n)
  case Nil
  then show ?case by simp
next
  case (Cons e es)
  have stops: "\<not> stops_at options (snd (spec_apply S e))" using Cons.prems [of 1] by simp
  have row: "\<exists>es1. spec_row options S (printed_result m e) = (True, es1, snd (spec_apply S e))
      \<and> rejections es1 = (if fst (spec_apply S e) = Applied then 0 else 1)" for m
    using spec_apply_rejected [of S e] stops
    by (auto simp: spec_row_def printed_result_def spec_apply_normal split: prod.splits)
  have "\<not> stops_at options (snd (spec_run (snd (spec_apply S e)) (take k es)))" for k
    using Cons.prems [of "Suc k"] by simp
  from row [of "n + 1"] Cons.IH [OF this, of "n + 1"] show ?case by auto
qed

text \<open>With the options, a replay of the events is never stopped: validation is off, or the book passes its check after
  every prefix of the events.\<close>

definition stays_valid :: "'d ReplayOptions \<Rightarrow> MarketEvent list \<Rightarrow> bool" where
  "stays_valid options es \<longleftrightarrow> validate_after_apply options \<longrightarrow>
     list_all (\<lambda>k. case run_book apply_event new_book (take k es) of
         Some (rs, b) \<Rightarrow> validate_invariants b (invariant_options options) | None \<Rightarrow> False) [0..<Suc (length es)]"

lemma stays_valid_stops:
  assumes "stays_valid options es"
  shows "\<not> stops_at options (snd (spec_run (spec_empty None) (take k es)))"
proof
  let ?es = "take (min k (length es)) es"
  assume at: "stops_at options (snd (spec_run (spec_empty None) (take k es)))"
  have "take k es = ?es" by (simp add: min_def)
  with at have stops: "validate_after_apply options" "\<not> allow_crossed_book (invariant_options options)"
    "spec_crossed (snd (spec_run (spec_empty None) ?es))"
    unfolding stops_at_def by metis+
  from lob.run_sim [OF lob_rel_new, of ?es] obtain b where
    b: "run_book apply_event new_book ?es = Some (fst (spec_run (spec_empty None) ?es), b)"
    "lob_rel b (snd (spec_run (spec_empty None) ?es))" by blast
  have "min k (length es) \<in> set [0..<Suc (length es)]" by (auto simp: min_def)
  with assms stops(1) b(1) have "validate_invariants b (invariant_options options)"
    by (auto simp: stays_valid_def list_all_iff split: option.splits prod.splits)
  with lob.validate_sim [OF b(2), of "invariant_options options"] stops(2,3) show False by simp
qed

lemma safe_stamps_printed:
  assumes "\<forall>e \<in> set es. 0 \<le> ns_of (ev_timestamp e)"
  shows "safe_stamps options (csv_file es)"
proof -
  have "list_all (\<lambda>r. \<exists>e \<in> set es. cr_event r = Some (csv_normal e)) (printed_results n es)" for n
  proof (induction es arbitrary: n)
    case (Cons e es)
    then have "list_all (\<lambda>r. \<exists>e' \<in> set (e # es). cr_event r = Some (csv_normal e')) (printed_results (n + 1) es)"
      by (fastforce simp: list_all_iff)
    then show ?case by (simp add: printed_result_def)
  qed simp
  moreover have "ev_timestamp (csv_normal e) = ev_timestamp e" for e by (simp add: csv_normal_def split: EventType.split)
  ultimately show ?thesis
    using assms by (fastforce simp: safe_stamps_def csv_events_iff list_all_iff csv_results_file)
qed

text \<open>C5: end to end, writing events in the input format and replaying the file is the same as applying the
  events to a new book: same number of applied and rejected events, same final views and checksum.
  This is for options under which the replay is not stopped: validation is off, or the book passes
  the check the options ask for after every prefix of the events (so crossed books are allowed or do
  not occur); and with anomaly detection on, for events without negative timestamps.\<close>

theorem replay_printed:
  assumes "fs path = Some (csv_file es)" and "stays_valid options es"
    and "enable_anomaly_detection options \<longrightarrow> (\<forall>e \<in> set es. 0 \<le> ns_of (ev_timestamp e))"
  shows "\<exists>result engine' rs b. replay_file D fs engine path options = Some (result, engine')
    \<and> run_book apply_event new_book es = Some (rs, b)
    \<and> events_processed result = events_applied b
    \<and> rejected_events result = of_nat (length (filter (\<lambda>r. r \<noteq> Applied) rs))
    \<and> final_top result = top_of_book b \<and> final_snapshot result = snapshot b \<and> final_checksum result = checksum_book b"
proof -
  let ?S = "snd (spec_run (spec_empty None) es)"
  obtain errs where run: "spec_replay options (spec_empty None) (csv_results (csv_file es)) = (True, errs, ?S)"
    and rej: "rejections errs = length (filter (\<lambda>r. r \<noteq> Applied) (fst (spec_run (spec_empty None) es)))"
    using spec_replay_printed [OF stays_valid_stops [OF assms(2)]] csv_results_file by metis
  have "safe_stamps options (csv_file es)"
    using assms(3) safe_stamps_printed [of es options] by (auto simp: safe_stamps_def)
  from replay_file_tracks [of fs path, OF assms(1) this run, of D engine] obtain st where
    st: "tracks options st True errs ?S" "replay_file D fs engine path options
      = Some (finish_replay (rs_book st) (rs_result st), engine\<lparr>engine_book := rs_book st\<rparr>)" by blast
  from lob.run_sim [OF lob_rel_new, of es] obtain b where
    b: "run_book apply_event new_book es = Some (fst (spec_run (spec_empty None) es), b)" "lob_rel b ?S" by blast
  have rel: "lob_rel (rs_book st) ?S" using st(1) by (simp add: tracks_def)
  have views: "top_of_book (rs_book st) = top_of_book b" "snapshot (rs_book st) = snapshot b"
    using lob.top_sim [OF rel] lob.top_sim [OF b(2)] lob.snapshot_sim [OF rel] lob.snapshot_sim [OF b(2)] by simp_all
  have "events_applied b = sb_applied ?S" by (rule lob.count_sim [OF b(2)])
  with st b(1) rej views show ?thesis
    by (auto simp: tracks_def finish_replay_def Let_def checksum_book_def)
qed

theorem replay_printed_witness:
  "stays_valid (sample_options True) [stamped 1, stamped 2]
     \<and> validate_after_apply (sample_options True) \<and> enable_anomaly_detection (sample_options True)
     \<and> (\<exists>result engine'. replay_file int_doubles (\<lambda>_. Some (csv_file [stamped 1, stamped 2])) new_engine ''f''
          (sample_options True) = Some (result, engine')
        \<and> events_processed result = 1 \<and> rejected_events result = 1)"
proof -
  have valid: "stays_valid (sample_options True) [stamped 1, stamped 2]" by code_simp
  have flags: "validate_after_apply (sample_options True)" "enable_anomaly_detection (sample_options True)" by code_simp+
  have stamps: "ns_of (ev_timestamp (stamped 1)) = 1" "ns_of (ev_timestamp (stamped 2)) = 2" by code_simp+
  have "map_option (\<lambda>(rs, b). (rs, events_applied b)) (run_book apply_event new_book [stamped 1, stamped 2])
      = Some ([Applied, DuplicateOrderId], 1)" by code_simp
  then obtain b where "run_book apply_event new_book [stamped 1, stamped 2] = Some ([Applied, DuplicateOrderId], b)"
    "events_applied b = 1" by auto
  with replay_printed [of "\<lambda>_. Some (csv_file [stamped 1, stamped 2])" "''f''", OF refl valid, of int_doubles new_engine]
    valid flags stamps show ?thesis by auto
qed

end
