(* ===== verification/Replay_Tool.thy ===== *)
theory Replay_Tool
  imports Replay_Properties
begin

text \<open>
  The command line tool (\<^verbatim>\<open>tools/datagine_replay.cpp\<close>): argument handling, the replay, the report on
  standard output, the errors on standard error and the exit code. \<open>argv\<close> has the program name
  first; the file system is an argument, as in the parser.
\<close>

section \<open>The program\<close>

record process =
  std_out :: string
  std_err :: string
  exit_code :: int

definition usage_text :: string where
  "usage_text = ''usage: datagine_replay path/to/events.csv [--anomaly-report]'' @ [newline]"

definition usage_error :: process where
  "usage_error = \<lparr>std_out = [], std_err = usage_text, exit_code = 2\<rparr>"

definition default_replay_options :: "'d double_ops \<Rightarrow> 'd ReplayOptions" where
  "default_replay_options D = \<lparr>invariant_options = \<lparr>allow_crossed_book = False\<rparr>, validate_after_apply = True,
     enable_anomaly_detection = False, anomaly_config = default_anomaly_config D\<rparr>"

text \<open>The comparison of the call of \<^verbatim>\<open>std::sort\<close>: by count, highest first, then by name.\<close>

definition reason_before :: "string \<times> size_t \<Rightarrow> string \<times> size_t \<Rightarrow> bool" where
  "reason_before lhs rhs = (if snd lhs \<noteq> snd rhs then snd rhs < snd lhs else string_less (fst lhs) (fst rhs))"

text \<open>\<^verbatim>\<open>std::sort\<close>, as an insertion sort. Its result is determined by the comparison, which orders any
  two different entries.\<close>

fun insert_by :: "('a \<Rightarrow> 'a \<Rightarrow> bool) \<Rightarrow> 'a \<Rightarrow> 'a list \<Rightarrow> 'a list" where
  "insert_by lt x [] = [x]"
| "insert_by lt x (y # ys) = (if lt x y then x # y # ys else y # insert_by lt x ys)"

fun sort_by :: "('a \<Rightarrow> 'a \<Rightarrow> bool) \<Rightarrow> 'a list \<Rightarrow> 'a list" where
  "sort_by lt [] = []"
| "sort_by lt (x # xs) = insert_by lt x (sort_by lt xs)"

definition top_reasons :: "(string \<times> size_t) list \<Rightarrow> (string \<times> size_t) list" where
  "top_reasons counts = take 5 (sort_by reason_before counts)"

fun print_reasons :: "(string \<times> size_t) list \<Rightarrow> string" where
  "print_reasons [] = []"
| "print_reasons [(reason, n)] = reason @ ''='' @ show_u64 n"
| "print_reasons ((reason, n) # r # rs) = reason @ ''='' @ show_u64 n @ '', '' @ print_reasons (r # rs)"

definition out_line :: "string \<Rightarrow> string \<Rightarrow> string" where
  "out_line label txt = label @ '': '' @ txt @ [newline]"

definition anomaly_report :: "'d ReplayResult \<Rightarrow> string" where
  "anomaly_report result =
     out_line ''anomaly_count'' (show_u64 (of_nat (length (anomalies result)))) @
     out_line ''top_anomaly_reasons'' (if anomaly_reason_counts result = [] then ''none''
       else print_reasons (top_reasons (anomaly_reason_counts result)))"

definition report_text :: "bool \<Rightarrow> 'd ReplayResult \<Rightarrow> string" where
  "report_text detect result =
     out_line ''events_processed'' (show_u64 (events_processed result)) @
     out_line ''rejected_events'' (show_u64 (rejected_events result)) @
     out_line ''final_top_of_book'' (format_top_of_book (final_top result)) @
     out_line ''final_checksum'' (format_checksum (final_checksum result)) @
     (if detect then anomaly_report result else [])"

definition error_text :: "ReplayError list \<Rightarrow> string" where
  "error_text es = concat (map (\<lambda>e. ''line '' @ show_u64 (re_line_number e) @ '': '' @ re_message e @ [newline]) es)"

definition replay_main :: "'d double_ops \<Rightarrow> file_system \<Rightarrow> string list \<Rightarrow> process option" where
  "replay_main D fs argv =
     (if length argv < 2 \<or> length argv > 3 then Some usage_error
      else if length argv = 3 \<and> argv ! 2 \<noteq> ''--anomaly-report'' then Some usage_error
      else do {
        let options = (default_replay_options D)\<lparr>enable_anomaly_detection := (length argv = 3)\<rparr>;
        (result, engine) \<leftarrow> replay_file D fs new_engine (argv ! 1) options;
        Some \<lparr>std_out = report_text (enable_anomaly_detection options) result, std_err = error_text (errors result),
          exit_code = (if file_open_failed result \<or> invariant_failed result then 1 else 0)\<rparr>
      })"

section \<open>The most frequent reasons\<close>

lemma mset_insert_by [simp]: "mset (insert_by lt x ys) = add_mset x (mset ys)"
  by (induction ys) auto

lemma mset_sort_by [simp]: "mset (sort_by lt xs) = mset xs"
  by (induction xs) auto

lemma set_sort_by: "set (sort_by lt xs) = set xs"
  using arg_cong [OF mset_sort_by, of set_mset] by (metis set_mset_mset)

lemma set_insert_by: "set (insert_by lt x ys) = insert x (set ys)"
  by (induction ys) auto

context comparator
begin

lemma sorted_insert_by:
  "sorted_wrt lt ys \<Longrightarrow> x \<notin> set ys \<Longrightarrow> sorted_wrt lt (insert_by lt x ys)"
proof (induction ys)
  case (Cons y ys)
  with lt_total [of x y] show ?case by (auto simp: set_insert_by intro: lt_trans)
qed simp

lemma sorted_sort_by: "distinct xs \<Longrightarrow> sorted_wrt lt (sort_by lt xs)"
  by (induction xs) (simp_all add: sorted_insert_by set_sort_by)

end

interpretation reason_cmp: comparator reason_before
proof unfold_locales
  show "\<not> reason_before a a" for a by (simp add: reason_before_def string_less_irrefl)
  show "reason_before a c" if "reason_before a b" "reason_before b c" for a b c
    using that by (auto simp: reason_before_def intro: string_less_trans split: if_splits)
  show "a \<noteq> b \<Longrightarrow> reason_before a b \<or> reason_before b a" for a b
    using string_less_total [of "fst a" "fst b"] by (auto simp: reason_before_def prod_eq_iff)
qed

lemma summary_distinct: "distinct (summarize_anomaly_reasons as)"
  using summarize_counts [of as] string_cmp.sorted_keys_distinct by (metis distinct_map)

text \<open>The reasons the tool prints are the first five, or all when there are fewer, of the counted reasons in
  the order by falling count and then by name.\<close>

theorem top_reasons_best:
  "\<exists>rest. mset (top_reasons (summarize_anomaly_reasons as) @ rest) = mset (summarize_anomaly_reasons as)
     \<and> sorted_wrt reason_before (top_reasons (summarize_anomaly_reasons as) @ rest)
     \<and> length (top_reasons (summarize_anomaly_reasons as)) = min 5 (length (summarize_anomaly_reasons as))"
proof -
  let ?c = "summarize_anomaly_reasons as"
  let ?s = "sort_by reason_before ?c"
  have "top_reasons ?c @ drop 5 ?s = ?s" by (simp add: top_reasons_def)
  moreover have "length ?s = length ?c" using mset_sort_by by (metis size_mset)
  ultimately show ?thesis
    using reason_cmp.sorted_sort_by [OF summary_distinct, of as]
    by (intro exI [of _ "drop 5 ?s"]) (simp add: top_reasons_def min.commute)
qed

section \<open>Outcomes of the program\<close>

definition usage_ok :: "string list \<Rightarrow> bool" where
  "usage_ok argv \<longleftrightarrow> length argv = 2 \<or> (length argv = 3 \<and> argv ! 2 = ''--anomaly-report'')"

definition main_options :: "'d double_ops \<Rightarrow> bool \<Rightarrow> 'd ReplayOptions" where
  "main_options D detect = (default_replay_options D)\<lparr>enable_anomaly_detection := detect\<rparr>"

lemma replay_main_usage:
  "replay_main D fs argv = (if usage_ok argv then do {
      (result, engine) \<leftarrow> replay_file D fs new_engine (argv ! 1) (main_options D (length argv = 3));
      Some \<lparr>std_out = report_text (length argv = 3) result, std_err = error_text (errors result),
        exit_code = (if file_open_failed result \<or> invariant_failed result then 1 else 0)\<rparr>
    } else Some usage_error)"
  by (auto simp: replay_main_def usage_ok_def main_options_def Let_def)

lemma main_options_replay: "spec_replay (main_options D detect) T rs = spec_replay (default_replay_options D) T rs"
proof -
  have "stops_at (main_options D detect) = stops_at (default_replay_options D)"
    by (simp add: fun_eq_iff stops_at_def main_options_def)
  then have "spec_row (main_options D detect) = spec_row (default_replay_options D)" by (intro ext) (simp only: spec_row_def)
  then show ?thesis by (induction rs arbitrary: T) (simp_all cong: if_cong)
qed

text \<open>C36: the exit code. The program returns (with the anomaly report asked for, on files without negative
  timestamps); its exit code is 2 exactly for a wrong command line, and 0 exactly when the file can be read
  and no applied event leaves the book crossed.\<close>

theorem main_exit:
  assumes "\<And>contents. fs (argv ! 1) = Some contents \<Longrightarrow> safe_stamps (main_options D (length argv = 3)) contents"
  shows "\<exists>p. replay_main D fs argv = Some p \<and> exit_code p \<in> {0, 1, 2} \<and> (exit_code p = 2 \<longleftrightarrow> \<not> usage_ok argv)
    \<and> (exit_code p = 0 \<longleftrightarrow> usage_ok argv \<and> (\<exists>contents. fs (argv ! 1) = Some contents
        \<and> fst (spec_replay (default_replay_options D) (spec_empty None) (csv_results contents))))"
proof (cases "usage_ok argv \<and> fs (argv ! 1) \<noteq> None")
  case False
  then show ?thesis
  proof (cases "usage_ok argv")
    case True
    with False have "\<not> is_open (new_csv_parser fs (argv ! 1))"
      by (simp add: is_open_def new_csv_parser_def new_ifstream_def open_ifstream_def)
    with True False show ?thesis
      by (simp add: replay_main_usage replay_file_def Let_def finish_replay_def)
  qed (simp add: replay_main_usage usage_error_def)
next
  case True
  then obtain contents where c: "fs (argv ! 1) = Some contents" by blast
  let ?o = "main_options D (length argv = 3)"
  obtain go es S where run: "spec_replay ?o (spec_empty None) (csv_results contents) = (go, es, S)"
    by (metis prod.exhaust)
  from replay_file_tracks [where fs = fs and path = "argv ! 1", OF c assms [OF c] run, of D new_engine] obtain st where
    "tracks ?o st go es S" "replay_file D fs new_engine (argv ! 1) ?o
      = Some (finish_replay (rs_book st) (rs_result st), new_engine\<lparr>engine_book := rs_book st\<rparr>)" by blast
  with True c run show ?thesis
    by (simp add: replay_main_usage finish_replay_def Let_def tracks_def main_options_replay)
qed

theorem main_exit_witness:
  "\<exists>p. replay_main int_doubles (\<lambda>_. Some sample_file) [''datagine_replay'', ''f'', ''--anomaly-report''] = Some p \<and> exit_code p = 1"
proof -
  let ?argv = "[''datagine_replay'', ''f'', ''--anomaly-report'']"
  have "safe_stamps (main_options int_doubles True) sample_file"
    "\<not> fst (spec_replay (default_replay_options int_doubles) (spec_empty None) (csv_results sample_file))" by code_simp+
  with main_exit [of "\<lambda>_. Some sample_file" ?argv int_doubles] show ?thesis by (auto simp: usage_ok_def)
qed

text \<open>What the anomaly report says of the reports of a replay: their number, and the most frequent reasons. \<open>tops\<close> are
  the printed reasons and \<open>others\<close> those left out.\<close>

definition reports_reasons :: "'d AnomalyEvent list \<Rightarrow> string \<Rightarrow> bool" where
  "reports_reasons as txt \<longleftrightarrow> (\<exists>tops others.
     txt = ''anomaly_count: '' @ show_u64 (of_nat (length as)) @ [newline] @ ''top_anomaly_reasons: ''
       @ (if as = [] then ''none'' else drop 2 (concat (map (\<lambda>(r, n). '', '' @ r @ ''='' @ show_u64 n) tops))) @ [newline]
     \<and> distinct (map fst (tops @ others)) \<and> fst ` set (tops @ others) = an_reason ` set as
     \<and> (\<forall>(r, n) \<in> set (tops @ others). n = of_nat (length (filter (\<lambda>a. an_reason a = r) as)))
     \<and> sorted_wrt (\<lambda>x y. snd y < snd x \<or> snd x = snd y \<and> string_less (fst x) (fst y)) (tops @ others)
     \<and> length tops = min 5 (length (tops @ others)))"

lemma print_reasons_text:
  "print_reasons rs = drop 2 (concat (map (\<lambda>(r, n). '', '' @ r @ ''='' @ show_u64 n) rs))"
  by (induction rs rule: print_reasons.induct) (simp_all add: case_prod_beta)

lemma reason_count_filter: "reason_count as r = length (filter (\<lambda>a. an_reason a = r) as)"
  by (induction as) (simp_all add: reason_count_def)

lemma anomaly_report_text:
  assumes "anomaly_reason_counts result = summarize_anomaly_reasons (anomalies result)"
  shows "reports_reasons (anomalies result) (anomaly_report result)"
proof -
  let ?as = "anomalies result" and ?c = "summarize_anomaly_reasons (anomalies result)"
  let ?s = "sort_by reason_before ?c"
  have keys: "set (map fst ?c) = an_reason ` set ?as" using summarize_exact [of ?as "[]"] by auto
  have dist: "distinct (map fst ?c)"
    using summarize_counts [of ?as] string_cmp.sorted_keys_distinct by blast
  have perm: "mset (map fst ?s) = mset (map fst ?c)" "set ?s = set ?c" "length ?s = length ?c"
    by (simp_all add: set_sort_by) (metis mset_sort_by size_mset)
  have "distinct (map fst ?s)" using dist perm(1) by (metis mset_eq_imp_distinct_iff)
  moreover have "n = of_nat (length (filter (\<lambda>a. an_reason a = r) ?as))" if "(r, n) \<in> set ?s" for r n
  proof -
    have "map_of ?c r = Some n" using that dist perm(2) by (simp add: map_of_eq_Some_iff)
    then show ?thesis using summarize_counts [of ?as r] by (auto simp: reason_count_filter split: if_splits)
  qed
  moreover have "sorted_wrt (\<lambda>x y. snd y < snd x \<or> snd x = snd y \<and> string_less (fst x) (fst y)) ?s"
    using reason_cmp.sorted_sort_by [OF summary_distinct, of ?as]
    by (rule sorted_wrt_mono_rel [rotated]) (auto simp: reason_before_def split: if_splits)
  moreover have "?c = [] \<longleftrightarrow> ?as = []" using keys by (metis image_is_empty list.map_disc_iff set_empty)
  moreover have "take 5 ?s @ drop 5 ?s = ?s" by simp
  ultimately show ?thesis
    unfolding reports_reasons_def using keys perm(2,3)
    by (intro exI [of _ "take 5 ?s"] exI [of _ "drop 5 ?s"])
      (auto simp: anomaly_report_def out_line_def assms top_reasons_def print_reasons_text min.commute simp flip: map_append set_append image_Un)
qed

text \<open>C37: the report. Called with a readable file, with or without \<open>--anomaly-report\<close>, the program prints the number of
  applied and of rejected rows, the top of the final book and its checksum, and on standard error
  the line number and message of every error. With \<open>--anomaly-report\<close>, for files without negative
  timestamps, it then prints the number of anomalies of the replay and the five most frequent reasons
  with their counts, by falling count and then by name.\<close>

theorem main_report:
  assumes "fs path = Some contents" and "safe_stamps (main_options D detect) contents"
    and "spec_replay (default_replay_options D) (spec_empty None) (csv_results contents) = (go, es, S)"
  shows "\<exists>result engine' extra. replay_file D fs new_engine path (main_options D detect) = Some (result, engine')
    \<and> (if detect then reports_reasons (anomalies result) extra else extra = [])
    \<and> replay_main D fs ([prog, path] @ (if detect then [''--anomaly-report''] else [])) = Some
      \<lparr>std_out = ''events_processed: '' @ show_u64 (sb_applied S) @ [newline]
          @ ''rejected_events: '' @ show_u64 (of_nat (rejections es)) @ [newline]
          @ ''final_top_of_book: '' @ format_top_of_book (spec_top S) @ [newline]
          @ ''final_checksum: '' @ format_checksum (checksum_snapshot (spec_snapshot S)) @ [newline] @ extra,
       std_err = concat (map (\<lambda>e. ''line '' @ show_u64 (re_line_number e) @ '': '' @ re_message e @ [newline]) es),
       exit_code = (if go then 0 else 1)\<rparr>"
proof -
  let ?o = "main_options D detect"
  have "spec_replay ?o (spec_empty None) (csv_results contents) = (go, es, S)" using assms(3) by (simp add: main_options_replay)
  from replay_file_tracks [of fs path, OF assms(1,2) this, of D new_engine] obtain st where
    st: "tracks ?o st go es S" "replay_file D fs new_engine path ?o
      = Some (finish_replay (rs_book st) (rs_result st), new_engine\<lparr>engine_book := rs_book st\<rparr>)" by blast
  let ?result = "finish_replay (rs_book st) (rs_result st)"
  let ?extra = "if detect then anomaly_report ?result else []"
  have "lob_rel (rs_book st) S" using st(1) by (simp add: tracks_def)
  then have "top_of_book (rs_book st) = spec_top S" "snapshot (rs_book st) = spec_snapshot S"
    using lob.top_sim lob.snapshot_sim by fastforce+
  then have result: "events_processed ?result = sb_applied S" "rejected_events ?result = of_nat (rejections es)"
    "final_top ?result = spec_top S" "final_checksum ?result = checksum_snapshot (spec_snapshot S)" "errors ?result = es"
    "(file_open_failed ?result \<or> invariant_failed ?result) = (\<not> go)"
    "anomaly_reason_counts ?result = summarize_anomaly_reasons (anomalies ?result)"
    using st(1) by (simp_all add: tracks_def finish_replay_def Let_def)
  have extra: "if detect then reports_reasons (anomalies ?result) ?extra else ?extra = []"
    using anomaly_report_text [OF result(7)] by simp
  have "replay_main D fs ([prog, path] @ (if detect then [''--anomaly-report''] else [])) = Some
      \<lparr>std_out = report_text detect ?result, std_err = error_text (errors ?result),
       exit_code = (if file_open_failed ?result \<or> invariant_failed ?result then 1 else 0)\<rparr>"
    using st(2) by (cases detect) (simp_all add: replay_main_usage usage_ok_def)
  also have "\<dots> = Some \<lparr>std_out = ''events_processed: '' @ show_u64 (sb_applied S) @ [newline]
          @ ''rejected_events: '' @ show_u64 (of_nat (rejections es)) @ [newline]
          @ ''final_top_of_book: '' @ format_top_of_book (spec_top S) @ [newline]
          @ ''final_checksum: '' @ format_checksum (checksum_snapshot (spec_snapshot S)) @ [newline] @ ?extra,
       std_err = concat (map (\<lambda>e. ''line '' @ show_u64 (re_line_number e) @ '': '' @ re_message e @ [newline]) es),
       exit_code = (if go then 0 else 1)\<rparr>"
    by (simp add: report_text_def out_line_def error_text_def result)
  finally show ?thesis using st(2) extra by blast
qed

theorem main_report_witness:
  "\<exists>p. replay_main int_doubles (\<lambda>_. Some sample_file) [''datagine_replay'', ''f'', ''--anomaly-report''] = Some p \<and> exit_code p = 1
     \<and> take 19 (std_out p) = ''events_processed: 2'' \<and> take 8 (std_err p) = ''line 3: ''"
proof -
  let ?run = "spec_replay (default_replay_options int_doubles) (spec_empty None) (csv_results sample_file)"
  obtain go es S where run: "?run = (go, es, S)" by (metis prod.exhaust)
  have "\<not> fst ?run \<and> show_u64 (sb_applied (snd (snd ?run))) = ''2''" by code_simp
  moreover have "take 8 (concat (map (\<lambda>e. ''line '' @ show_u64 (re_line_number e) @ '': '' @ re_message e @ [newline]) (fst (snd ?run))))
      = ''line 3: ''" by code_simp
  moreover have "safe_stamps (main_options int_doubles True) sample_file" by code_simp
  ultimately show ?thesis
    using main_report [of "\<lambda>_. Some sample_file" "''f''" sample_file int_doubles True, OF refl _ run, of "''datagine_replay''"]
    by (auto simp: run)
qed

end
