(* ===== verification/Bench_Streams.thy ===== *)
theory Bench_Streams
  imports Replay_Properties Pooled_Refinement
begin

text \<open>
  The workload generators of the benchmarks (\<^verbatim>\<open>bench/datagine_benchmarks.cpp\<close>). The benchmarks stop
  with an error when an event is not applied or a row does not parse; the theorems show that this
  does not happen.
\<close>

section \<open>Generators\<close>

definition make_event :: "EventType \<Rightarrow> u64 \<Rightarrow> Side \<Rightarrow> i64 \<Rightarrow> u64 \<Rightarrow> i64 \<Rightarrow> MarketEvent" where
  "make_event ty order_id side price quantity timestamp = \<lparr>ev_type = ty, ev_timestamp = Timestamp timestamp,
     ev_order_id = OrderId order_id, ev_side = side, ev_price = Price price, ev_quantity = Quantity quantity\<rparr>"

text \<open>Signed addition and multiplication: \<^const>\<open>None\<close> when the result is not representable.\<close>

definition in_i64 :: "int \<Rightarrow> bool" where
  "in_i64 x \<longleftrightarrow> - (2 ^ 63) \<le> x \<and> x < 2 ^ 63"

definition i64_mul :: "i64 \<Rightarrow> i64 \<Rightarrow> i64 option" where
  "i64_mul a b = (if in_i64 (sint a * sint b) then Some (a * b) else None)"

definition i64_add :: "i64 \<Rightarrow> i64 \<Rightarrow> i64 option" where
  "i64_add a b = (if in_i64 (sint a + sint b) then Some (a + b) else None)"

text \<open>One turn of the loop of \<^verbatim>\<open>make_mixed_stream\<close>. The product \<^verbatim>\<open>i * 3\<close> is unsigned and wraps around; the sums
  \<^verbatim>\<open>timestamp + 1\<close> and \<^verbatim>\<open>timestamp + 2\<close> are signed.\<close>

definition mixed_cycle :: "size_t \<Rightarrow> MarketEvent list option" where
  "mixed_cycle i = do {
     let order_id = i + 1;
     let timestamp = i * 3;
     let price = 10000 + i mod 64;
     executed_at \<leftarrow> i64_add timestamp 1;
     cancelled_at \<leftarrow> i64_add timestamp 2;
     Some [make_event Add order_id Buy price 100 timestamp,
       make_event Execute order_id Buy price 40 executed_at,
       make_event Cancel order_id Buy 0 0 cancelled_at]
   }"

fun mixed_cycles :: "size_t list \<Rightarrow> MarketEvent list option" where
  "mixed_cycles [] = Some []"
| "mixed_cycles (i # is) = do {
     events \<leftarrow> mixed_cycle i;
     rest \<leftarrow> mixed_cycles is;
     Some (events @ rest)
   }"

definition make_mixed_stream :: "nat \<Rightarrow> MarketEvent list option" where
  "make_mixed_stream cycles = mixed_cycles (map of_nat [0..<cycles])"

text \<open>The loop of \<^verbatim>\<open>make_feature_stream\<close>; the arguments are the remaining cycles, \<^verbatim>\<open>next_id\<close> and
  \<^verbatim>\<open>timestamp\<close>. Every \<^verbatim>\<open>timestamp++\<close> is a signed addition.\<close>

fun feature_cycles :: "nat \<Rightarrow> u64 \<Rightarrow> i64 \<Rightarrow> MarketEvent list option" where
  "feature_cycles 0 next_id timestamp = Some []"
| "feature_cycles (Suc n) next_id timestamp = do {
     t1 \<leftarrow> i64_add timestamp 1;
     t2 \<leftarrow> i64_add t1 1;
     t3 \<leftarrow> i64_add t2 1;
     t4 \<leftarrow> i64_add t3 1;
     rest \<leftarrow> feature_cycles n (next_id + 1) t4;
     Some ([make_event Add next_id Buy 9995 10 timestamp,
       make_event Cancel next_id Buy 0 0 t1,
       make_event Modify 1 Buy 10000 1000 t2,
       make_event Modify 2 Sell 10005 1000 t3] @ rest)
   }"

definition make_feature_stream :: "nat \<Rightarrow> MarketEvent list option" where
  "make_feature_stream cycles = do {
     t1 \<leftarrow> i64_add 0 1;
     t2 \<leftarrow> i64_add t1 1;
     rest \<leftarrow> feature_cycles cycles 3 t2;
     Some ([make_event Add 1 Buy 10000 1000 0, make_event Add 2 Sell 10005 1000 t1] @ rest)
   }"

definition fixture_row :: "size_t \<Rightarrow> string" where
  "fixture_row i =
     (let order_id = i + 1; timestamp = 100000000 + i;
          side = (if i mod 2 = 0 then ''B'' else ''S'');
          price = (if i mod 2 = 0 then 10000 - i mod 64 else 10025 + i mod 64)
      in show_i64 timestamp @ '',ADD,'' @ show_u64 order_id @ '','' @ side @ '','' @ show_i64 price @ '',100'' @ [newline])"

text \<open>The text that \<^verbatim>\<open>write_csv_fixture\<close> writes.\<close>

definition csv_fixture_text :: "nat \<Rightarrow> string" where
  "csv_fixture_text rows = ''timestamp_ns,event_type,order_id,side,price,quantity'' @ [newline]
     @ concat (map (\<lambda>i. fixture_row (of_nat i)) [0..<rows])"

section \<open>The streams without signed overflow\<close>

text \<open>The streams with wrapping timestamps. They are what the generators return whenever these return; and the
  generators do return for every number of cycles whose timestamps fit.\<close>

definition mixed_cycle_events :: "size_t \<Rightarrow> MarketEvent list" where
  "mixed_cycle_events i =
     (let order_id = i + 1; timestamp = i * 3; price = 10000 + i mod 64 in
      [make_event Add order_id Buy price 100 timestamp,
       make_event Execute order_id Buy price 40 (timestamp + 1),
       make_event Cancel order_id Buy 0 0 (timestamp + 2)])"

definition mixed_stream :: "nat \<Rightarrow> MarketEvent list" where
  "mixed_stream cycles = concat (map (\<lambda>i. mixed_cycle_events (of_nat i)) [0..<cycles])"

fun feature_cycle_events :: "nat \<Rightarrow> u64 \<Rightarrow> i64 \<Rightarrow> MarketEvent list" where
  "feature_cycle_events 0 next_id timestamp = []"
| "feature_cycle_events (Suc n) next_id timestamp =
     [make_event Add next_id Buy 9995 10 timestamp,
      make_event Cancel next_id Buy 0 0 (timestamp + 1),
      make_event Modify 1 Buy 10000 1000 (timestamp + 2),
      make_event Modify 2 Sell 10005 1000 (timestamp + 3)]
     @ feature_cycle_events n (next_id + 1) (timestamp + 4)"

definition feature_stream :: "nat \<Rightarrow> MarketEvent list" where
  "feature_stream cycles =
     [make_event Add 1 Buy 10000 1000 0, make_event Add 2 Sell 10005 1000 1] @ feature_cycle_events cycles 3 2"

lemma i64_add_Some: "i64_add a b = Some r \<Longrightarrow> r = a + b"
  by (simp add: i64_add_def split: if_splits)

lemma sint_of_nat: "k < 2 ^ 63 \<Longrightarrow> sint (of_nat k :: i64) = int k"
  by (simp add: signed_of_nat signed_take_bit_int_eq_self)

lemma i64_add_nat:
  assumes "a + b < 2 ^ 63"
  shows "i64_add (of_nat a) (of_nat b) = Some (of_nat (a + b))"
  using assms by (simp add: i64_add_def in_i64_def sint_of_nat)

lemma i64_add_numerals:
  "a + 1 < 2 ^ 63 \<Longrightarrow> i64_add (of_nat a) 1 = Some (of_nat (a + 1))"
  "a + 2 < 2 ^ 63 \<Longrightarrow> i64_add (of_nat a) 2 = Some (of_nat (a + 2))"
  using i64_add_nat [of a 1] i64_add_nat [of a 2] by simp_all

lemma mixed_cycles_exact:
  "mixed_cycles (map of_nat is) = Some es \<Longrightarrow> es = concat (map (\<lambda>i. mixed_cycle_events (of_nat i)) is)"
  by (induction "is" arbitrary: es)
    (auto simp: mixed_cycle_def mixed_cycle_events_def Let_def bind_eq_Some_conv dest!: i64_add_Some)

lemma make_mixed_stream_exact: "make_mixed_stream n = Some es \<Longrightarrow> es = mixed_stream n"
  by (simp add: make_mixed_stream_def mixed_stream_def mixed_cycles_exact)

lemma mixed_cycles_defined: "\<forall>i \<in> set is. 3 * i + 2 < 2 ^ 63 \<Longrightarrow> mixed_cycles (map of_nat is) \<noteq> None"
proof (induction "is")
  case (Cons i "is")
  have stamp: "(of_nat i :: i64) * 3 = of_nat (3 * i)" by simp
  have "mixed_cycle (of_nat i) \<noteq> None"
    unfolding mixed_cycle_def Let_def stamp using Cons.prems i64_add_numerals [of "3 * i"] by simp
  with Cons show ?case by auto
qed simp

lemma make_mixed_stream_defined:
  assumes "3 * n < 2 ^ 63"
  shows "make_mixed_stream n = Some (mixed_stream n)"
proof -
  have "make_mixed_stream n \<noteq> None"
    unfolding make_mixed_stream_def using assms by (intro mixed_cycles_defined) auto
  then show ?thesis using make_mixed_stream_exact by auto
qed

lemma feature_cycles_exact: "feature_cycles n i t = Some es \<Longrightarrow> es = feature_cycle_events n i t"
proof (induction n arbitrary: i t es)
  case (Suc n)
  from Suc.prems obtain t1 t2 t3 t4 rest where
    t: "t1 = t + 1" "t2 = t1 + 1" "t3 = t2 + 1" "t4 = t3 + 1" and rest: "feature_cycles n (i + 1) t4 = Some rest"
    and es: "es = [make_event Add i Buy 9995 10 t, make_event Cancel i Buy 0 0 t1, make_event Modify 1 Buy 10000 1000 t2,
      make_event Modify 2 Sell 10005 1000 t3] @ rest"
    by (auto simp: bind_eq_Some_conv dest!: i64_add_Some)
  have sums: "t2 = t + 2" "t3 = t + 3" "t4 = t + 4" by (simp_all add: t)
  from Suc.IH [OF rest] show ?case by (simp add: es t(1) sums)
qed simp

lemma i64_increment: "k = Suc a \<Longrightarrow> k < 2 ^ 63 \<Longrightarrow> i64_add (of_nat a) 1 = Some (of_nat k)"
  using i64_add_numerals(1) [of a] by simp

lemma feature_cycles_defined: "t + 4 * n < 2 ^ 63 \<Longrightarrow> feature_cycles n i (of_nat t) \<noteq> None"
proof (induction n arbitrary: i t)
  case (Suc n)
  have steps: "i64_add (of_nat t) 1 = Some (of_nat (t + 1))" "i64_add (of_nat (t + 1)) 1 = Some (of_nat (t + 2))"
    "i64_add (of_nat (t + 2)) 1 = Some (of_nat (t + 3))" "i64_add (of_nat (t + 3)) 1 = Some (of_nat (t + 4))"
    by (rule i64_increment; use Suc.prems in simp)+
  have "feature_cycles n (i + 1) (of_nat (t + 4)) \<noteq> None" using Suc.prems by (intro Suc.IH) simp
  then obtain rest where "feature_cycles n (i + 1) (of_nat (t + 4)) = Some rest" by blast
  then show ?case by (simp only: feature_cycles.simps steps Option.bind.simps) simp
qed simp

lemma make_feature_stream_exact: "make_feature_stream n = Some es \<Longrightarrow> es = feature_stream n"
  by (auto simp: make_feature_stream_def feature_stream_def bind_eq_Some_conv dest!: i64_add_Some feature_cycles_exact)

lemma make_feature_stream_defined:
  assumes "n \<le> 2 ^ 60"
  shows "make_feature_stream n = Some (feature_stream n)"
proof -
  have "feature_cycles n 3 (of_nat 2) \<noteq> None" using assms by (intro feature_cycles_defined) simp
  then have "make_feature_stream n \<noteq> None" by (auto simp: make_feature_stream_def i64_add_def in_i64_def)
  then show ?thesis using make_feature_stream_exact by auto
qed

section \<open>Mixed stream\<close>

lemma spec_run_append:
  "spec_run S (xs @ ys) = (fst (spec_run S xs) @ fst (spec_run (snd (spec_run S xs)) ys), snd (spec_run (snd (spec_run S xs)) ys))"
  by (induction xs arbitrary: S) simp_all

lemma mixed_cycle_run:
  assumes "sb_orders S = []" and "sb_capacity S \<noteq> Some 0"
  shows "spec_run S (mixed_cycle_events i) = ([Applied, Applied, Applied], S\<lparr>sb_applied := sb_applied S + 3\<rparr>)"
proof -
  have "S\<lparr>sb_orders := [], sb_applied := n\<rparr> = S\<lparr>sb_applied := n\<rparr>" for n using assms(1) by (cases S) simp
  then show ?thesis
    using assms
    by (auto simp: mixed_cycle_events_def make_event_def spec_ops
        find_order_def at_capacity_def event_order_def set_quantity_def remove_order_def Let_def split: option.split)
qed

lemma mixed_stream_run:
  assumes "cap \<noteq> Some 0"
  shows "spec_run (spec_empty cap) (mixed_stream n)
    = (replicate (3 * n) Applied, (spec_empty cap)\<lparr>sb_applied := of_nat (3 * n)\<rparr>)"
proof (induction n)
  case 0
  then show ?case by (simp add: mixed_stream_def spec_empty_def)
next
  case (Suc n)
  have stream: "mixed_stream (Suc n) = mixed_stream n @ mixed_cycle_events (of_nat n)" by (simp add: mixed_stream_def)
  let ?S = "(spec_empty cap)\<lparr>sb_applied := of_nat (3 * n)\<rparr>"
  have "sb_orders ?S = []" "sb_capacity ?S \<noteq> Some 0" using assms by (simp_all add: spec_empty_def)
  note cycle = mixed_cycle_run [OF this, of "of_nat n"]
  have "[Applied, Applied, Applied] = replicate 3 Applied" by (simp add: numeral_3_eq_3)
  then have "replicate (3 * n) Applied @ [Applied, Applied, Applied] = replicate (3 * Suc n) Applied"
    by (metis replicate_add add.commute mult_Suc_right)
  moreover have "(of_nat (3 * n) :: u64) + 3 = of_nat (3 * Suc n)" by simp
  ultimately show ?case unfolding stream spec_run_append Suc.IH fst_conv snd_conv cycle by simp
qed

text \<open>The mixed stream is applied completely by the baseline book, and by a pooled book of any positive
  capacity, and leaves both empty.\<close>

theorem mixed_stream_applies:
  assumes "new_pooled_book n = Inr p" and "0 < n" and "make_mixed_stream c = Some es"
  shows "\<exists>b q. run_book apply_event new_book es = Some (replicate (3 * c) Applied, b)
    \<and> live_order_count b = 0
    \<and> run_book pooled_apply_event p es = Some (replicate (3 * c) Applied, q)
    \<and> pooled_live_order_count q = 0"
proof -
  have cap: "(None :: nat option) \<noteq> Some 0" "Some (unat n) \<noteq> Some 0"
    using assms(2) by (simp_all add: unat_eq_zero word_gt_0)
  from lob.run_sim [OF lob_rel_new, of "mixed_stream c"] obtain b where
    b: "run_book apply_event new_book (mixed_stream c) = Some (replicate (3 * c) Applied, b)"
    "lob_rel b ((spec_empty None)\<lparr>sb_applied := of_nat (3 * c)\<rparr>)" unfolding mixed_stream_run [OF cap(1)] by auto
  from pooled.run_sim [OF pooled_rel_new [OF assms(1)], of "mixed_stream c"] obtain q where
    q: "run_book pooled_apply_event p (mixed_stream c) = Some (replicate (3 * c) Applied, q)"
    "pooled_rel q ((spec_empty (Some (unat n)))\<lparr>sb_applied := of_nat (3 * c)\<rparr>)" unfolding mixed_stream_run [OF cap(2)] by auto
  have "live_order_count b = 0" "pooled_live_order_count q = 0"
    using lob.live_sim [OF b(2)] pooled.live_sim [OF q(2)] by (simp_all add: spec_empty_def)
  with b(1) q(1) make_mixed_stream_exact [OF assms(3)] show ?thesis by blast
qed

theorem mixed_stream_applies_witness:
  "\<exists>p q es. new_pooled_book 1 = Inr p \<and> make_mixed_stream 4 = Some es
     \<and> run_book pooled_apply_event p es = Some (replicate 12 Applied, q)"
proof -
  obtain p where p: "new_pooled_book 1 = Inr p"
    by (simp add: new_pooled_book_def node_max_size_def)
  obtain es where "make_mixed_stream 4 = Some es" using make_mixed_stream_defined [of 4] by simp
  with mixed_stream_applies [OF p _ this] p show ?thesis by auto
qed

section \<open>Feature stream\<close>

definition anchor :: "u64 \<Rightarrow> Side \<Rightarrow> i64 \<Rightarrow> i64 \<Rightarrow> order" where
  "anchor i s p t = \<lparr>o_id = OrderId i, o_side = s, o_price = Price p, o_timestamp = Timestamp t, o_quantity = Quantity 1000\<rparr>"

definition anchors :: "order list" where
  "anchors = [anchor 1 Buy 10000 0, anchor 2 Sell 10005 1]"

definition two_sided_top :: TopOfBook where
  "two_sided_top = \<lparr>top_bid = Some \<lparr>pv_price = Price 10000, pv_quantity = Quantity 1000, pv_order_count = 1\<rparr>,
     top_ask = Some \<lparr>pv_price = Price 10005, pv_quantity = Quantity 1000, pv_order_count = 1\<rparr>\<rparr>"

lemma feature_cycle_run:
  assumes "sb_orders S = anchors" and "sb_capacity S = None" and "i \<notin> {1, 2}"
  shows "spec_run S [make_event Add i Buy 9995 10 t, make_event Cancel i Buy 0 0 (t + 1),
      make_event Modify 1 Buy 10000 1000 (t + 2), make_event Modify 2 Sell 10005 1000 (t + 3)]
    = ([Applied, Applied, Applied, Applied], S\<lparr>sb_applied := sb_applied S + 4\<rparr>)"
proof -
  have "S\<lparr>sb_orders := anchors, sb_applied := n\<rparr> = S\<lparr>sb_applied := n\<rparr>" for n using assms(1) by (cases S) simp
  then show ?thesis
    using assms
    by (auto simp: anchors_def anchor_def make_event_def spec_ops find_order_def
        at_capacity_def event_order_def set_quantity_def remove_order_def)
qed

lemma feature_cycles_run:
  assumes "sb_orders S = anchors" and "sb_capacity S = None" and "3 \<le> k" and "k + n \<le> 2 ^ 64"
  shows "spec_run S (feature_cycle_events n (of_nat k) t) = (replicate (4 * n) Applied, S\<lparr>sb_applied := sb_applied S + of_nat (4 * n)\<rparr>)"
  using assms
proof (induction n arbitrary: S k t)
  case 0
  then show ?case by simp
next
  case (Suc n)
  have "unat (of_nat k :: u64) = k" using Suc.prems by (simp add: unat_of_nat)
  then have id: "(of_nat k :: u64) \<notin> {1, 2}" using Suc.prems(3) by auto
  note cycle = feature_cycle_run [OF Suc.prems(1,2) id, of t]
  let ?S = "S\<lparr>sb_applied := sb_applied S + 4\<rparr>"
  have next_k: "(of_nat k :: u64) + 1 = of_nat (Suc k)" by simp
  have rest: "spec_run ?S (feature_cycle_events n (of_nat (Suc k)) (t + 4))
      = (replicate (4 * n) Applied, ?S\<lparr>sb_applied := sb_applied ?S + of_nat (4 * n)\<rparr>)"
    using Suc.prems by (intro Suc.IH) simp_all
  have "[Applied, Applied, Applied, Applied] @ replicate (4 * n) Applied = replicate (4 * Suc n) Applied"
    by (simp add: numeral_eq_Suc)
  with rest show ?case
    unfolding feature_cycle_events.simps spec_run_append cycle fst_conv snd_conv next_k by simp
qed

definition feature_book :: spec_book where
  "feature_book = (spec_empty None)\<lparr>sb_orders := anchors, sb_applied := 2\<rparr>"

lemma feature_stream_run:
  assumes "n < 2 ^ 64 - 3"
  shows "spec_run (spec_empty None) (feature_stream n)
    = (replicate (4 * n + 2) Applied, feature_book\<lparr>sb_applied := sb_applied feature_book + of_nat (4 * n)\<rparr>)"
proof -
  have start: "spec_run (spec_empty None) [make_event Add 1 Buy 10000 1000 0, make_event Add 2 Sell 10005 1000 1]
      = ([Applied, Applied], feature_book)"
    by (simp add: feature_book_def anchors_def anchor_def make_event_def spec_ops
        spec_empty_def find_order_def at_capacity_def event_order_def)
  have "spec_run feature_book (feature_cycle_events n (of_nat 3) 2)
      = (replicate (4 * n) Applied, feature_book\<lparr>sb_applied := sb_applied feature_book + of_nat (4 * n)\<rparr>)"
    using assms by (intro feature_cycles_run [of feature_book 3 n 2]) (simp_all add: feature_book_def spec_empty_def)
  then show ?thesis unfolding feature_stream_def spec_run_append start by simp
qed

text \<open>The feature stream is applied completely, as long as the order ids do not wrap around, and leaves the
  two-sided book of its first two events.\<close>

theorem feature_stream_applies:
  assumes "n < 2 ^ 64 - 3" and "make_feature_stream n = Some es"
  shows "\<exists>b. run_book apply_event new_book es = Some (replicate (4 * n + 2) Applied, b)
    \<and> live_order_count b = 2 \<and> top_of_book b = two_sided_top"
proof -
  let ?S = "feature_book\<lparr>sb_applied := sb_applied feature_book + of_nat (4 * n)\<rparr>"
  from lob.run_sim [OF lob_rel_new, of "feature_stream n"] obtain b where
    b: "run_book apply_event new_book (feature_stream n) = Some (replicate (4 * n + 2) Applied, b)" "lob_rel b ?S"
    unfolding feature_stream_run [OF assms(1)] by auto
  have "spec_top ?S = spec_top feature_book" by (simp add: spec_top_def spec_views_def)
  moreover have "spec_top feature_book = two_sided_top" unfolding two_sided_top_def by code_simp
  moreover have "live_order_count b = 2" using lob.live_sim [OF b(2)] by (simp add: feature_book_def anchors_def)
  ultimately show ?thesis using b(1) lob.top_sim [OF b(2)] make_feature_stream_exact [OF assms(2)] by metis
qed

theorem feature_stream_applies_witness:
  "\<exists>es b. make_feature_stream 3 = Some es \<and> run_book apply_event new_book es = Some (replicate 14 Applied, b) \<and> live_order_count b = 2"
  using feature_stream_applies [of 3 "feature_stream 3"] make_feature_stream_defined [of 3] by auto

section \<open>CSV fixture\<close>

definition fixture_event :: "nat \<Rightarrow> MarketEvent" where
  "fixture_event i = make_event Add (of_nat i + 1) (if even i then Buy else Sell)
     (of_nat (if even i then 10000 - i mod 64 else 10025 + i mod 64)) 100 (100000000 + of_nat i)"

lemma of_nat_mod_word:
  assumes "unat (m :: u64) dvd 2 ^ 64"
  shows "of_nat i mod m = of_nat (i mod unat m)"
proof -
  have "i mod 2 ^ 64 mod unat m = i mod unat m" using assms by (rule mod_mod_cancel)
  moreover have "0 < unat m" using assms by (cases "unat m = 0") simp_all
  then have "i mod unat m < 2 ^ 64" using unat_size_less [of m] by (meson less_trans mod_less_divisor)
  ultimately show ?thesis by (simp add: word_unat_eq_iff unat_mod unat_of_nat)
qed

lemma even_word: "(of_nat i :: u64) mod 2 = 0 \<longleftrightarrow> even i"
proof -
  have "(of_nat i :: u64) mod 2 = of_nat (i mod 2)" using of_nat_mod_word [of 2 i] by simp
  then show ?thesis by (cases "even i") (simp_all add: even_iff_mod_2_eq_zero odd_iff_mod_2_eq_one)
qed

lemma mod_64_word: "(of_nat i :: u64) mod 64 = of_nat (i mod 64)"
  using of_nat_mod_word [of 64 i] by simp

lemma fixture_row_csv: "fixture_row (of_nat i) = csv_row (fixture_event i) @ [newline]"
proof -
  have "show_u64 100 = ''100''" by code_simp
  moreover have "i mod 64 \<le> 10000" using mod_less_divisor [of 64 i] by simp
  ultimately show ?thesis
    by (simp add: fixture_row_def Let_def even_word mod_64_word csv_row_def csv_columns_def fixture_event_def make_event_def of_nat_diff)
qed

lemma csv_fixture_text_file: "csv_fixture_text n = csv_file (map fixture_event [0..<n])"
  by (simp add: csv_fixture_text_def csv_file_def kExpectedHeader_def fixture_row_csv comp_def)

text \<open>A book whose bids are at most and whose asks are at least a price is not crossed.\<close>

definition separated :: "Price \<Rightarrow> order list \<Rightarrow> bool" where
  "separated m A \<longleftrightarrow> list_all (\<lambda>x. if o_side x = Buy then o_price x \<le> m else m \<le> o_price x) A"

lemma separated_not_crossed: "separated m (sb_orders S) \<Longrightarrow> \<not> spec_crossed S"
  unfolding spec_crossed_def separated_def list_all_iff
  by (metis Side.distinct(1) linorder_not_le order_trans)

lemma spec_replay_adds:
  assumes "sb_capacity S = None"
    and "list_all (\<lambda>e. ev_type e = Add \<and> units (ev_quantity e) \<noteq> 0) es"
    and "distinct (map o_id (sb_orders S) @ map ev_order_id es)"
    and "separated m (sb_orders S @ map event_order es)"
  shows "spec_replay options S (printed_results n es) = (True, [],
     S\<lparr>sb_orders := sb_orders S @ map event_order es, sb_applied := sb_applied S + of_nat (length es)\<rparr>)"
  using assms
proof (induction es arbitrary: S n)
  case Nil
  then show ?case by simp
next
  case (Cons e es)
  let ?S = "S\<lparr>sb_orders := sb_orders S @ [event_order e], sb_applied := sb_applied S + 1\<rparr>"
  have e: "ev_type e = Add" "units (ev_quantity e) \<noteq> 0" "ev_order_id e \<notin> o_id ` set (sb_orders S)"
    using Cons.prems(2,3) by auto
  then have "find_order (sb_orders S) (ev_order_id e) = None" by (simp add: find_order_None_iff)
  with e Cons.prems(1) have app: "spec_apply S e = (Applied, ?S)"
    by (simp add: spec_ops at_capacity_def event_order_def)
  have "separated m (sb_orders ?S)" using Cons.prems(4) by (simp add: separated_def)
  then have "\<not> spec_crossed ?S" by (rule separated_not_crossed)
  with app e(1) have row: "spec_row options S (printed_result k e) = (True, [], ?S)" for k
    by (simp add: spec_row_def printed_result_def csv_normal_def stops_at_def)
  have "spec_replay options ?S (printed_results (n + 1) es) = (True, [],
     ?S\<lparr>sb_orders := sb_orders ?S @ map event_order es, sb_applied := sb_applied ?S + of_nat (length es)\<rparr>)"
    using Cons.prems e(3) by (intro Cons.IH) (auto simp: event_order_def separated_def)
  with row show ?case by (simp add: ac_simps)
qed

lemma fixture_separated: "separated (Price 10010) (map (\<lambda>i. event_order (fixture_event i)) is)"
proof -
  have small: "sint (of_nat k :: i64) = int k" if "k < 20000" for k
    using that by (simp add: signed_of_nat signed_take_bit_int_eq_self)
  have "10000 - i mod 64 < (20000 :: nat)" "10025 + i mod 64 < (20000 :: nat)" for i :: nat
    using mod_less_divisor [of 64 i] by simp_all
  note bounds = small [OF this(1)] small [OF this(2)]
  have "sint (10010 :: i64) = 10010" using small [of 10010] by simp
  with bounds show ?thesis
    by (auto simp: separated_def list_all_iff event_order_def fixture_event_def make_event_def less_eq_Price_def)
qed

lemma fixture_ids_distinct:
  assumes "n < 2 ^ 64"
  shows "distinct (map (\<lambda>i. ev_order_id (fixture_event i)) [0..<n])"
proof -
  have "inj_on (\<lambda>i. ev_order_id (fixture_event i)) {0..<n}"
  proof (rule inj_onI)
    fix i j assume "i \<in> {0..<n}" "j \<in> {0..<n}" "ev_order_id (fixture_event i) = ev_order_id (fixture_event j)"
    with assms show "i = j" by (intro of_nat_u64_inj) (simp_all add: fixture_event_def make_event_def)
  qed
  then show ?thesis by (simp add: distinct_map)
qed

text \<open>The CSV fixture replays without an error: every row is parsed and applied, the invariants hold after
  each, whatever the options on crossed books, and all orders are live at the end.\<close>

theorem fixture_replays:
  assumes "fs path = Some (csv_fixture_text n)" and "n < 2 ^ 64" and "\<not> enable_anomaly_detection options"
  shows "\<exists>result engine'. replay_file D fs engine path options = Some (result, engine')
    \<and> events_processed result = of_nat n \<and> rejected_events result = 0 \<and> errors result = []
    \<and> \<not> invariant_failed result \<and> live_order_count (engine_book engine') = of_nat n"
proof -
  let ?es = "map fixture_event [0..<n]"
  let ?S = "(spec_empty None)\<lparr>sb_orders := map event_order ?es, sb_applied := of_nat n\<rparr>"
  have "spec_replay options (spec_empty None) (printed_results 1 ?es) = (True, [], ?S)"
    using spec_replay_adds [of "spec_empty None" ?es "Price 10010" options 1] fixture_separated [of "[0..<n]"]
      fixture_ids_distinct [OF assms(2)]
    by (simp add: spec_empty_def list_all_iff fixture_event_def make_event_def comp_def)
  then have run: "spec_replay options (spec_empty None) (csv_results (csv_fixture_text n)) = (True, [], ?S)"
    by (simp only: csv_fixture_text_file csv_results_file)
  have "safe_stamps options (csv_fixture_text n)" using assms(3) by (simp add: safe_stamps_def)
  from replay_file_tracks [of fs path, OF assms(1) this run, of D engine] obtain st where
    st: "tracks options st True [] ?S" "replay_file D fs engine path options
      = Some (finish_replay (rs_book st) (rs_result st), engine\<lparr>engine_book := rs_book st\<rparr>)" by blast
  moreover have "lob_rel (rs_book st) ?S" using st(1) by (simp add: tracks_def)
  from lob.live_sim [OF this] have "live_order_count (rs_book st) = of_nat n" by simp
  ultimately show ?thesis by (auto simp: tracks_def finish_replay_def Let_def)
qed

theorem fixture_replays_witness:
  "\<exists>result engine'. replay_file int_doubles (\<lambda>_. Some (csv_fixture_text 5000)) new_engine ''f'' (sample_options False)
      = Some (result, engine') \<and> events_processed result = 5000 \<and> errors result = []"
  using fixture_replays [of "\<lambda>_. Some (csv_fixture_text 5000)" "''f''", OF refl, of "sample_options False" int_doubles new_engine]
  by (auto simp: sample_options_def)

end
