(* ===== verification/Spsc_Ring_Buffer.thy ===== *)
theory Spsc_Ring_Buffer
  imports Core_Types Std_Containers
begin

unbundle bit_operations_syntax

text \<open>
  The single-producer/single-consumer ring buffer
  (\<^verbatim>\<open>include/datagine/queue/spsc_ring_buffer.hpp\<close>). First the operations as functions on the
  buffer, which is what a single thread sees, with the interface \<open>bounded_fifo\<close>; then the two
  threads as a step relation in which every atomic load, store and slot access is a step of its
  own and a load of the other thread's counter may return an older value.

  The sequence counters are 64-bit and wrap around; the theorems do not assume that they never
  do.
\<close>

section \<open>The buffer\<close>

record SpscRingBuffer =
  sp_capacity :: size_t
  sp_mask :: size_t
  sp_buffer :: "MarketEvent list"
  sp_write :: u64
  sp_read :: u64

definition is_power_of_two :: "size_t \<Rightarrow> bool" where
  "is_power_of_two v \<longleftrightarrow> v AND (v - 1) = 0"

definition default_event :: MarketEvent where
  "default_event = \<lparr>ev_type = Add, ev_timestamp = Timestamp 0, ev_order_id = OrderId 0, ev_side = Buy,
     ev_price = Price 0, ev_quantity = Quantity 0\<rparr>"

text \<open>
  \<^verbatim>\<open>std::vector<MarketEvent>::max_size()\<close> for 48-byte elements. The vector is constructed before
  the constructor's body checks the capacity.
\<close>

definition event_max_size :: nat where
  "event_max_size = (2 ^ 63 - 1) div 48"

definition new_spsc :: "size_t \<Rightarrow> cpp_exception + SpscRingBuffer" where
  "new_spsc capacity =
     (if event_max_size < unat capacity then Inl LengthError
      else if capacity = 0 \<or> \<not> is_power_of_two capacity
      then Inl (InvalidArgument ''SpscRingBuffer capacity must be a nonzero power of two'')
      else Inr \<lparr>sp_capacity = capacity, sp_mask = capacity - 1,
        sp_buffer = replicate (unat capacity) default_event, sp_write = 0, sp_read = 0\<rparr>)"

definition try_push :: "SpscRingBuffer \<Rightarrow> MarketEvent \<Rightarrow> (bool \<times> SpscRingBuffer) option" where
  "try_push q event =
     (let write = sp_write q; read = sp_read q in
      if write - read \<ge> sp_capacity q then Some (False, q)
      else do {
        buf \<leftarrow> vec_set (sp_buffer q) (write AND sp_mask q) event;
        Some (True, q\<lparr>sp_buffer := buf, sp_write := write + 1\<rparr>)
      })"

text \<open>\<^verbatim>\<open>try_pop\<close>: \<^const>\<open>None\<close> in the result is \<^verbatim>\<open>return false\<close>, with \<^verbatim>\<open>out\<close> untouched.\<close>

definition try_pop :: "SpscRingBuffer \<Rightarrow> (MarketEvent option \<times> SpscRingBuffer) option" where
  "try_pop q =
     (let read = sp_read q; write = sp_write q in
      if write = read then Some (None, q)
      else do {
        event \<leftarrow> vec_at (sp_buffer q) (read AND sp_mask q);
        Some (Some event, q\<lparr>sp_read := read + 1\<rparr>)
      })"

definition spsc_capacity :: "SpscRingBuffer \<Rightarrow> size_t" where
  "spsc_capacity q = sp_capacity q"

definition approximate_size :: "SpscRingBuffer \<Rightarrow> size_t" where
  "approximate_size q = (let write = sp_write q; read = sp_read q in write - read)"

definition spsc_empty :: "SpscRingBuffer \<Rightarrow> bool" where
  "spsc_empty q \<longleftrightarrow> approximate_size q = 0"

definition spsc_full :: "SpscRingBuffer \<Rightarrow> bool" where
  "spsc_full q \<longleftrightarrow> approximate_size q \<ge> sp_capacity q"

section \<open>Powers of two\<close>

lemma and_pred_power_of_two:
  "(a :: nat) AND (a - 1) = 0 \<Longrightarrow> a > 0 \<Longrightarrow> \<exists>k. a = 2 ^ k"
proof (induction a rule: less_induct)
  case (less a)
  show ?case
  proof (cases "even a")
    case True
    then obtain u where u: "a = 2 * u" by (elim evenE)
    with less.prems have "u > 0" "(a - 1) div 2 = u - 1" by auto
    moreover have "a AND (a - 1) = of_bool (odd a \<and> odd (a - 1)) + 2 * ((a div 2) AND ((a - 1) div 2))"
      by (rule and_nat_rec)
    with less.prems(1) u have "u AND ((a - 1) div 2) = 0" by simp
    ultimately obtain k where "u = 2 ^ k" using less.IH [of u] u by auto
    with u have "a = 2 ^ Suc k" by simp
    then show ?thesis by blast
  next
    case False
    then obtain u where u: "a = 2 * u + 1" by (elim oddE)
    with less.prems have "u = 0" by (simp add: and_nat_rec [of "Suc (2 * u)"])
    with u have "a = 2 ^ 0" by simp
    then show ?thesis by blast
  qed
qed

lemma is_power_of_two_iff:
  assumes "v \<noteq> 0"
  shows "is_power_of_two v \<longleftrightarrow> (\<exists>k < 64. unat v = 2 ^ k)"
proof
  have pred: "unat (v - 1) = unat v - 1" using assms by (simp add: unat_minus_one)
  {
    assume "is_power_of_two v"
    then have "unat (v AND (v - 1)) = 0" by (simp add: is_power_of_two_def)
    then have "unat v AND (unat v - 1) = 0" by (simp add: unsigned_and_eq pred)
    moreover have "unat v > 0" using assms by (simp add: unat_gt_0)
    ultimately obtain k where k: "unat v = 2 ^ k" using and_pred_power_of_two by blast
    moreover have "(2 :: nat) ^ k < 2 ^ 64" using unat_size_less [of v] unfolding k .
    then have "k < 64" by (rule power_less_imp_less_exp [rotated]) simp
    ultimately show "\<exists>k < 64. unat v = 2 ^ k" by blast
  }
  {
    assume "\<exists>k < 64. unat v = 2 ^ k"
    then obtain k where k: "unat v = 2 ^ k" by blast
    have "unat (v AND (v - 1)) = 2 ^ k AND (2 ^ k - 1)" by (simp add: unsigned_and_eq pred k)
    also have "\<dots> = take_bit k (2 ^ k)" by (simp add: take_bit_eq_mask mask_eq_exp_minus_1)
    also have "\<dots> = 0" by (simp add: take_bit_eq_mod)
    finally show "is_power_of_two v" by (simp add: is_power_of_two_def unat_eq_zero)
  }
qed

lemma slot_index:
  assumes "unat c = 2 ^ k" and "k < 64"
  shows "unat ((of_nat n :: u64) AND (c - 1)) = n mod unat c"
proof -
  have "c \<noteq> 0" using assms(1) by auto
  then have "unat (c - 1) = 2 ^ k - 1" by (simp add: unat_minus_one assms(1))
  then have "unat ((of_nat n :: u64) AND (c - 1)) = (n mod 2 ^ 64) AND mask k"
    by (simp add: unsigned_and_eq unat_of_nat mask_eq_exp_minus_1)
  also have "\<dots> = (n mod 2 ^ 64) mod 2 ^ k" by (simp flip: take_bit_eq_mask take_bit_eq_mod)
  also have "\<dots> = n mod 2 ^ k"
    using assms(2) by (intro mod_mod_cancel le_imp_power_dvd) simp
  finally show ?thesis by (simp add: assms(1))
qed

lemma counter_distance:
  assumes "m \<le> n" and "n - m < 2 ^ 64"
  shows "unat ((of_nat n :: u64) - of_nat m) = n - m"
proof -
  have "(of_nat n :: u64) - of_nat m = of_nat (n - m)" using assms(1) by (simp add: of_nat_diff)
  with assms(2) show ?thesis by (simp add: unat_of_nat)
qed

lemma slots_distinct:
  assumes "(a :: nat) mod c = b mod c" and "a \<le> b" and "b < a + c"
  shows "a = b"
proof -
  have "c dvd b - a" using assms(1,2) by (metis mod_eq_dvd_iff_nat)
  moreover have "b - a < c" using assms(2,3) by simp
  ultimately show ?thesis using assms(2) by (metis diff_is_0_eq dvd_imp_le le_antisym not_gr_zero not_le)
qed

section \<open>The interface of a bounded FIFO queue\<close>

fun push_list :: "('q \<Rightarrow> 'a \<Rightarrow> (bool \<times> 'q) option) \<Rightarrow> 'q \<Rightarrow> 'a list \<Rightarrow> (bool list \<times> 'q) option" where
  "push_list push q [] = Some ([], q)"
| "push_list push q (x # xs) = do {
     (r, q') \<leftarrow> push q x;
     (rs, q'') \<leftarrow> push_list push q' xs;
     Some (r # rs, q'')
   }"

fun pop_list :: "('q \<Rightarrow> ('a option \<times> 'q) option) \<Rightarrow> 'q \<Rightarrow> nat \<Rightarrow> ('a option list \<times> 'q) option" where
  "pop_list pop q 0 = Some ([], q)"
| "pop_list pop q (Suc n) = do {
     (r, q') \<leftarrow> pop q;
     (rs, q'') \<leftarrow> pop_list pop q' n;
     Some (r # rs, q'')
   }"

locale bounded_fifo =
  fixes holds :: "'q \<Rightarrow> 'a list \<Rightarrow> bool" and cap :: "'q \<Rightarrow> nat"
    and push :: "'q \<Rightarrow> 'a \<Rightarrow> (bool \<times> 'q) option" and pop :: "'q \<Rightarrow> ('a option \<times> 'q) option"
  assumes bounded: "holds q xs \<Longrightarrow> length xs \<le> cap q"
    and push_room: "holds q xs \<Longrightarrow> length xs < cap q \<Longrightarrow>
      \<exists>q'. push q x = Some (True, q') \<and> holds q' (xs @ [x]) \<and> cap q' = cap q"
    and push_full: "holds q xs \<Longrightarrow> length xs = cap q \<Longrightarrow> push q x = Some (False, q)"
    and pop_empty: "holds q [] \<Longrightarrow> pop q = Some (None, q)"
    and pop_first: "holds q (x # xs) \<Longrightarrow> \<exists>q'. pop q = Some (Some x, q') \<and> holds q' xs \<and> cap q' = cap q"
begin

lemma push_all:
  "holds q xs \<Longrightarrow> length xs + length ys \<le> cap q \<Longrightarrow>
   \<exists>q'. push_list push q ys = Some (replicate (length ys) True, q') \<and> holds q' (xs @ ys) \<and> cap q' = cap q"
proof (induction ys arbitrary: q xs)
  case (Cons y ys)
  then have "length xs < cap q" by simp
  from push_room [OF Cons.prems(1) this, of y] obtain q1 where
    q1: "push q y = Some (True, q1)" "holds q1 (xs @ [y])" "cap q1 = cap q" by blast
  with Cons.IH [OF q1(2)] Cons.prems(2) show ?case by auto
qed simp

lemma pop_all:
  "holds q (ys @ xs) \<Longrightarrow>
   \<exists>q'. pop_list pop q (length ys) = Some (map Some ys, q') \<and> holds q' xs \<and> cap q' = cap q"
proof (induction ys arbitrary: q)
  case (Cons y ys)
  from Cons.prems have "holds q (y # ys @ xs)" by simp
  from pop_first [OF this] obtain q1 where
    q1: "pop q = Some (Some y, q1)" "holds q1 (ys @ xs)" "cap q1 = cap q" by blast
  with Cons.IH [OF q1(2)] show ?case by auto
qed simp

end

section \<open>The buffer as a bounded FIFO queue\<close>

definition ring_wf :: "SpscRingBuffer \<Rightarrow> bool" where
  "ring_wf q \<longleftrightarrow> (\<exists>k < 64. unat (sp_capacity q) = 2 ^ k) \<and> sp_mask q = sp_capacity q - 1
     \<and> length (sp_buffer q) = unat (sp_capacity q)"

text \<open>
  The slots from sequence number \<open>m\<close> on hold \<open>xs\<close>; sequence numbers are unbounded here.
\<close>

definition slots_hold :: "SpscRingBuffer \<Rightarrow> nat \<Rightarrow> MarketEvent list \<Rightarrow> bool" where
  "slots_hold q m xs \<longleftrightarrow>
     (\<forall>i < length xs. sp_buffer q ! ((m + i) mod unat (sp_capacity q)) = xs ! i)"

definition ring_holds :: "SpscRingBuffer \<Rightarrow> MarketEvent list \<Rightarrow> bool" where
  "ring_holds q xs \<longleftrightarrow> ring_wf q \<and> length xs \<le> unat (sp_capacity q)
     \<and> (\<exists>m. sp_read q = of_nat m \<and> sp_write q = of_nat (m + length xs) \<and> slots_hold q m xs)"

lemma ring_slot:
  assumes "ring_wf q"
  shows "unat ((of_nat n :: u64) AND sp_mask q) = n mod unat (sp_capacity q)"
    and "n mod unat (sp_capacity q) < length (sp_buffer q)"
proof -
  obtain k where "k < 64" "unat (sp_capacity q) = 2 ^ k" using assms by (auto simp: ring_wf_def)
  with assms slot_index [of "sp_capacity q" k n]
  show "unat ((of_nat n :: u64) AND sp_mask q) = n mod unat (sp_capacity q)"
    "n mod unat (sp_capacity q) < length (sp_buffer q)" by (simp_all add: ring_wf_def)
qed

lemma ring_slot_write:
  assumes "ring_wf q"
  shows "vec_set (sp_buffer q) ((of_nat n :: u64) AND sp_mask q) x = Some ((sp_buffer q)[n mod unat (sp_capacity q) := x])"
    and "vec_at (sp_buffer q) ((of_nat n :: u64) AND sp_mask q) = Some (sp_buffer q ! (n mod unat (sp_capacity q)))"
  using ring_slot [OF assms, of n] by (simp_all add: vec_set_def vec_at_def)

lemma slots_hold_write:
  assumes "ring_wf q" and "slots_hold q m xs" and "length xs < unat (sp_capacity q)"
  shows "slots_hold (q\<lparr>sp_buffer := (sp_buffer q)[(m + length xs) mod unat (sp_capacity q) := x]\<rparr>) m (xs @ [x])"
  unfolding slots_hold_def
proof (intro allI impI)
  fix i assume i: "i < length (xs @ [x])"
  let ?c = "unat (sp_capacity q)"
  have "(m + i) mod ?c \<noteq> (m + length xs) mod ?c" if "i < length xs"
    using slots_distinct [of "m + i" ?c "m + length xs"] that assms(3) by auto
  then show "sp_buffer (q\<lparr>sp_buffer := (sp_buffer q)[(m + length xs) mod ?c := x]\<rparr>)
      ! ((m + i) mod unat (sp_capacity (q\<lparr>sp_buffer := (sp_buffer q)[(m + length xs) mod ?c := x]\<rparr>))) = (xs @ [x]) ! i"
    using assms(2) i ring_slot(2) [OF assms(1), of "m + length xs"]
    by (cases "i < length xs") (auto simp: slots_hold_def nth_append less_Suc_eq)
qed

lemma ring_distance:
  assumes "ring_wf q" and "m \<le> n" and "n - m \<le> unat (sp_capacity q)"
  shows "sp_capacity q \<le> (of_nat n :: u64) - of_nat m \<longleftrightarrow> n - m = unat (sp_capacity q)"
    and "(of_nat n :: u64) = of_nat m \<longleftrightarrow> n = m"
proof -
  have small: "n - m < 2 ^ 64" using assms(3) unat_size_less [of "sp_capacity q"] by simp
  note dist = counter_distance [OF assms(2) small]
  show "sp_capacity q \<le> (of_nat n :: u64) - of_nat m \<longleftrightarrow> n - m = unat (sp_capacity q)"
    using assms(3) by (auto simp: word_le_nat_alt dist)
  have "(of_nat n :: u64) = of_nat m \<longleftrightarrow> unat ((of_nat n :: u64) - of_nat m) = 0"
    by (simp add: unat_eq_zero)
  then show "(of_nat n :: u64) = of_nat m \<longleftrightarrow> n = m" using assms(2) unfolding dist by simp
qed

lemma ring_wf_update [simp]:
  "ring_wf (q\<lparr>sp_write := w\<rparr>) = ring_wf q" "ring_wf (q\<lparr>sp_read := r\<rparr>) = ring_wf q"
  "ring_wf (q\<lparr>sp_buffer := (sp_buffer q)[i := x]\<rparr>) = ring_wf q"
  by (simp_all add: ring_wf_def)

lemma slots_hold_update [simp]:
  "slots_hold (q\<lparr>sp_write := w\<rparr>) m xs = slots_hold q m xs" "slots_hold (q\<lparr>sp_read := r\<rparr>) m xs = slots_hold q m xs"
  by (simp_all add: slots_hold_def)

lemma slots_hold_Cons:
  "slots_hold q m (x # xs) \<longleftrightarrow> sp_buffer q ! (m mod unat (sp_capacity q)) = x \<and> slots_hold q (Suc m) xs"
  by (auto simp: slots_hold_def less_Suc_eq_0_disj)

lemma ring_push_room:
  assumes "ring_holds q xs" and "length xs < unat (sp_capacity q)"
  shows "\<exists>q'. try_push q x = Some (True, q') \<and> ring_holds q' (xs @ [x]) \<and> sp_capacity q' = sp_capacity q"
proof -
  obtain m where wf: "ring_wf q" and m: "sp_read q = of_nat m" "sp_write q = of_nat (m + length xs)"
    "slots_hold q m xs" using assms(1) by (auto simp: ring_holds_def)
  define q' where "q' = q\<lparr>sp_buffer := (sp_buffer q)[(m + length xs) mod unat (sp_capacity q) := x],
    sp_write := of_nat (m + length xs) + 1\<rparr>"
  have "\<not> sp_capacity q \<le> sp_write q - sp_read q"
    unfolding m using ring_distance(1) [OF wf, of m "m + length xs"] assms(2) by simp
  then have "try_push q x = Some (True, q')"
    using ring_slot_write(1) [OF wf, of "m + length xs" x]
    by (simp add: try_push_def Let_def m q'_def)
  moreover have "ring_holds q' (xs @ [x])"
    using slots_hold_write [OF wf m(3) assms(2), of x] wf m assms(2)
    by (auto simp: ring_holds_def q'_def intro!: exI [of _ m])
  ultimately show ?thesis by (simp add: q'_def)
qed

lemma ring_pop_first:
  assumes "ring_holds q (x # xs)"
  shows "\<exists>q'. try_pop q = Some (Some x, q') \<and> ring_holds q' xs \<and> sp_capacity q' = sp_capacity q"
proof -
  obtain m where wf: "ring_wf q" and m: "sp_read q = of_nat m" "sp_write q = of_nat (m + length (x # xs))"
    "slots_hold q m (x # xs)" and len: "length (x # xs) \<le> unat (sp_capacity q)"
    using assms by (auto simp: ring_holds_def)
  have "sp_write q \<noteq> sp_read q"
    unfolding m using ring_distance(2) [OF wf, of m "m + length (x # xs)"] len by simp
  then have "try_pop q = Some (Some x, q\<lparr>sp_read := of_nat m + 1\<rparr>)"
    using ring_slot_write(2) [OF wf, of m] m(3) by (simp add: try_pop_def Let_def m(1) slots_hold_Cons)
  moreover have "ring_holds (q\<lparr>sp_read := of_nat m + 1\<rparr>) xs"
    using wf m len by (auto simp: ring_holds_def slots_hold_Cons intro!: exI [of _ "Suc m"])
  ultimately show ?thesis by simp
qed

interpretation ring: bounded_fifo ring_holds "\<lambda>q. unat (sp_capacity q)" try_push try_pop
proof unfold_locales
  fix q xs x
  show "length xs \<le> unat (sp_capacity q)" if "ring_holds q xs" using that by (simp add: ring_holds_def)
  show "\<exists>q'. try_push q x = Some (True, q') \<and> ring_holds q' (xs @ [x]) \<and> unat (sp_capacity q') = unat (sp_capacity q)"
    if "ring_holds q xs" "length xs < unat (sp_capacity q)"
    using ring_push_room [OF that] by metis
  show "try_push q x = Some (False, q)" if "ring_holds q xs" "length xs = unat (sp_capacity q)"
    using that ring_distance(1) [of q _ "_ + length xs"]
    by (force simp: ring_holds_def try_push_def Let_def)
  show "try_pop q = Some (None, q)" if "ring_holds q []"
    using that by (auto simp: ring_holds_def try_pop_def Let_def)
  show "\<exists>q'. try_pop q = Some (Some x, q') \<and> ring_holds q' xs \<and> unat (sp_capacity q') = unat (sp_capacity q)"
    if "ring_holds q (x # xs)"
    using ring_pop_first [OF that] by metis
qed

lemma ring_size:
  assumes "ring_holds q xs"
  shows "unat (approximate_size q) = length xs"
    and "spsc_full q \<longleftrightarrow> length xs = unat (sp_capacity q)" and "spsc_empty q \<longleftrightarrow> xs = []"
proof -
  obtain m where m: "sp_read q = of_nat m" "sp_write q = of_nat (m + length xs)"
    and len: "length xs \<le> unat (sp_capacity q)" using assms by (auto simp: ring_holds_def)
  show size: "unat (approximate_size q) = length xs"
    unfolding approximate_size_def Let_def m
    using counter_distance [of m "m + length xs"] len unat_size_less [of "sp_capacity q"] by simp
  show "spsc_full q \<longleftrightarrow> length xs = unat (sp_capacity q)"
    using len by (auto simp: spsc_full_def word_le_nat_alt size)
  show "spsc_empty q \<longleftrightarrow> xs = []"
    using size by (metis length_0_conv spsc_empty_def unat_eq_zero)
qed

lemma new_spsc_holds:
  assumes "new_spsc c = Inr q"
  shows "ring_holds q [] \<and> sp_capacity q = c"
proof -
  have "c \<noteq> 0" "is_power_of_two c" using assms by (auto simp: new_spsc_def split: if_splits)
  then have "\<exists>k < 64. unat c = 2 ^ k" by (simp add: is_power_of_two_iff)
  with assms show ?thesis
    by (auto simp: new_spsc_def ring_holds_def ring_wf_def slots_hold_def intro: exI [of _ "0 :: nat"]
        split: if_splits)
qed

section \<open>Two threads\<close>

text \<open>
  The producer and the consumer, each with the values its registers hold. A thread loads its own
  counter exactly; a load of the other thread's counter returns some value that counter has had,
  not older than what the thread saw before (coherence). \<open>pushed\<close> and \<open>popped\<close> record the
  events published by the producer and released by the consumer.
\<close>

datatype producer = PIdle | PLoaded MarketEvent u64 | PRoom MarketEvent u64 | PStored MarketEvent u64

datatype consumer = CIdle | CLoaded u64 | CReady u64 | CCopied MarketEvent u64

record spsc_system =
  shared :: SpscRingBuffer
  prod :: producer
  cons :: consumer
  pushed :: "MarketEvent list"
  popped :: "MarketEvent list"
  prod_seen :: nat
  cons_seen :: nat

inductive spsc_step :: "spsc_system \<Rightarrow> spsc_system \<Rightarrow> bool" where
  push_begin: "prod s = PIdle \<Longrightarrow> spsc_step s (s\<lparr>prod := PLoaded e (sp_write (shared s))\<rparr>)"
| push_no_room: "prod s = PLoaded e w \<Longrightarrow> prod_seen s \<le> r \<Longrightarrow> r \<le> length (popped s) \<Longrightarrow>
    w - of_nat r \<ge> sp_capacity (shared s) \<Longrightarrow> spsc_step s (s\<lparr>prod := PIdle, prod_seen := r\<rparr>)"
| push_has_room: "prod s = PLoaded e w \<Longrightarrow> prod_seen s \<le> r \<Longrightarrow> r \<le> length (popped s) \<Longrightarrow>
    \<not> w - of_nat r \<ge> sp_capacity (shared s) \<Longrightarrow> spsc_step s (s\<lparr>prod := PRoom e w, prod_seen := r\<rparr>)"
| push_store: "prod s = PRoom e w \<Longrightarrow>
    vec_set (sp_buffer (shared s)) (w AND sp_mask (shared s)) e = Some buf \<Longrightarrow>
    spsc_step s (s\<lparr>shared := (shared s)\<lparr>sp_buffer := buf\<rparr>, prod := PStored e w\<rparr>)"
| push_publish: "prod s = PStored e w \<Longrightarrow>
    spsc_step s (s\<lparr>shared := (shared s)\<lparr>sp_write := w + 1\<rparr>, prod := PIdle, pushed := pushed s @ [e]\<rparr>)"
| pop_begin: "cons s = CIdle \<Longrightarrow> spsc_step s (s\<lparr>cons := CLoaded (sp_read (shared s))\<rparr>)"
| pop_none: "cons s = CLoaded r \<Longrightarrow> cons_seen s \<le> w \<Longrightarrow> w \<le> length (pushed s) \<Longrightarrow>
    of_nat w = r \<Longrightarrow> spsc_step s (s\<lparr>cons := CIdle, cons_seen := w\<rparr>)"
| pop_ready: "cons s = CLoaded r \<Longrightarrow> cons_seen s \<le> w \<Longrightarrow> w \<le> length (pushed s) \<Longrightarrow>
    of_nat w \<noteq> r \<Longrightarrow> spsc_step s (s\<lparr>cons := CReady r, cons_seen := w\<rparr>)"
| pop_copy: "cons s = CReady r \<Longrightarrow>
    vec_at (sp_buffer (shared s)) (r AND sp_mask (shared s)) = Some e \<Longrightarrow>
    spsc_step s (s\<lparr>cons := CCopied e r\<rparr>)"
| pop_release: "cons s = CCopied e r \<Longrightarrow>
    spsc_step s (s\<lparr>shared := (shared s)\<lparr>sp_read := r + 1\<rparr>, cons := CIdle, popped := popped s @ [e]\<rparr>)"

inductive_cases spsc_stepE: "spsc_step s s'"

definition spsc_start :: "SpscRingBuffer \<Rightarrow> spsc_system" where
  "spsc_start q = \<lparr>shared = q, prod = PIdle, cons = CIdle, pushed = [], popped = [], prod_seen = 0, cons_seen = 0\<rparr>"

text \<open>
  The invariant. The slots hold the events that are published and not released; the producer's
  view of the consumer lags and so does the consumer's view of the producer, which is what keeps
  them apart.
\<close>

fun prod_ok :: "nat \<Rightarrow> nat \<Rightarrow> SpscRingBuffer \<Rightarrow> producer \<Rightarrow> bool" where
  "prod_ok n seen q PIdle = True"
| "prod_ok n seen q (PLoaded e w) = (w = of_nat n)"
| "prod_ok n seen q (PRoom e w) = (w = of_nat n \<and> n < seen + unat (sp_capacity q))"
| "prod_ok n seen q (PStored e w) = (w = of_nat n \<and> n < seen + unat (sp_capacity q)
     \<and> sp_buffer q ! (n mod unat (sp_capacity q)) = e)"

fun cons_ok :: "MarketEvent list \<Rightarrow> nat \<Rightarrow> nat \<Rightarrow> consumer \<Rightarrow> bool" where
  "cons_ok es m seen CIdle = True"
| "cons_ok es m seen (CLoaded r) = (r = of_nat m)"
| "cons_ok es m seen (CReady r) = (r = of_nat m \<and> m < seen)"
| "cons_ok es m seen (CCopied e r) = (r = of_nat m \<and> m < seen \<and> e = es ! m)"

lemma prod_ok_read [simp]: "prod_ok n seen (q\<lparr>sp_read := r\<rparr>) p = prod_ok n seen q p"
  by (cases p) simp_all

lemma cons_ok_append: "cons_ok es m seen c \<Longrightarrow> seen \<le> length es \<Longrightarrow> cons_ok (es @ [e]) m seen c"
  by (cases c) (auto simp: nth_append)

definition spsc_inv :: "spsc_system \<Rightarrow> bool" where
  "spsc_inv s \<longleftrightarrow> ring_wf (shared s)
     \<and> sp_write (shared s) = of_nat (length (pushed s)) \<and> sp_read (shared s) = of_nat (length (popped s))
     \<and> prod_seen s \<le> length (popped s) \<and> length (popped s) \<le> cons_seen s \<and> cons_seen s \<le> length (pushed s)
     \<and> length (pushed s) \<le> prod_seen s + unat (sp_capacity (shared s))
     \<and> popped s = take (length (popped s)) (pushed s)
     \<and> slots_hold (shared s) (length (popped s)) (drop (length (popped s)) (pushed s))
     \<and> prod_ok (length (pushed s)) (prod_seen s) (shared s) (prod s)
     \<and> cons_ok (pushed s) (length (popped s)) (cons_seen s) (cons s)"

lemma spsc_invD:
  assumes "spsc_inv s"
  shows "ring_wf (shared s)" "sp_write (shared s) = of_nat (length (pushed s))"
    "sp_read (shared s) = of_nat (length (popped s))" "prod_seen s \<le> length (popped s)"
    "length (popped s) \<le> cons_seen s" "cons_seen s \<le> length (pushed s)"
    "length (pushed s) \<le> prod_seen s + unat (sp_capacity (shared s))"
    "popped s = take (length (popped s)) (pushed s)"
    "slots_hold (shared s) (length (popped s)) (drop (length (popped s)) (pushed s))"
    "prod_ok (length (pushed s)) (prod_seen s) (shared s) (prod s)"
    "cons_ok (pushed s) (length (popped s)) (cons_seen s) (cons s)"
  using assms by (auto simp: spsc_inv_def)

lemma spsc_distance:
  assumes "spsc_inv s" and "prod_seen s \<le> r" and "r \<le> length (popped s)"
  shows "sp_capacity (shared s) \<le> of_nat (length (pushed s)) - of_nat r
      \<longleftrightarrow> length (pushed s) - r = unat (sp_capacity (shared s))"
  using spsc_invD [OF assms(1)] assms(2,3) by (intro ring_distance) auto

lemma inv_push_room:
  assumes "spsc_inv s" and "prod s = PLoaded e w" and "prod_seen s \<le> r" and "r \<le> length (popped s)"
  shows "spsc_inv (s\<lparr>prod := PIdle, prod_seen := r\<rparr>)"
    and "\<not> w - of_nat r \<ge> sp_capacity (shared s) \<Longrightarrow> spsc_inv (s\<lparr>prod := PRoom e w, prod_seen := r\<rparr>)"
proof -
  note inv = spsc_invD [OF assms(1)]
  have w: "w = of_nat (length (pushed s))" using inv(10) assms(2) by simp
  show "spsc_inv (s\<lparr>prod := PIdle, prod_seen := r\<rparr>)"
    using inv assms by (simp add: spsc_inv_def)
  assume "\<not> w - of_nat r \<ge> sp_capacity (shared s)"
  then have "length (pushed s) - r \<noteq> unat (sp_capacity (shared s))"
    using spsc_distance [OF assms(1,3,4)] w by simp
  with inv(7) assms(3) have "length (pushed s) < r + unat (sp_capacity (shared s))" by linarith
  with inv w assms show "spsc_inv (s\<lparr>prod := PRoom e w, prod_seen := r\<rparr>)"
    by (simp add: spsc_inv_def)
qed

lemma slots_hold_other:
  assumes "slots_hold q m xs" and "m + length xs \<le> n" and "n < m + unat (sp_capacity q)"
  shows "slots_hold (q\<lparr>sp_buffer := (sp_buffer q)[n mod unat (sp_capacity q) := x]\<rparr>) m xs"
proof -
  have "n mod unat (sp_capacity q) \<noteq> (m + i) mod unat (sp_capacity q)" if "i < length xs" for i
    using slots_distinct [of "m + i" "unat (sp_capacity q)" n] that assms(2,3) by auto
  with assms(1) show ?thesis by (auto simp: slots_hold_def)
qed

lemma inv_push_store:
  assumes "spsc_inv s" and "prod s = PRoom e w"
    and "vec_set (sp_buffer (shared s)) (w AND sp_mask (shared s)) e = Some buf"
  shows "spsc_inv (s\<lparr>shared := (shared s)\<lparr>sp_buffer := buf\<rparr>, prod := PStored e w\<rparr>)"
proof -
  note inv = spsc_invD [OF assms(1)]
  let ?n = "length (pushed s)" and ?c = "unat (sp_capacity (shared s))"
  have w: "w = of_nat ?n" and room: "?n < prod_seen s + ?c" using inv(10) assms(2) by simp_all
  have buf: "buf = (sp_buffer (shared s))[?n mod ?c := e]"
    using assms(3) ring_slot_write(1) [OF inv(1), of ?n e] w by simp
  have "slots_hold ((shared s)\<lparr>sp_buffer := buf\<rparr>) (length (popped s)) (drop (length (popped s)) (pushed s))"
    unfolding buf using inv(4,5,6) room by (intro slots_hold_other [OF inv(9)]) auto
  moreover have "buf ! (?n mod ?c) = e" using ring_slot(2) [OF inv(1), of ?n] by (simp add: buf)
  ultimately show ?thesis
    using inv w room by (simp add: spsc_inv_def buf)
qed

lemma inv_push_publish:
  assumes "spsc_inv s" and "prod s = PStored e w"
  shows "spsc_inv (s\<lparr>shared := (shared s)\<lparr>sp_write := w + 1\<rparr>, prod := PIdle, pushed := pushed s @ [e]\<rparr>)"
proof -
  note inv = spsc_invD [OF assms(1)]
  let ?n = "length (pushed s)" and ?m = "length (popped s)" and ?c = "unat (sp_capacity (shared s))"
  have w: "w = of_nat ?n" and room: "?n < prod_seen s + ?c" and e: "sp_buffer (shared s) ! (?n mod ?c) = e"
    using inv(10) assms(2) by simp_all
  have le: "?m \<le> ?n" using inv(5,6) by simp
  have "slots_hold (shared s) ?m (drop ?m (pushed s) @ [e])"
    using inv(9) e le by (auto simp: slots_hold_def nth_append less_Suc_eq)
  moreover have "popped s = take ?m (pushed s @ [e])" using inv(8) le by simp
  moreover have "cons_ok (pushed s @ [e]) ?m (cons_seen s) (cons s)"
    using inv(6,11) by (rule cons_ok_append [rotated])
  ultimately show ?thesis
    using inv w room le by (simp add: spsc_inv_def)
qed

lemma inv_pop_check:
  assumes "spsc_inv s" and "cons s = CLoaded r" and "cons_seen s \<le> w" and "w \<le> length (pushed s)"
  shows "spsc_inv (s\<lparr>cons := CIdle, cons_seen := w\<rparr>)"
    and "of_nat w \<noteq> r \<Longrightarrow> spsc_inv (s\<lparr>cons := CReady r, cons_seen := w\<rparr>)"
proof -
  note inv = spsc_invD [OF assms(1)]
  have r: "r = of_nat (length (popped s))" using inv(11) assms(2) by simp
  show "spsc_inv (s\<lparr>cons := CIdle, cons_seen := w\<rparr>)"
    using inv assms by (simp add: spsc_inv_def)
  assume "of_nat w \<noteq> r"
  with r inv(5) assms(3) have "length (popped s) < w" by (metis le_neq_implies_less le_trans)
  with inv r assms show "spsc_inv (s\<lparr>cons := CReady r, cons_seen := w\<rparr>)"
    by (simp add: spsc_inv_def)
qed

lemma inv_pop_copy:
  assumes "spsc_inv s" and "cons s = CReady r"
    and "vec_at (sp_buffer (shared s)) (r AND sp_mask (shared s)) = Some e"
  shows "spsc_inv (s\<lparr>cons := CCopied e r\<rparr>)"
proof -
  note inv = spsc_invD [OF assms(1)]
  let ?m = "length (popped s)"
  have r: "r = of_nat ?m" and seen: "?m < cons_seen s" using inv(11) assms(2) by simp_all
  have "drop ?m (pushed s) = pushed s ! ?m # drop (Suc ?m) (pushed s)"
    using seen inv(6) by (intro Cons_nth_drop_Suc [symmetric]) simp
  then have "e = pushed s ! ?m"
    using assms(3) ring_slot_write(2) [OF inv(1), of ?m] r inv(9) by (simp add: slots_hold_Cons)
  with inv r seen show ?thesis
    by (simp add: spsc_inv_def)
qed

lemma inv_pop_release:
  assumes "spsc_inv s" and "cons s = CCopied e r"
  shows "spsc_inv (s\<lparr>shared := (shared s)\<lparr>sp_read := r + 1\<rparr>, cons := CIdle, popped := popped s @ [e]\<rparr>)"
proof -
  note inv = spsc_invD [OF assms(1)]
  let ?m = "length (popped s)"
  have r: "r = of_nat ?m" and seen: "?m < cons_seen s" and e: "e = pushed s ! ?m"
    using inv(11) assms(2) by simp_all
  have lt: "?m < length (pushed s)" using seen inv(6) by simp
  have "slots_hold (shared s) (Suc ?m) (drop (Suc ?m) (pushed s))"
    using inv(9) Cons_nth_drop_Suc [OF lt] by (metis slots_hold_Cons)
  moreover have "popped s @ [e] = take (Suc ?m) (pushed s)"
    using inv(8) e lt by (simp add: take_Suc_conv_app_nth)
  ultimately show ?thesis
    using inv r seen by (simp add: spsc_inv_def)
qed

lemma spsc_inv_step: "spsc_step s s' \<Longrightarrow> spsc_inv s \<Longrightarrow> spsc_inv s'"
proof (induction rule: spsc_step.induct)
  case (push_begin s e)
  then show ?case by (simp add: spsc_inv_def)
next
  case (pop_begin s)
  then show ?case by (simp add: spsc_inv_def)
qed (auto intro: inv_push_room inv_push_store inv_push_publish inv_pop_check inv_pop_copy inv_pop_release)

definition spsc_run :: "SpscRingBuffer \<Rightarrow> spsc_system \<Rightarrow> bool" where
  "spsc_run q s \<longleftrightarrow> spsc_step\<^sup>*\<^sup>* (spsc_start q) s"

lemma spsc_run_inv:
  assumes "new_spsc c = Inr q" and "spsc_run q s"
  shows "spsc_inv s"
proof -
  from assms(2) have "spsc_step\<^sup>*\<^sup>* (spsc_start q) s" by (simp add: spsc_run_def)
  then show ?thesis
  proof (induction rule: rtranclp_induct)
    case base
    have "ring_wf q" using new_spsc_holds [OF assms(1)] by (simp add: ring_holds_def)
    moreover have "sp_write q = 0" "sp_read q = 0"
      using assms(1) by (auto simp: new_spsc_def split: if_splits)
    ultimately show ?case by (simp add: spsc_start_def spsc_inv_def slots_hold_def)
  next
    case (step s s')
    then show ?case by (blast intro: spsc_inv_step)
  qed
qed

lemma push_steps:
  assumes "spsc_inv s" and "prod s = PIdle" and "try_push (shared s) e = Some (True, q')"
  shows "spsc_step\<^sup>*\<^sup>* s (s\<lparr>shared := q', pushed := pushed s @ [e], prod_seen := length (popped s)\<rparr>)"
proof -
  note inv = spsc_invD [OF assms(1)]
  let ?q = "shared s" and ?w = "sp_write (shared s)" and ?m = "length (popped s)"
  obtain buf where room: "\<not> sp_capacity ?q \<le> ?w - of_nat ?m"
    and buf: "vec_set (sp_buffer ?q) (?w AND sp_mask ?q) e = Some buf"
    and q': "q' = ?q\<lparr>sp_buffer := buf, sp_write := ?w + 1\<rparr>"
    using assms(3) inv(3) by (auto simp: try_push_def Let_def bind_eq_Some_conv split: if_splits)
  define s1 where "s1 = s\<lparr>prod := PLoaded e ?w\<rparr>"
  define s2 where "s2 = s1\<lparr>prod := PRoom e ?w, prod_seen := ?m\<rparr>"
  define s3 where "s3 = s2\<lparr>shared := (shared s2)\<lparr>sp_buffer := buf\<rparr>, prod := PStored e ?w\<rparr>"
  define s4 where "s4 = s3\<lparr>shared := (shared s3)\<lparr>sp_write := ?w + 1\<rparr>, prod := PIdle, pushed := pushed s3 @ [e]\<rparr>"
  have "spsc_step s s1" unfolding s1_def by (rule push_begin [OF assms(2)])
  moreover have "spsc_step s1 s2" unfolding s2_def
    by (rule push_has_room [where e = e and w = ?w]) (use inv(4) room in \<open>simp_all add: s1_def\<close>)
  moreover have "spsc_step s2 s3" unfolding s3_def
    by (rule push_store) (use buf in \<open>simp_all add: s1_def s2_def\<close>)
  moreover have "spsc_step s3 s4" unfolding s4_def
    by (rule push_publish [where e = e and w = ?w]) (simp add: s3_def)
  ultimately have "spsc_step\<^sup>*\<^sup>* s s4"
    by (meson converse_rtranclp_into_rtranclp rtranclp.rtrancl_refl)
  moreover have "s4 = s\<lparr>shared := q', pushed := pushed s @ [e], prod_seen := ?m\<rparr>"
    using assms(2) by (simp add: s4_def s3_def s2_def s1_def q')
  ultimately show ?thesis by simp
qed

section \<open>Properties\<close>

definition spsc_sample :: SpscRingBuffer where
  "spsc_sample = \<lparr>sp_capacity = 2, sp_mask = 1, sp_buffer = [default_event, default_event], sp_write = 0, sp_read = 0\<rparr>"

lemma spsc_sample_new: "new_spsc 2 = Inr spsc_sample"
proof -
  have two: "unat (2 :: size_t) = Suc (Suc 0)" by simp
  have "Suc (Suc 0) \<le> event_max_size" and "is_power_of_two 2"
    by (simp_all add: event_max_size_def is_power_of_two_def)
  then show ?thesis unfolding new_spsc_def spsc_sample_def two by simp
qed

definition spsc_sample_state :: spsc_system where
  "spsc_sample_state = (spsc_start spsc_sample)\<lparr>shared := spsc_sample\<lparr>sp_write := 1\<rparr>, pushed := [default_event]\<rparr>"

lemma spsc_sample_reached: "spsc_run spsc_sample spsc_sample_state"
proof -
  have "try_push spsc_sample default_event = Some (True, spsc_sample\<lparr>sp_write := 1\<rparr>)" by code_simp
  moreover have "spsc_inv (spsc_start spsc_sample)"
    by (rule spsc_run_inv [OF spsc_sample_new]) (simp add: spsc_run_def)
  ultimately show ?thesis
    using push_steps [of "spsc_start spsc_sample" default_event "spsc_sample\<lparr>sp_write := 1\<rparr>"]
    by (simp add: spsc_run_def spsc_sample_state_def spsc_start_def)
qed

text \<open>The consumer about to copy the first event while the producer is about to write the second.\<close>

definition spsc_busy_state :: spsc_system where
  "spsc_busy_state = spsc_sample_state\<lparr>prod := PRoom default_event 1, cons := CReady 0, prod_seen := 0, cons_seen := 1\<rparr>"

lemma spsc_busy_reached: "spsc_run spsc_sample spsc_busy_state"
proof -
  note sample = spsc_sample_state_def spsc_start_def spsc_sample_def
  let ?s0 = spsc_sample_state
  let ?s1 = "?s0\<lparr>prod := PLoaded default_event 1\<rparr>"
  let ?s2 = "?s1\<lparr>prod := PRoom default_event 1, prod_seen := 0\<rparr>"
  let ?s3 = "?s2\<lparr>cons := CLoaded 0\<rparr>"
  have "spsc_step ?s0 ?s1" using push_begin [of ?s0 default_event] by (simp add: sample)
  moreover have "spsc_step ?s1 ?s2"
    by (rule push_has_room [where e = default_event and w = 1]) (simp_all add: sample word_le_nat_alt)
  moreover have "spsc_step ?s2 ?s3" using pop_begin [of ?s2] by (simp add: sample)
  moreover have "spsc_step ?s3 (?s3\<lparr>cons := CReady 0, cons_seen := 1\<rparr>)"
    by (rule pop_ready) (simp_all add: sample)
  moreover have "?s3\<lparr>cons := CReady 0, cons_seen := 1\<rparr> = spsc_busy_state" by (simp add: spsc_busy_state_def)
  ultimately have "spsc_step\<^sup>*\<^sup>* ?s0 spsc_busy_state"
    by (metis converse_rtranclp_into_rtranclp rtranclp.rtrancl_refl)
  with spsc_sample_reached show ?thesis by (simp add: spsc_run_def)
qed

text \<open>C6: the queue is a FIFO under every interleaving of one producer and one consumer, also when the
  64-bit counters wrap around: the events popped are a prefix of the events pushed, and at most
  \<open>capacity\<close> events are in between.\<close>

theorem spsc_fifo:
  assumes "new_spsc c = Inr q" and "spsc_run q s"
  shows "popped s = take (length (popped s)) (pushed s)
    \<and> length (popped s) \<le> length (pushed s) \<and> length (pushed s) \<le> length (popped s) + unat c"
proof -
  note inv = spsc_invD [OF spsc_run_inv [OF assms]]
  have "spsc_step\<^sup>*\<^sup>* (spsc_start q) s" using assms(2) by (simp add: spsc_run_def)
  then have "sp_capacity (shared s) = sp_capacity q"
    by (induction rule: rtranclp_induct) (auto simp: spsc_start_def elim!: spsc_stepE)
  with new_spsc_holds [OF assms(1)] inv show ?thesis by auto
qed

theorem spsc_fifo_witness:
  "new_spsc 2 = Inr spsc_sample \<and> spsc_run spsc_sample spsc_sample_state
     \<and> length (pushed spsc_sample_state) \<le> length (popped spsc_sample_state) + unat (2 :: size_t)"
  using spsc_fifo [OF spsc_sample_new spsc_sample_reached] spsc_sample_new spsc_sample_reached by blast

text \<open>C17: no data race on a slot and no access outside the buffer. Whenever the producer is about to
  write a slot and the consumer about to read one, the slots are different; each access is within
  the buffer.\<close>

theorem spsc_no_slot_conflict:
  assumes "new_spsc c = Inr q" and "spsc_run q s"
  shows "(prod s = PRoom e w \<longrightarrow> unat (w AND sp_mask (shared s)) < length (sp_buffer (shared s)))
    \<and> (cons s = CReady r \<longrightarrow> unat (r AND sp_mask (shared s)) < length (sp_buffer (shared s)))
    \<and> (prod s = PRoom e w \<and> cons s = CReady r \<longrightarrow> w AND sp_mask (shared s) \<noteq> r AND sp_mask (shared s))"
proof -
  note inv = spsc_invD [OF spsc_run_inv [OF assms]]
  let ?n = "length (pushed s)" and ?m = "length (popped s)" and ?c = "unat (sp_capacity (shared s))"
  have "?n mod ?c \<noteq> ?m mod ?c" if "prod s = PRoom e w" "cons s = CReady r"
    using slots_distinct [of ?m ?c ?n] that inv(4,6,10,11) by auto
  then have "w AND sp_mask (shared s) \<noteq> r AND sp_mask (shared s)" if "prod s = PRoom e w" "cons s = CReady r"
    using that inv(10,11) ring_slot(1) [OF inv(1), of ?n] ring_slot(1) [OF inv(1), of ?m] by auto
  then show ?thesis
    using inv(10,11) ring_slot [OF inv(1)] by auto
qed

theorem spsc_no_slot_conflict_witness:
  "new_spsc 2 = Inr spsc_sample \<and> spsc_run spsc_sample spsc_busy_state
     \<and> prod spsc_busy_state = PRoom default_event 1 \<and> cons spsc_busy_state = CReady 0
     \<and> 1 AND sp_mask (shared spsc_busy_state) \<noteq> 0 AND sp_mask (shared spsc_busy_state)"
proof -
  have "prod spsc_busy_state = PRoom default_event 1" "cons spsc_busy_state = CReady 0"
    by (simp_all add: spsc_busy_state_def)
  with spsc_no_slot_conflict [OF spsc_sample_new spsc_busy_reached] spsc_sample_new spsc_busy_reached
  show ?thesis by blast
qed

text \<open>A single thread sees a bounded FIFO queue: as many events as the capacity can be pushed into a
  new queue, the next push is refused and changes nothing, and pops return the events in order and
  then report an empty queue.\<close>

theorem spsc_sequential:
  assumes "new_spsc c = Inr q" and "length es = unat c"
  shows "\<exists>q1 q2. push_list try_push q es = Some (replicate (length es) True, q1)
    \<and> try_push q1 e = Some (False, q1) \<and> spsc_full q1
    \<and> pop_list try_pop q1 (length es) = Some (map Some es, q2)
    \<and> try_pop q2 = Some (None, q2) \<and> spsc_empty q2"
proof -
  have q: "ring_holds q []" "sp_capacity q = c" using new_spsc_holds [OF assms(1)] by auto
  then obtain q1 where q1: "push_list try_push q es = Some (replicate (length es) True, q1)"
    "ring_holds q1 es" "unat (sp_capacity q1) = unat c"
    using ring.push_all [OF q(1), of es] assms(2) by auto
  from ring.pop_all [of q1 es "[]"] q1 obtain q2 where
    q2: "pop_list try_pop q1 (length es) = Some (map Some es, q2)" "ring_holds q2 []" by auto
  have "try_push q1 e = Some (False, q1)" using ring.push_full [OF q1(2)] q1(3) assms(2) by simp
  moreover have "spsc_full q1" using ring_size(2) [OF q1(2)] q1(3) assms(2) by simp
  moreover have "spsc_empty q2" using ring_size(3) [OF q2(2)] by simp
  ultimately show ?thesis using q1 q2 ring.pop_empty [OF q2(2)] by blast
qed

theorem spsc_sequential_witness:
  "\<exists>q1. push_list try_push spsc_sample [default_event, default_event] = Some ([True, True], q1)
     \<and> try_push q1 default_event = Some (False, q1)"
  using spsc_sequential [OF spsc_sample_new, of "[default_event, default_event]" default_event] by auto

text \<open>The constructor accepts exactly the powers of two up to the largest vector size.\<close>

theorem spsc_constructor:
  "(\<exists>q. new_spsc c = Inr q) \<longleftrightarrow> unat c \<le> event_max_size \<and> (\<exists>k < 64. unat c = 2 ^ k)"
proof (cases "c = 0")
  case True
  then show ?thesis by (simp add: new_spsc_def)
next
  case False
  then show ?thesis by (auto simp: new_spsc_def is_power_of_two_iff)
qed

text \<open>What \<open>approximate_size\<close> shows to the two threads. The producer reads its own counter and a
  possibly old read counter and gets at least the number of events in the queue; the consumer
  reads a possibly old write counter and gets at most that number; neither exceeds the
  capacity.\<close>

theorem spsc_size_views:
  assumes "new_spsc c = Inr q" and "spsc_run q s"
    and "prod_seen s \<le> r" and "r \<le> length (popped s)" and "cons_seen s \<le> w" and "w \<le> length (pushed s)"
  shows "length (pushed s) - length (popped s) \<le> unat (sp_write (shared s) - of_nat r)
    \<and> sp_write (shared s) - of_nat r \<le> sp_capacity (shared s)
    \<and> unat (of_nat w - sp_read (shared s)) \<le> length (pushed s) - length (popped s)"
proof -
  note inv = spsc_invD [OF spsc_run_inv [OF assms(1,2)]]
  have "length (pushed s) - r \<le> unat (sp_capacity (shared s))" using inv(7) assms(3) by simp
  moreover from this have "unat (sp_write (shared s) - of_nat r) = length (pushed s) - r"
    unfolding inv(2) using inv(4,5,6) assms(4) unat_size_less [of "sp_capacity (shared s)"]
    by (intro counter_distance) auto
  moreover have "unat (of_nat w - sp_read (shared s)) = w - length (popped s)"
    unfolding inv(3) using inv(4,5,7) assms(5,6) unat_size_less [of "sp_capacity (shared s)"]
    by (intro counter_distance) auto
  ultimately show ?thesis using assms(4,6) by (auto simp: word_le_nat_alt)
qed

theorem spsc_size_views_witness:
  "new_spsc 2 = Inr spsc_sample \<and> spsc_run spsc_sample spsc_sample_state
     \<and> 1 \<le> unat (sp_write (shared spsc_sample_state) - of_nat 0)
     \<and> unat (of_nat 0 - sp_read (shared spsc_sample_state)) \<le> 1"
  using spsc_size_views [OF spsc_sample_new spsc_sample_reached, of 0 0] spsc_sample_new spsc_sample_reached
  by (simp add: spsc_sample_state_def spsc_start_def)

text \<open>\<open>try_push\<close> as a function is one run of the producer's steps: whenever the producer is idle in
  a reachable state and \<open>try_push\<close> on the shared buffer accepts an event, the producer's steps
  reach the same buffer, with the event published.\<close>

theorem spsc_push_is_steps:
  assumes "new_spsc c = Inr q" and "spsc_run q s" and "prod s = PIdle" and "try_push (shared s) e = Some (True, q')"
  shows "spsc_run q (s\<lparr>shared := q', pushed := pushed s @ [e], prod_seen := length (popped s)\<rparr>)"
  using push_steps [OF spsc_run_inv [OF assms(1,2)] assms(3,4)] assms(2)
  by (simp add: spsc_run_def)

theorem spsc_push_is_steps_witness:
  "\<exists>q'. try_push spsc_sample default_event = Some (True, q')
     \<and> spsc_run spsc_sample ((spsc_start spsc_sample)\<lparr>shared := q', pushed := [default_event], prod_seen := 0\<rparr>)"
proof -
  have push: "try_push spsc_sample default_event = Some (True, spsc_sample\<lparr>sp_write := 1\<rparr>)" by code_simp
  have "spsc_run spsc_sample (spsc_start spsc_sample)" by (simp add: spsc_run_def)
  from spsc_push_is_steps [OF spsc_sample_new this, of default_event "spsc_sample\<lparr>sp_write := 1\<rparr>"] push
  show ?thesis by (auto simp: spsc_start_def)
qed

end
