(* ===== verification/Queued_Replay.thy ===== *)
theory Queued_Replay
  imports Spsc_Ring_Buffer Limit_Book_Refinement
begin

text \<open>
  The threaded replay of \<^verbatim>\<open>BM_SpscQueuedReplayInMemory\<close> (\<^verbatim>\<open>bench/datagine_benchmarks.cpp\<close>): a
  producer thread pushes the events of a vector through the ring buffer, retrying while it is full;
  a consumer thread pops events, retrying while the buffer is empty, and applies each to the book.
  The two threads take the steps of \<open>spsc_step\<close>, so they interleave at every atomic access
  and may load stale counters.
\<close>

section \<open>The two threads\<close>

record queued_replay =
  qr_queue :: spsc_system
  qr_book :: LimitOrderBook
  qr_event :: "MarketEvent option"
  qr_consumed :: nat
  qr_failed :: bool
  qr_base :: nat

text \<open>
  \<open>qr_event\<close> is the event of a successful \<^verbatim>\<open>try_pop\<close> that is still to be applied. The queue lives longer
  than one iteration: an iteration starts with the queue that the one before left, which has
  already carried \<open>qr_base\<close> events.
\<close>

definition queued_start :: "spsc_system \<Rightarrow> LimitOrderBook \<Rightarrow> queued_replay" where
  "queued_start queue book = \<lparr>qr_queue = queue, qr_book = clear book, qr_event = None, qr_consumed = 0,
     qr_failed = False, qr_base = length (pushed queue)\<rparr>"

text \<open>The producer starts a \<^verbatim>\<open>try_push\<close> with the first event it has not published yet, so a push
  that found no room is repeated with the same event.\<close>

definition pushes_next :: "MarketEvent list \<Rightarrow> nat \<Rightarrow> spsc_system \<Rightarrow> spsc_system \<Rightarrow> bool" where
  "pushes_next events base s s' \<longleftrightarrow>
     (prod s = PIdle \<longrightarrow> length (pushed s) - base < length events
        \<and> (\<exists>w. prod s' = PLoaded (events ! (length (pushed s) - base)) w))"

definition popped_event :: "spsc_system \<Rightarrow> spsc_system \<Rightarrow> MarketEvent option" where
  "popped_event s s' = (if length (popped s) < length (popped s') then Some (last (popped s')) else None)"

inductive queued_step :: "MarketEvent list \<Rightarrow> queued_replay \<Rightarrow> queued_replay \<Rightarrow> bool" for events where
  produce: "spsc_step (qr_queue s) q' \<Longrightarrow> cons q' = cons (qr_queue s) \<Longrightarrow> pushes_next events (qr_base s) (qr_queue s) q' \<Longrightarrow>
    queued_step events s (s\<lparr>qr_queue := q'\<rparr>)"
| consume: "spsc_step (qr_queue s) q' \<Longrightarrow> prod q' = prod (qr_queue s) \<Longrightarrow> qr_event s = None \<Longrightarrow>
    qr_consumed s < length events \<Longrightarrow>
    queued_step events s (s\<lparr>qr_queue := q', qr_event := popped_event (qr_queue s) q'\<rparr>)"
| apply_popped: "qr_event s = Some e \<Longrightarrow> apply_event (qr_book s) e = Some (r, b) \<Longrightarrow>
    queued_step events s (s\<lparr>qr_book := b, qr_failed := (qr_failed s \<or> r \<noteq> Applied), qr_consumed := qr_consumed s + 1,
      qr_event := None\<rparr>)"

inductive_cases queued_stepE: "queued_step events s s'"

definition queued_run :: "MarketEvent list \<Rightarrow> spsc_system \<Rightarrow> LimitOrderBook \<Rightarrow> queued_replay \<Rightarrow> bool" where
  "queued_run events queue book s \<longleftrightarrow> (queued_step events)\<^sup>*\<^sup>* (queued_start queue book) s"

text \<open>Both threads have left their loops.\<close>

definition queued_done :: "MarketEvent list \<Rightarrow> queued_replay \<Rightarrow> bool" where
  "queued_done events s \<longleftrightarrow> qr_consumed s = length events"

text \<open>The queues an iteration can start with: a new one, or the one that a finished iteration left.\<close>

inductive bench_queue :: "size_t \<Rightarrow> spsc_system \<Rightarrow> bool" for c where
  first_iteration: "new_spsc c = Inr q \<Longrightarrow> bench_queue c (spsc_start q)"
| next_iteration: "bench_queue c queue \<Longrightarrow> queued_run events queue book s \<Longrightarrow> queued_done events s \<Longrightarrow>
    bench_queue c (qr_queue s)"

section \<open>The invariant\<close>

fun prod_event :: "producer \<Rightarrow> MarketEvent option" where
  "prod_event PIdle = None"
| "prod_event (PLoaded e w) = Some e"
| "prod_event (PRoom e w) = Some e"
| "prod_event (PStored e w) = Some e"

definition pushes_in_order :: "MarketEvent list \<Rightarrow> nat \<Rightarrow> spsc_system \<Rightarrow> bool" where
  "pushes_in_order events base s \<longleftrightarrow> base \<le> length (pushed s)
     \<and> drop base (pushed s) = take (length (pushed s) - base) events
     \<and> (case prod_event (prod s) of None \<Rightarrow> True
        | Some e \<Rightarrow> length (pushed s) - base < length events \<and> e = events ! (length (pushed s) - base))"

definition queued_inv :: "MarketEvent list \<Rightarrow> LimitOrderBook \<Rightarrow> queued_replay \<Rightarrow> bool" where
  "queued_inv events b0 s \<longleftrightarrow> spsc_inv (qr_queue s) \<and> pushes_in_order events (qr_base s) (qr_queue s)
     \<and> (case qr_event s of
          None \<Rightarrow> qr_base s + qr_consumed s = length (popped (qr_queue s))
            \<and> (qr_consumed s = length events \<longrightarrow> cons (qr_queue s) = CIdle)
        | Some e \<Rightarrow> Suc (qr_base s + qr_consumed s) = length (popped (qr_queue s)) \<and> e = events ! qr_consumed s
            \<and> cons (qr_queue s) = CIdle)
     \<and> (\<exists>rs. run_book apply_event b0 (take (qr_consumed s) events) = Some (rs, qr_book s)
          \<and> qr_failed s = list_ex (\<lambda>r. r \<noteq> Applied) rs)"

lemma run_book_snoc:
  "run_book ap b (xs @ [x]) = do {
     (rs, b') \<leftarrow> run_book ap b xs;
     (r, b'') \<leftarrow> ap b' x;
     Some (rs @ [r], b'')
   }"
proof (induction xs arbitrary: b)
  case Nil
  show ?case by (cases "ap b x") auto
next
  case (Cons y ys)
  show ?case
  proof (cases "ap b y")
    case (Some z)
    with Cons show ?thesis
      by (cases z; cases "run_book ap (snd z) ys") (auto split: prod.split bind_split)
  qed simp
qed

lemma producer_frame:
  assumes "spsc_step s s'" and "cons s' = cons s"
  shows "popped s' = popped s"
  using assms by (auto elim!: spsc_stepE)

lemma producer_in_order:
  assumes "spsc_step s s'" and "cons s' = cons s" and "pushes_next events base s s'" and "pushes_in_order events base s"
  shows "pushes_in_order events base s'"
  using assms
  by (auto simp: pushes_in_order_def pushes_next_def take_Suc_conv_app_nth Suc_diff_le elim!: spsc_stepE)

lemma consumer_frame:
  assumes "spsc_step s s'" and "prod s' = prod s"
  shows "pushed s' = pushed s"
    and "popped s' = popped s \<or> (\<exists>e. popped s' = popped s @ [e] \<and> cons s' = CIdle)"
  using assms by (auto elim!: spsc_stepE)

lemma popped_nth:
  assumes "spsc_inv s" and "pushes_in_order events base s" and "base + i < length (popped s)"
  shows "popped s ! (base + i) = events ! i" and "i < length events"
proof -
  note inv = spsc_invD [OF assms(1)]
  have i: "base + i < length (pushed s)" using inv(5,6) assms(3) by simp
  have push: "drop base (pushed s) = take (length (pushed s) - base) events" using assms(2) by (simp add: pushes_in_order_def)
  have "popped s ! (base + i) = pushed s ! (base + i)" using inv(8) assms(3) by (metis nth_take)
  also have "\<dots> = drop base (pushed s) ! i" using i by (simp add: nth_drop)
  also have "\<dots> = events ! i" using i by (simp add: push)
  finally show "popped s ! (base + i) = events ! i" .
  have "i < length (drop base (pushed s))" using i by simp
  then show "i < length events" by (simp add: push)
qed

lemma queued_inv_step:
  assumes "queued_step events s s'" and "queued_inv events b0 s"
  shows "queued_inv events b0 s'"
  using assms
proof (induction rule: queued_step.induct)
  case (produce s q')
  then show ?case
    using producer_frame [OF produce(1,2)] producer_in_order [OF produce(1,2,3)] spsc_inv_step [OF produce(1)]
    by (simp add: queued_inv_def cong: option.case_cong)
next
  case (consume s q')
  note frame = consumer_frame [OF consume(1,2)]
  have inv: "spsc_inv q'" using consume spsc_inv_step by (auto simp: queued_inv_def)
  have ord: "pushes_in_order events (qr_base s) q'"
    using consume frame(1) by (simp add: queued_inv_def pushes_in_order_def cong: option.case_cong)
  have "popped_event (qr_queue s) q' = None \<and> popped q' = popped (qr_queue s)
      \<or> (\<exists>e. popped_event (qr_queue s) q' = Some e \<and> popped q' = popped (qr_queue s) @ [e] \<and> cons q' = CIdle)"
    using frame(2) by (auto simp: popped_event_def)
  then show ?case
    using consume inv ord popped_nth(1) [OF inv ord, of "qr_consumed s"]
    by (auto simp: queued_inv_def)
next
  case (apply_popped s e r b)
  then obtain rs where run: "run_book apply_event b0 (take (qr_consumed s) events) = Some (rs, qr_book s)"
    and failed: "qr_failed s = list_ex (\<lambda>r. r \<noteq> Applied) rs" and e: "e = events ! qr_consumed s"
    and n: "Suc (qr_base s + qr_consumed s) = length (popped (qr_queue s))" and idle: "cons (qr_queue s) = CIdle"
    and inv: "spsc_inv (qr_queue s)" "pushes_in_order events (qr_base s) (qr_queue s)"
    by (auto simp: queued_inv_def)
  have "qr_consumed s < length events" using popped_nth(2) [OF inv] n by (metis lessI)
  then have "take (Suc (qr_consumed s)) events = take (qr_consumed s) events @ [e]"
    by (simp add: e take_Suc_conv_app_nth)
  with run apply_popped(2) have "run_book apply_event b0 (take (Suc (qr_consumed s)) events) = Some (rs @ [r], b)"
    by (simp add: run_book_snoc)
  with inv n failed idle show ?case by (simp add: queued_inv_def)
qed

lemma queued_inv_steps:
  "(queued_step events)\<^sup>*\<^sup>* s t \<Longrightarrow> queued_inv events b0 s \<Longrightarrow> queued_inv events b0 t"
  by (induction rule: rtranclp_induct) (auto intro: queued_inv_step)

text \<open>A queue at rest: both threads idle and every published event released.\<close>

definition at_rest :: "spsc_system \<Rightarrow> bool" where
  "at_rest s \<longleftrightarrow> spsc_inv s \<and> prod s = PIdle \<and> cons s = CIdle \<and> length (popped s) = length (pushed s)"

lemma queued_inv_start: "at_rest queue \<Longrightarrow> queued_inv events (clear book) (queued_start queue book)"
  by (simp add: queued_inv_def queued_start_def pushes_in_order_def at_rest_def)

lemma done_at_rest:
  assumes "queued_inv events b0 s" and "queued_done events s"
  shows "at_rest (qr_queue s)"
proof -
  let ?q = "qr_queue s"
  have inv: "spsc_inv ?q" and ord: "pushes_in_order events (qr_base s) ?q" using assms(1) by (simp_all add: queued_inv_def)
  have le: "length (popped ?q) \<le> length (pushed ?q)" using spsc_invD(5,6) [OF inv] by simp
  have "length (drop (qr_base s) (pushed ?q)) \<le> length events" using ord by (simp add: pushes_in_order_def)
  then have pushed_le: "length (pushed ?q) \<le> qr_base s + length events" by simp
  have none: "qr_event s = None"
    using assms pushed_le le by (auto simp: queued_inv_def queued_done_def split: option.splits)
  then have popped: "length (popped ?q) = qr_base s + length events" and "cons ?q = CIdle"
    using assms by (auto simp: queued_inv_def queued_done_def)
  moreover have "prod_event (prod ?q) = None"
    using ord popped le by (auto simp: pushes_in_order_def split: option.splits)
  then have "prod ?q = PIdle" by (cases "prod ?q") simp_all
  ultimately show ?thesis using inv le pushed_le by (simp add: at_rest_def)
qed

lemma bench_queue_at_rest: "bench_queue c queue \<Longrightarrow> at_rest queue"
proof (induction rule: bench_queue.induct)
  case (first_iteration q)
  have "spsc_inv (spsc_start q)" by (rule spsc_run_inv [OF first_iteration]) (simp add: spsc_run_def)
  then show ?case by (simp add: at_rest_def spsc_start_def)
next
  case (next_iteration queue events book s)
  then show ?case using done_at_rest queued_inv_start queued_inv_steps unfolding queued_run_def by blast
qed

lemma queued_run_inv:
  assumes "bench_queue c queue" and "queued_run events queue book s"
  shows "queued_inv events (clear book) s"
  using assms queued_inv_steps queued_inv_start bench_queue_at_rest unfolding queued_run_def by blast

section \<open>Progress\<close>

text \<open>From any state with an empty queue the producer can publish the next event, and from any state
  with an event in the queue the consumer can take it: the threads cannot block each other.\<close>

fun prod_distance :: "producer \<Rightarrow> nat" where
  "prod_distance PIdle = 3"
| "prod_distance (PLoaded e w) = 2"
| "prod_distance (PRoom e w) = 1"
| "prod_distance (PStored e w) = 0"

fun cons_distance :: "consumer \<Rightarrow> nat" where
  "cons_distance CIdle = 3"
| "cons_distance (CLoaded r) = 2"
| "cons_distance (CReady r) = 1"
| "cons_distance (CCopied e r) = 0"

lemma producer_progress:
  assumes "spsc_inv q" and "length (pushed q) = length (popped q)"
  shows "\<exists>q'. spsc_step q q' \<and> cons q' = cons q \<and> popped q' = popped q
    \<and> (prod q = PIdle \<longrightarrow> (\<exists>w. prod q' = PLoaded e w))
    \<and> (pushed q' = pushed q \<and> prod_distance (prod q') < prod_distance (prod q) \<or> length (pushed q') = Suc (length (pushed q)))"
    (is "\<exists>q'. spsc_step q q' \<and> ?closer q'")
proof -
  note inv = spsc_invD [OF assms(1)]
  have advance: ?thesis if "spsc_step q q'" and "?closer q'" for q' using that by blast
  show ?thesis
  proof (cases "prod q")
    case PIdle
    from push_begin [OF this, of e] show ?thesis by (rule advance) (simp add: PIdle)
  next
    case (PLoaded e w)
    have "0 < unat (sp_capacity (shared q))" using inv(1) by (auto simp: ring_wf_def)
    then have "\<not> sp_capacity (shared q) \<le> w - of_nat (length (popped q))"
      using spsc_distance [OF assms(1) inv(4) order_refl] PLoaded inv(10) assms(2) by simp
    then have "spsc_step q (q\<lparr>prod := PRoom e w, prod_seen := length (popped q)\<rparr>)"
      using push_has_room [OF PLoaded inv(4)] by simp
    then show ?thesis by (rule advance) (simp add: PLoaded)
  next
    case (PRoom e w)
    then obtain buf where "vec_set (sp_buffer (shared q)) (w AND sp_mask (shared q)) e = Some buf"
      using ring_slot_write(1) [OF inv(1), of "length (pushed q)" e] inv(10) by auto
    then have "spsc_step q (q\<lparr>shared := (shared q)\<lparr>sp_buffer := buf\<rparr>, prod := PStored e w\<rparr>)"
      by (rule push_store [OF PRoom])
    then show ?thesis by (rule advance) (simp add: PRoom)
  next
    case (PStored e w)
    show ?thesis by (rule advance [OF push_publish [OF PStored]]) (simp add: PStored)
  qed
qed

lemma producer_publishes:
  assumes "spsc_inv (qr_queue s)" and "pushes_in_order events (qr_base s) (qr_queue s)"
    and "length (pushed (qr_queue s)) = length (popped (qr_queue s))" and "length (pushed (qr_queue s)) - qr_base s < length events"
  shows "\<exists>q'. (queued_step events)\<^sup>*\<^sup>* s (s\<lparr>qr_queue := q'\<rparr>) \<and> popped q' = popped (qr_queue s)
    \<and> length (pushed q') = Suc (length (pushed (qr_queue s)))"
  using assms
proof (induction "prod_distance (prod (qr_queue s))" arbitrary: s rule: less_induct)
  case less
  let ?q = "qr_queue s"
  obtain q' where q': "spsc_step ?q q'" "cons q' = cons ?q" "popped q' = popped ?q"
    and first: "prod ?q = PIdle \<longrightarrow> (\<exists>w. prod q' = PLoaded (events ! (length (pushed ?q) - qr_base s)) w)"
    and progress: "pushed q' = pushed ?q \<and> prod_distance (prod q') < prod_distance (prod ?q)
      \<or> length (pushed q') = Suc (length (pushed ?q))"
    using producer_progress [OF less.prems(1,3)] by blast
  have next_event: "pushes_next events (qr_base s) ?q q'" using first less.prems(4) by (simp add: pushes_next_def)
  note step = produce [OF q'(1,2) next_event]
  from progress show ?case
  proof
    assume closer: "pushed q' = pushed ?q \<and> prod_distance (prod q') < prod_distance (prod ?q)"
    have "spsc_inv q'" by (rule spsc_inv_step [OF q'(1) less.prems(1)])
    moreover have "pushes_in_order events (qr_base s) q'" by (rule producer_in_order [OF q'(1,2) next_event less.prems(2)])
    ultimately obtain q'' where "(queued_step events)\<^sup>*\<^sup>* (s\<lparr>qr_queue := q'\<rparr>) (s\<lparr>qr_queue := q''\<rparr>)"
      "popped q'' = popped q'" "length (pushed q'') = Suc (length (pushed q'))"
      using less.hyps [of "s\<lparr>qr_queue := q'\<rparr>"] closer less.prems q'(3) by auto
    with step closer q'(3) show ?thesis by (auto intro: converse_rtranclp_into_rtranclp)
  qed (use step q'(3) in \<open>blast intro: r_into_rtranclp\<close>)
qed

lemma consumer_progress:
  assumes "spsc_inv q" and "length (popped q) < length (pushed q)"
  shows "\<exists>q'. spsc_step q q' \<and> prod q' = prod q \<and> pushed q' = pushed q
    \<and> (popped q' = popped q \<and> cons_distance (cons q') < cons_distance (cons q) \<or> (\<exists>e. popped q' = popped q @ [e]))"
    (is "\<exists>q'. spsc_step q q' \<and> ?closer q'")
proof -
  note inv = spsc_invD [OF assms(1)]
  have advance: ?thesis if "spsc_step q q'" and "?closer q'" for q' using that by blast
  show ?thesis
  proof (cases "cons q")
    case CIdle
    show ?thesis by (rule advance [OF pop_begin [OF CIdle]]) (simp add: CIdle)
  next
    case (CLoaded r)
    let ?n = "length (pushed q)" and ?m = "length (popped q)"
    have "?n - ?m \<le> unat (sp_capacity (shared q))" using inv(4,7) by simp
    then have "of_nat ?n \<noteq> r" using ring_distance(2) [OF inv(1), of ?m ?n] assms(2) CLoaded inv(11) by simp
    from pop_ready [OF CLoaded inv(6) order_refl this] show ?thesis by (rule advance) (simp add: CLoaded)
  next
    case (CReady r)
    then obtain e where "vec_at (sp_buffer (shared q)) (r AND sp_mask (shared q)) = Some e"
      using ring_slot_write(2) [OF inv(1), of "length (popped q)"] inv(11) by auto
    from pop_copy [OF CReady this] show ?thesis by (rule advance) (simp add: CReady)
  next
    case (CCopied e r)
    show ?thesis by (rule advance [OF pop_release [OF CCopied]]) simp
  qed
qed

lemma consumer_takes:
  assumes "spsc_inv (qr_queue s)" and "qr_event s = None" and "qr_consumed s < length events"
    and "length (popped (qr_queue s)) < length (pushed (qr_queue s))"
  shows "\<exists>q' e. (queued_step events)\<^sup>*\<^sup>* s (s\<lparr>qr_queue := q', qr_event := Some e\<rparr>)"
  using assms
proof (induction "cons_distance (cons (qr_queue s))" arbitrary: s rule: less_induct)
  case less
  let ?q = "qr_queue s"
  obtain q' where q': "spsc_step ?q q'" "prod q' = prod ?q" "pushed q' = pushed ?q"
    and progress: "popped q' = popped ?q \<and> cons_distance (cons q') < cons_distance (cons ?q) \<or> (\<exists>e. popped q' = popped ?q @ [e])"
    using consumer_progress [OF less.prems(1,4)] by blast
  note step = consume [OF q'(1,2) less.prems(2,3)]
  from progress show ?case
  proof
    assume closer: "popped q' = popped ?q \<and> cons_distance (cons q') < cons_distance (cons ?q)"
    have "s\<lparr>qr_queue := q', qr_event := None\<rparr> = s\<lparr>qr_queue := q'\<rparr>" using less.prems(2) by (cases s) simp
    with step closer have next_s: "queued_step events s (s\<lparr>qr_queue := q'\<rparr>)" by (simp add: popped_event_def)
    have "spsc_inv q'" by (rule spsc_inv_step [OF q'(1) less.prems(1)])
    then obtain q'' e where "(queued_step events)\<^sup>*\<^sup>* (s\<lparr>qr_queue := q'\<rparr>) (s\<lparr>qr_queue := q'', qr_event := Some e\<rparr>)"
      using less.hyps [of "s\<lparr>qr_queue := q'\<rparr>"] closer less.prems q'(3) by auto
    with next_s show ?thesis by (auto intro: converse_rtranclp_into_rtranclp)
  next
    assume "\<exists>e. popped q' = popped ?q @ [e]"
    then obtain e where "popped_event ?q q' = Some e" by (auto simp: popped_event_def)
    with step show ?thesis by (auto intro!: r_into_rtranclp)
  qed
qed

lemma consumer_advances:
  assumes inv: "queued_inv events (clear book) s" and "qr_consumed s < length events"
  shows "\<exists>s'. (queued_step events)\<^sup>*\<^sup>* s s' \<and> qr_consumed s' = Suc (qr_consumed s)"
proof -
  have applied: "\<exists>t'. (queued_step events)\<^sup>*\<^sup>* t t' \<and> qr_consumed t' = Suc (qr_consumed t)"
    if t: "queued_inv events (clear book) t" "qr_event t = Some e" for t e
  proof -
    from t(1) obtain rs where "run_book apply_event (clear book) (take (qr_consumed t) events) = Some (rs, qr_book t)"
      by (auto simp: queued_inv_def)
    with lob.run_sim [OF lob_rel_cleared, of book "take (qr_consumed t) events"] obtain S where "lob_rel (qr_book t) S" by auto
    from lob.apply_sim [OF this, of e] obtain r b where "apply_event (qr_book t) e = Some (r, b)" by blast
    from apply_popped [where events = events, OF t(2) this] show ?thesis by (auto intro!: r_into_rtranclp exI)
  qed
  show ?thesis
  proof (cases "qr_event s")
    case (Some e)
    with applied [OF inv] show ?thesis by blast
  next
    case None
    let ?q = "qr_queue s"
    have q: "spsc_inv ?q" "pushes_in_order events (qr_base s) ?q" "qr_base s + qr_consumed s = length (popped ?q)"
      using inv None by (auto simp: queued_inv_def)
    obtain q1 where q1: "(queued_step events)\<^sup>*\<^sup>* s (s\<lparr>qr_queue := q1\<rparr>)" "length (popped q1) < length (pushed q1)"
    proof (cases "length (popped ?q) < length (pushed ?q)")
      case True
      then show ?thesis using that [of ?q] by simp
    next
      case False
      then have "length (pushed ?q) = length (popped ?q)" using spsc_invD(5,6) [OF q(1)] by simp
      with producer_publishes [OF q(1,2) this] q(3) assms(2) show ?thesis using that by force
    qed
    note steps = queued_inv_steps [OF _ inv]
    from steps [OF q1(1)] have "spsc_inv q1" by (simp add: queued_inv_def)
    with consumer_takes [of "s\<lparr>qr_queue := q1\<rparr>" events] q1(2) None assms(2) obtain q2 e where
      "(queued_step events)\<^sup>*\<^sup>* (s\<lparr>qr_queue := q1\<rparr>) (s\<lparr>qr_queue := q2, qr_event := Some e\<rparr>)" by auto
    with q1(1) have reach: "(queued_step events)\<^sup>*\<^sup>* s (s\<lparr>qr_queue := q2, qr_event := Some e\<rparr>)" by simp
    from applied [OF steps [OF reach]] obtain t where
      "(queued_step events)\<^sup>*\<^sup>* (s\<lparr>qr_queue := q2, qr_event := Some e\<rparr>) t" "qr_consumed t = Suc (qr_consumed s)" by auto
    with reach show ?thesis by (meson rtranclp_trans)
  qed
qed

lemma consumed_le:
  assumes "queued_inv events b0 s"
  shows "qr_consumed s \<le> length events"
proof (cases "qr_consumed s")
  case (Suc n)
  with assms have "qr_base s + n < length (popped (qr_queue s))" by (auto simp: queued_inv_def split: option.splits)
  with assms popped_nth(2) [of "qr_queue s" events "qr_base s" n] show ?thesis by (auto simp: queued_inv_def Suc)
qed simp

lemma queued_finishes_from:
  assumes "queued_inv events (clear book) s"
  shows "\<exists>s'. (queued_step events)\<^sup>*\<^sup>* s s' \<and> queued_done events s'"
  using assms
proof (induction "length events - qr_consumed s" arbitrary: s)
  case 0
  then show ?case using consumed_le [OF 0(2)] by (auto simp: queued_done_def)
next
  case (Suc n)
  then have "qr_consumed s < length events" by simp
  from consumer_advances [OF Suc.prems this] obtain t where
    t: "(queued_step events)\<^sup>*\<^sup>* s t" "qr_consumed t = Suc (qr_consumed s)" by blast
  have "queued_inv events (clear book) t" by (rule queued_inv_steps [OF t(1) Suc.prems])
  moreover have "n = length events - qr_consumed t" using Suc.hyps(2) t(2) by simp
  ultimately obtain s' where "(queued_step events)\<^sup>*\<^sup>* t s'" "queued_done events s'" using Suc.hyps(1) by blast
  with t(1) show ?case by (meson rtranclp_trans)
qed

section \<open>Properties\<close>

text \<open>C7: the threaded replay is the sequential one. In every iteration of the benchmark and in every state that
  the two threads can reach, the book and the failure flag are those of applying, one after the other,
  the events consumed so far; so at the end they are those of the whole vector, whatever the
  interleaving. A finished iteration leaves the queue empty and both threads idle.\<close>

theorem queued_replay_sequential:
  assumes "bench_queue c queue" and "queued_run events queue book s"
  shows "qr_consumed s \<le> length events
    \<and> (\<exists>rs. run_book apply_event (clear book) (take (qr_consumed s) events) = Some (rs, qr_book s)
        \<and> (qr_failed s \<longleftrightarrow> list_ex (\<lambda>r. r \<noteq> Applied) rs))
    \<and> (queued_done events s \<longrightarrow> at_rest (qr_queue s))"
  using queued_run_inv [OF assms] consumed_le [of events "clear book" s] done_at_rest [of events "clear book" s]
  by (auto simp: queued_inv_def)

text \<open>The threads never block each other for good: from every state they can reach there is a continuation in which
  both loops end.\<close>

theorem queued_replay_can_finish:
  assumes "bench_queue c queue" and "queued_run events queue book s"
  shows "\<exists>t. (queued_step events)\<^sup>*\<^sup>* s t \<and> queued_done events t"
  using queued_finishes_from [OF queued_run_inv [OF assms]] .

definition queued_sample :: "MarketEvent list" where
  "queued_sample = [default_event\<lparr>ev_quantity := Quantity 5\<rparr>, default_event, default_event\<lparr>ev_type := Cancel\<rparr>]"

lemma queued_run_start: "queued_run events queue book (queued_start queue book)"
  by (simp add: queued_run_def)

lemma queued_sample_queue: "bench_queue 2 (spsc_start spsc_sample)"
  by (rule first_iteration [OF spsc_sample_new])

theorem queued_replay_can_finish_witness:
  "bench_queue 2 (spsc_start spsc_sample)
     \<and> (\<exists>t. (queued_step queued_sample)\<^sup>*\<^sup>* (queued_start (spsc_start spsc_sample) new_book) t \<and> queued_done queued_sample t)"
  using queued_replay_can_finish [OF queued_sample_queue queued_run_start] queued_sample_queue by blast

theorem queued_replay_sequential_witness:
  "\<exists>s. queued_run queued_sample (spsc_start spsc_sample) new_book s \<and> queued_done queued_sample s
     \<and> qr_failed s \<and> live_order_count (qr_book s) = 0 \<and> bench_queue 2 (qr_queue s)"
proof -
  note start = queued_run_inv [OF queued_sample_queue queued_run_start, of queued_sample new_book]
  from queued_finishes_from [OF start] obtain s where
    s: "queued_run queued_sample (spsc_start spsc_sample) new_book s" "queued_done queued_sample s" by (auto simp: queued_run_def)
  have "map_option (\<lambda>(rs, b). (rs, live_order_count b)) (run_book apply_event (clear new_book) queued_sample)
      = Some ([Applied, InvalidQuantity, Applied], 0)" by code_simp
  with queued_replay_sequential [OF queued_sample_queue s(1)] s next_iteration [OF queued_sample_queue s]
  show ?thesis by (auto simp: queued_done_def)
qed

end
