(* ===== verification/Bench_Iterations.thy ===== *)
theory Bench_Iterations
  imports Bench_Streams Queued_Replay Pooled_Book_Properties
begin

text \<open>
  One iteration of each benchmark (\<^verbatim>\<open>bench/datagine_benchmarks.cpp\<close>), as a function of the book that the
  previous iteration left: the body of the loop \<^verbatim>\<open>for (auto _ : state)\<close>. A call of
  \<^verbatim>\<open>state.SkipWithError\<close> adds its message to the result; \<^verbatim>\<open>break\<close> leaves the loop around it.
\<close>

section \<open>One iteration of each benchmark\<close>

fun bench_loop :: "('b \<Rightarrow> 'a \<Rightarrow> (BookResult \<times> 'b) option) \<Rightarrow> string \<Rightarrow> 'b \<Rightarrow> 'a list \<Rightarrow> (string list \<times> 'b) option" where
  "bench_loop f message book [] = Some ([], book)"
| "bench_loop f message book (x # xs) = do {
     (result, book') \<leftarrow> f book x;
     if result \<noteq> Applied then Some ([message], book') else bench_loop f message book' xs
   }"

text \<open>The values of \<^verbatim>\<open>i\<close> in \<^verbatim>\<open>for (std::size_t i = 0; i < n; ++i)\<close>.\<close>

definition indices :: "size_t \<Rightarrow> size_t list" where
  "indices n = map of_nat [0..<unat n]"

definition baseline_add_iteration :: "size_t \<Rightarrow> LimitOrderBook \<Rightarrow> (string list \<times> LimitOrderBook) option" where
  "baseline_add_iteration batch_size book =
     bench_loop (\<lambda>b i. add_order b (OrderId (i + 1)) Buy (Price (10000 + i mod 128)) (Quantity 100) (Timestamp i))
       ''add_order returned a non-applied result'' (clear book) (indices batch_size)"

definition pooled_add_iteration :: "size_t \<Rightarrow> PooledLimitOrderBook \<Rightarrow> (string list \<times> PooledLimitOrderBook) option" where
  "pooled_add_iteration batch_size book =
     bench_loop (\<lambda>b i. pooled_add_order b (OrderId (i + 1)) Buy (Price (10000 + i mod 128)) (Quantity 100) (Timestamp i))
       ''pooled add_order returned a non-applied result'' (pooled_clear book) (indices batch_size)"

definition baseline_cancel_iteration :: "size_t \<Rightarrow> LimitOrderBook \<Rightarrow> (string list \<times> LimitOrderBook) option" where
  "baseline_cancel_iteration batch_size book = do {
     (m1, book1) \<leftarrow> bench_loop
       (\<lambda>b i. add_order b (OrderId (i + 1)) Sell (Price (10100 + i mod 128)) (Quantity 100) (Timestamp i))
       ''benchmark setup add_order failed'' (clear book) (indices batch_size);
     (m2, book2) \<leftarrow> bench_loop (\<lambda>b i. cancel_order b (OrderId (i + 1)))
       ''cancel_order returned a non-applied result'' book1 (indices batch_size);
     Some (m1 @ m2, book2)
   }"

definition pooled_cancel_iteration :: "size_t \<Rightarrow> PooledLimitOrderBook \<Rightarrow> (string list \<times> PooledLimitOrderBook) option" where
  "pooled_cancel_iteration batch_size book = do {
     (m1, book1) \<leftarrow> bench_loop
       (\<lambda>b i. pooled_add_order b (OrderId (i + 1)) Sell (Price (10100 + i mod 128)) (Quantity 100) (Timestamp i))
       ''pooled benchmark setup add_order failed'' (pooled_clear book) (indices batch_size);
     (m2, book2) \<leftarrow> bench_loop (\<lambda>b i. pooled_cancel_order b (OrderId (i + 1)))
       ''pooled cancel_order returned a non-applied result'' book1 (indices batch_size);
     Some (m1 @ m2, book2)
   }"

definition baseline_mixed_iteration :: "MarketEvent list \<Rightarrow> LimitOrderBook \<Rightarrow> (string list \<times> LimitOrderBook) option" where
  "baseline_mixed_iteration events book =
     bench_loop apply_event ''mixed stream apply returned a non-applied result'' (clear book) events"

definition pooled_mixed_iteration ::
  "MarketEvent list \<Rightarrow> PooledLimitOrderBook \<Rightarrow> (string list \<times> PooledLimitOrderBook) option" where
  "pooled_mixed_iteration events book =
     bench_loop pooled_apply_event ''pooled mixed stream apply returned a non-applied result'' (pooled_clear book) events"

definition direct_replay_iteration :: "MarketEvent list \<Rightarrow> LimitOrderBook \<Rightarrow> (string list \<times> LimitOrderBook) option" where
  "direct_replay_iteration events book =
     bench_loop apply_event ''direct replay event was rejected by the book'' (clear book) events"

partial_function (option) parse_apply_loop ::
  "('p \<Rightarrow> CsvParseResult \<times> 'p) \<Rightarrow> ('b \<Rightarrow> MarketEvent \<Rightarrow> (BookResult \<times> 'b) option) \<Rightarrow> string \<Rightarrow> 'p \<Rightarrow> 'b
     \<Rightarrow> (string list \<times> 'b) option" where
  "parse_apply_loop nxt ap message p book =
     (case nxt p of (parsed, q) \<Rightarrow>
        if cr_status parsed = EndOfFile then Some ([], book)
        else case (cr_status parsed, cr_event parsed) of
          (EventParsed, Some event) \<Rightarrow> do {
            (result, book') \<leftarrow> ap book event;
            if result \<noteq> Applied then Some ([message], book') else parse_apply_loop nxt ap message q book'
          }
        | _ \<Rightarrow> Some ([''generated CSV fixture produced malformed row''], book))"

text \<open>The flag says whether the iterations go on: a fixture that cannot be opened ends them.\<close>

definition baseline_csv_iteration ::
  "file_system \<Rightarrow> string \<Rightarrow> LimitOrderBook \<Rightarrow> (bool \<times> string list \<times> LimitOrderBook) option" where
  "baseline_csv_iteration fs fixture_path book =
     (let parser = new_csv_parser fs fixture_path in
      if \<not> is_open parser then Some (False, [''failed to open generated CSV fixture''], clear book)
      else map_option (Pair True) (parse_apply_loop csv_next apply_event
        ''CSV parse/apply benchmark event was rejected by the book'' parser (clear book)))"

definition pooled_csv_iteration ::
  "file_system \<Rightarrow> string \<Rightarrow> PooledLimitOrderBook \<Rightarrow> (bool \<times> string list \<times> PooledLimitOrderBook) option" where
  "pooled_csv_iteration fs fixture_path book =
     (let parser = new_csv_parser fs fixture_path in
      if \<not> is_open parser then Some (False, [''failed to open generated CSV fixture''], pooled_clear book)
      else map_option (Pair True) (parse_apply_loop csv_next pooled_apply_event
        ''CSV parse/apply benchmark event was rejected by the pooled book'' parser (pooled_clear book)))"

fun observe_loop ::
  "'d double_ops \<Rightarrow> LimitOrderBook \<Rightarrow> 'd AnomalyMonitor \<Rightarrow> size_t \<Rightarrow> MarketEvent list
     \<Rightarrow> (string list \<times> LimitOrderBook \<times> 'd AnomalyMonitor \<times> size_t) option" where
  "observe_loop D book monitor anomaly_count [] = Some ([], book, monitor, anomaly_count)"
| "observe_loop D book monitor anomaly_count (event # events) = do {
     (result, book') \<leftarrow> apply_event book event;
     if result \<noteq> Applied
     then Some ([''feature/anomaly benchmark event was rejected by the book''], book', monitor, anomaly_count)
     else do {
       (anomalies, monitor') \<leftarrow> observe D monitor event book';
       observe_loop D book' monitor' (anomaly_count + of_nat (length anomalies)) events
     }
   }"

definition scoring_iteration ::
  "'d double_ops \<Rightarrow> MarketEvent list \<Rightarrow> LimitOrderBook \<Rightarrow> 'd AnomalyMonitor
     \<Rightarrow> (string list \<times> LimitOrderBook \<times> 'd AnomalyMonitor \<times> size_t) option" where
  "scoring_iteration D events book monitor = observe_loop D (clear book) (monitor_reset monitor) 0 events"

section \<open>Loops over applied events\<close>

lemma bench_loop_run:
  "run_book ap b es = Some (replicate (length es) Applied, b') \<Longrightarrow> bench_loop ap message b es = Some ([], b')"
  by (induction es arbitrary: b) (auto simp: bind_eq_Some_conv split: if_splits)

lemma bench_loop_map:
  "(\<And>b x. f b x = ap b (g x)) \<Longrightarrow> bench_loop f message b xs = bench_loop ap message b (map g xs)"
  by (induction xs arbitrary: b) (simp_all cong: if_cong)

context order_book
begin

lemma bench_loop_sim:
  assumes "rel b S" and "fst (spec_run S es) = replicate (length es) Applied"
  shows "\<exists>b'. bench_loop ap message b es = Some ([], b') \<and> rel b' (snd (spec_run S es))"
  using run_sim [OF assms(1), of es] assms(2) bench_loop_run by metis

end

section \<open>Adds and cancels\<close>

definition room_for :: "nat \<Rightarrow> spec_book \<Rightarrow> bool" where
  "room_for k S \<longleftrightarrow> (case sb_capacity S of None \<Rightarrow> True | Some c \<Rightarrow> length (sb_orders S) + k \<le> c)"

lemma spec_run_adds:
  assumes "room_for (length es) S" and "list_all (\<lambda>e. ev_type e = Add \<and> units (ev_quantity e) \<noteq> 0) es"
    and "distinct (map o_id (sb_orders S) @ map ev_order_id es)"
  shows "spec_run S es = (replicate (length es) Applied,
    S\<lparr>sb_orders := sb_orders S @ map event_order es, sb_applied := sb_applied S + of_nat (length es)\<rparr>)"
  using assms
proof (induction es arbitrary: S)
  case Nil
  then show ?case by simp
next
  case (Cons e es)
  let ?S = "S\<lparr>sb_orders := sb_orders S @ [event_order e], sb_applied := sb_applied S + 1\<rparr>"
  have e: "ev_type e = Add" "units (ev_quantity e) \<noteq> 0" "ev_order_id e \<notin> o_id ` set (sb_orders S)"
    using Cons.prems(2,3) by auto
  then have "find_order (sb_orders S) (ev_order_id e) = None" by (simp add: find_order_None_iff)
  moreover have "\<not> at_capacity S" using Cons.prems(1) by (auto simp: room_for_def at_capacity_def split: option.splits)
  ultimately have app: "spec_apply S e = (Applied, ?S)"
    using e by (simp add: spec_ops event_order_def)
  have "spec_run ?S es = (replicate (length es) Applied,
      ?S\<lparr>sb_orders := sb_orders ?S @ map event_order es, sb_applied := sb_applied ?S + of_nat (length es)\<rparr>)"
    using Cons.prems e(3) by (intro Cons.IH) (auto simp: event_order_def room_for_def split: option.splits)
  with app show ?case by (simp add: ac_simps)
qed

lemma o_id_event_order: "o_id (event_order e) = ev_order_id e"
  by (simp add: event_order_def)

lemma spec_run_cancels:
  assumes "sb_orders S = map event_order es" and "distinct (map ev_order_id es)"
    and "map ev_order_id cs = map ev_order_id es" and "list_all (\<lambda>e. ev_type e = Cancel) cs"
  shows "spec_run S cs = (replicate (length cs) Applied, S\<lparr>sb_orders := [], sb_applied := sb_applied S + of_nat (length cs)\<rparr>)"
  using assms
proof (induction cs arbitrary: S es)
  case Nil
  then show ?case by (cases S) simp
next
  case (Cons c cs)
  then obtain e es' where es: "es = e # es'" "ev_order_id c = ev_order_id e" by (cases es) auto
  let ?S = "S\<lparr>sb_orders := map event_order es', sb_applied := sb_applied S + 1\<rparr>"
  have "ev_order_id e \<notin> ev_order_id ` set es'" using Cons.prems(2) by (simp add: es)
  then have "filter (\<lambda>x. ev_order_id x \<noteq> ev_order_id e) es' = es'"
    by (intro filter_True ballI notI) (metis image_eqI)
  then have "remove_order (ev_order_id e) (sb_orders S) = map event_order es'"
    using Cons.prems(1) by (simp add: es remove_order_def filter_map comp_def o_id_event_order)
  moreover have "find_order (sb_orders S) (ev_order_id e) = Some (event_order e)"
    using Cons.prems(1) by (simp add: es find_order_def event_order_def)
  ultimately have app: "spec_apply S c = (Applied, ?S)"
    using Cons.prems(4) es(2) by (simp add: spec_ops)
  have "spec_run ?S cs = (replicate (length cs) Applied, ?S\<lparr>sb_orders := [], sb_applied := sb_applied ?S + of_nat (length cs)\<rparr>)"
    using Cons.prems by (intro Cons.IH [where es = es']) (auto simp: es)
  with app show ?case by (simp add: ac_simps)
qed

definition hot_add :: "Side \<Rightarrow> i64 \<Rightarrow> size_t \<Rightarrow> MarketEvent" where
  "hot_add side base i = make_event Add (i + 1) side (base + i mod 128) 100 i"

definition hot_cancel :: "size_t \<Rightarrow> MarketEvent" where
  "hot_cancel i = make_event Cancel (i + 1) Buy 0 0 0"

lemma length_indices [simp]: "length (indices n) = unat n"
  by (simp add: indices_def)

lemma distinct_indices: "distinct (indices n)"
proof -
  have "inj_on (of_nat :: nat \<Rightarrow> size_t) {0..<unat n}"
    using unat_size_less [of n] by (intro inj_onI of_nat_u64_inj) auto
  then show ?thesis by (simp add: indices_def distinct_map)
qed

lemma distinct_hot_ids: "distinct (map (\<lambda>i. ev_order_id (hot_add side base i)) (indices n))"
  using distinct_indices by (simp add: distinct_map hot_add_def make_event_def inj_on_def)

section \<open>Hot paths and streams\<close>

lemma hot_adds_run:
  assumes "cap \<in> {None, Some (unat n)}"
  shows "spec_run (spec_empty cap) (map (hot_add side base) (indices n))
    = (replicate (unat n) Applied, (spec_empty cap)\<lparr>sb_orders := map (\<lambda>i. event_order (hot_add side base i)) (indices n), sb_applied := n\<rparr>)"
proof -
  have "room_for (unat n) (spec_empty cap)" using assms by (auto simp: room_for_def spec_empty_def)
  with spec_run_adds [of "map (hot_add side base) (indices n)" "spec_empty cap"] distinct_hot_ids [of side base n]
  show ?thesis by (simp add: spec_empty_def comp_def list_all_iff hot_add_def make_event_def)
qed

lemma hot_cancels_run:
  assumes "sb_orders S = map (\<lambda>i. event_order (hot_add side base i)) (indices n)"
  shows "spec_run S (map hot_cancel (indices n)) = (replicate (unat n) Applied, S\<lparr>sb_orders := [], sb_applied := sb_applied S + n\<rparr>)"
  using spec_run_cancels [of S "map (hot_add side base) (indices n)" "map hot_cancel (indices n)"] assms
    distinct_hot_ids [of side base n]
  by (simp add: comp_def list_all_iff hot_cancel_def make_event_def) (simp add: hot_add_def make_event_def)

lemma hot_cap: "cap \<in> {None, Some (unat n)} \<Longrightarrow>
    spec_run (spec_empty cap) (mixed_stream (unat n))
      = (replicate (3 * unat n) Applied, (spec_empty cap)\<lparr>sb_applied := of_nat (3 * unat n)\<rparr>)"
proof (cases "unat n")
  case 0
  then show ?thesis by (simp add: mixed_stream_def spec_empty_def)
next
  case (Suc k)
  assume "cap \<in> {None, Some (unat n)}"
  then have "cap \<noteq> Some 0" by (auto simp: Suc)
  then show ?thesis by (rule mixed_stream_run)
qed

lemma length_mixed_stream: "length (mixed_stream k) = 3 * k"
  by (induction k) (simp_all add: mixed_stream_def mixed_cycle_events_def Let_def)

text \<open>What the iterations do to any book that implements the interface, from a cleared book on.\<close>

context order_book
begin

lemma hot_loops:
  assumes "rel b (spec_empty cap)" and "cap \<in> {None, Some (unat n)}"
  shows "\<exists>b'. bench_loop ap m b (map (hot_add side base) (indices n)) = Some ([], b') \<and> live b' = n
    \<and> (\<exists>b''. bench_loop ap m' b' (map hot_cancel (indices n)) = Some ([], b'') \<and> live b'' = 0)"
proof -
  let ?es = "map (hot_add side base) (indices n)"
  let ?S = "snd (spec_run (spec_empty cap) ?es)"
  note adds = hot_adds_run [OF assms(2), of side base]
  obtain b' where b': "bench_loop ap m b ?es = Some ([], b')" "rel b' ?S"
    using bench_loop_sim [OF assms(1), of ?es m] adds by auto
  have orders: "sb_orders ?S = map (\<lambda>i. event_order (hot_add side base i)) (indices n)" by (simp add: adds)
  obtain b'' where b'': "bench_loop ap m' b' (map hot_cancel (indices n)) = Some ([], b'')"
    "rel b'' (snd (spec_run ?S (map hot_cancel (indices n))))"
    using bench_loop_sim [OF b'(2), of "map hot_cancel (indices n)" m'] hot_cancels_run [OF orders] by auto
  have "live b' = n" using live_sim [OF b'(2)] by (simp add: orders)
  moreover have "live b'' = 0" using live_sim [OF b''(2)] by (simp add: hot_cancels_run [OF orders])
  ultimately show ?thesis using b' b'' by blast
qed

lemma hot_path_loops:
  assumes "rel b (spec_empty cap)" and "cap \<in> {None, Some (unat n)}"
  shows "\<exists>b'. bench_loop ap m b (map (hot_add side base) (indices n)) = Some ([], b') \<and> live b' = n"
    and "\<exists>b'. do {
        (m1, b1) \<leftarrow> bench_loop ap m b (map (hot_add side base) (indices n));
        (m2, b2) \<leftarrow> bench_loop ap m' b1 (map hot_cancel (indices n));
        Some (m1 @ m2, b2)
      } = Some ([], b') \<and> live b' = 0"
  using hot_loops [OF assms, of m side base m'] by auto

lemma mixed_loop:
  assumes "rel b (spec_empty cap)" and "cap \<in> {None, Some (unat n)}"
  shows "\<exists>b'. bench_loop ap m b (mixed_stream (unat n)) = Some ([], b') \<and> live b' = 0"
proof -
  note run = hot_cap [OF assms(2)]
  obtain b' where "bench_loop ap m b (mixed_stream (unat n)) = Some ([], b')"
    "rel b' ((spec_empty cap)\<lparr>sb_applied := of_nat (3 * unat n)\<rparr>)"
    using bench_loop_sim [OF assms(1), of "mixed_stream (unat n)" m] run length_mixed_stream by auto
  with live_sim show ?thesis by (auto simp: spec_empty_def)
qed

end

lemma hot_add_calls:
  "bench_loop (\<lambda>b i. add_order b (OrderId (i + 1)) side (Price (base + i mod 128)) (Quantity 100) (Timestamp i)) m b is
     = bench_loop apply_event m b (map (hot_add side base) is)"
  "bench_loop (\<lambda>b i. pooled_add_order b (OrderId (i + 1)) side (Price (base + i mod 128)) (Quantity 100) (Timestamp i)) m p is
     = bench_loop pooled_apply_event m p (map (hot_add side base) is)"
  "bench_loop (\<lambda>b i. cancel_order b (OrderId (i + 1))) m b is = bench_loop apply_event m b (map hot_cancel is)"
  "bench_loop (\<lambda>b i. pooled_cancel_order b (OrderId (i + 1))) m p is = bench_loop pooled_apply_event m p (map hot_cancel is)"
  by (rule bench_loop_map; simp add: hot_add_def hot_cancel_def make_event_def apply_event_def pooled_apply_event_def)+

text \<open>On the baseline book every iteration is without an error, whatever book the previous one left, and
  leaves the number of live orders that the workload implies.\<close>

lemma baseline_iterations_clean:
  fixes n :: size_t
  shows "\<exists>b. baseline_add_iteration n book = Some ([], b) \<and> live_order_count b = n"
  "\<exists>b. baseline_cancel_iteration n book = Some ([], b) \<and> live_order_count b = 0"
  "\<exists>b. baseline_mixed_iteration (mixed_stream (unat n)) book = Some ([], b) \<and> live_order_count b = 0"
  "\<exists>b. direct_replay_iteration (mixed_stream (unat n)) book = Some ([], b) \<and> live_order_count b = 0"
proof -
  have cap: "(None :: nat option) \<in> {None, Some (unat n)}" by simp
  note hot = lob.hot_path_loops [OF lob_rel_cleared [of book] cap] and mixed = lob.mixed_loop [OF lob_rel_cleared [of book] cap]
  show "\<exists>b. baseline_add_iteration n book = Some ([], b) \<and> live_order_count b = n"
    unfolding baseline_add_iteration_def hot_add_calls by (rule hot(1))
  show "\<exists>b. baseline_cancel_iteration n book = Some ([], b) \<and> live_order_count b = 0"
    unfolding baseline_cancel_iteration_def hot_add_calls by (rule hot(2))
  show "\<exists>b. baseline_mixed_iteration (mixed_stream (unat n)) book = Some ([], b) \<and> live_order_count b = 0"
    unfolding baseline_mixed_iteration_def by (rule mixed)
  show "\<exists>b. direct_replay_iteration (mixed_stream (unat n)) book = Some ([], b) \<and> live_order_count b = 0"
    unfolding direct_replay_iteration_def by (rule mixed)
qed

lemma pooled_cleared_rel:
  assumes "pooled_reachable n book"
  shows "pooled_rel (pooled_clear book) (spec_empty (Some (unat n)))"
proof -
  obtain S where "pooled_rel book S" "sb_capacity S = Some (unat n)" using pooled_reachable_rel [OF assms] by blast
  then show ?thesis using pooled.clear_sim [of book S] by (simp add: spec_clear_def)
qed

lemma bench_loop_reachable:
  "pooled_reachable n b \<Longrightarrow> bench_loop pooled_apply_event message b es = Some (ms, b') \<Longrightarrow> pooled_reachable n b'"
  by (induction es arbitrary: b) (auto simp: bind_eq_Some_conv split: if_splits intro: pooled_reach_apply)

text \<open>On the pooled book, whose capacity is the batch size, the pool is large enough and every iteration
  starts with the whole pool free.\<close>

lemma pooled_iterations_clean:
  assumes "pooled_reachable n book"
  shows "\<exists>b. pooled_add_iteration n book = Some ([], b) \<and> pooled_live_order_count b = n \<and> pooled_reachable n b"
    and "\<exists>b. pooled_cancel_iteration n book = Some ([], b) \<and> pooled_live_order_count b = 0 \<and> pooled_reachable n b"
    and "\<exists>b. pooled_mixed_iteration (mixed_stream (unat n)) book = Some ([], b) \<and> pooled_live_order_count b = 0 \<and> pooled_reachable n b"
proof -
  have cap: "Some (unat n) \<in> {None, Some (unat n)}" by simp
  note rel = pooled_cleared_rel [OF assms]
  note hot = pooled.hot_path_loops [OF rel cap] and mixed = pooled.mixed_loop [OF rel cap]
  note reach = bench_loop_reachable [OF pooled_reach_clear [OF assms]]
  show "\<exists>b. pooled_add_iteration n book = Some ([], b) \<and> pooled_live_order_count b = n \<and> pooled_reachable n b"
    unfolding pooled_add_iteration_def hot_add_calls using hot(1) reach by blast
  show "\<exists>b. pooled_cancel_iteration n book = Some ([], b) \<and> pooled_live_order_count b = 0 \<and> pooled_reachable n b"
  proof -
    obtain b b' where adds: "bench_loop pooled_apply_event ''pooled benchmark setup add_order failed'' (pooled_clear book)
        (map (hot_add Sell 10100) (indices n)) = Some ([], b)"
      and cancels: "bench_loop pooled_apply_event ''pooled cancel_order returned a non-applied result'' b (map hot_cancel (indices n))
        = Some ([], b')" and "pooled_live_order_count b' = 0"
      using pooled.hot_loops [OF rel cap] by blast
    moreover have "pooled_reachable n b'" by (rule bench_loop_reachable [OF reach [OF adds] cancels])
    ultimately show ?thesis unfolding pooled_cancel_iteration_def hot_add_calls by auto
  qed
  show "\<exists>b. pooled_mixed_iteration (mixed_stream (unat n)) book = Some ([], b) \<and> pooled_live_order_count b = 0 \<and> pooled_reachable n b"
    unfolding pooled_mixed_iteration_def using mixed reach by blast
qed

section \<open>Parsing and applying\<close>

fun parse_apply_rows ::
  "('b \<Rightarrow> MarketEvent \<Rightarrow> (BookResult \<times> 'b) option) \<Rightarrow> string \<Rightarrow> CsvParseResult list \<Rightarrow> 'b \<Rightarrow> (string list \<times> 'b) option" where
  "parse_apply_rows ap message [] book = Some ([], book)"
| "parse_apply_rows ap message (parsed # rs) book =
     (case (cr_status parsed, cr_event parsed) of
        (EventParsed, Some event) \<Rightarrow> do {
          (result, book') \<leftarrow> ap book event;
          if result \<noteq> Applied then Some ([message], book') else parse_apply_rows ap message rs book'
        }
      | _ \<Rightarrow> Some ([''generated CSV fixture produced malformed row''], book))"

context result_source
begin

lemma parse_apply_loop_rows: "ok p \<Longrightarrow> parse_apply_loop nxt ap message p b = parse_apply_rows ap message (pending p) b"
proof (induction "pending p" arbitrary: p b)
  case Nil
  with next_end [of p] show ?case by (auto simp: parse_apply_loop.simps [of nxt ap message p] end_of_file_def)
next
  case (Cons r rs)
  with next_result [of p r rs] obtain q where q: "nxt p = (r, q)" "ok q" "pending q = rs" "cr_status r \<noteq> EndOfFile"
    by auto
  have "parse_apply_loop nxt ap message q b' = parse_apply_rows ap message rs b'" for b'
    using Cons.hyps(1) q by blast
  with q Cons.hyps(2) [symmetric] show ?case
    by (simp add: parse_apply_loop.simps [of nxt ap message p] cong: if_cong option.case_cong CsvParseStatus.case_cong)
qed

end

lemma parse_apply_printed:
  "parse_apply_rows ap message (printed_results n es) b = bench_loop ap message b (map csv_normal es)"
  by (induction es arbitrary: n b) (simp_all add: printed_result_def cong: if_cong)

lemma fixture_run:
  assumes "cap \<in> {None, Some (unat n)}"
  shows "spec_run (spec_empty cap) (map fixture_event [0..<unat n]) = (replicate (unat n) Applied,
    (spec_empty cap)\<lparr>sb_orders := map (\<lambda>i. event_order (fixture_event i)) [0..<unat n], sb_applied := n\<rparr>)"
proof -
  have "room_for (unat n) (spec_empty cap)" using assms by (auto simp: room_for_def spec_empty_def)
  with spec_run_adds [of "map fixture_event [0..<unat n]" "spec_empty cap"] fixture_ids_distinct [OF unat_size_less, of n]
  show ?thesis by (simp add: spec_empty_def comp_def list_all_iff fixture_event_def make_event_def)
qed

lemma fixture_loop_eq:
  assumes "fs path = Some (csv_fixture_text (unat n))"
  shows "is_open (new_csv_parser fs path)" and "parse_apply_loop csv_next ap message (new_csv_parser fs path) b
    = bench_loop ap message b (map fixture_event [0..<unat n])"
proof -
  let ?es = "map fixture_event [0..<unat n]"
  show p: "is_open (new_csv_parser fs path)"
    using new_csv_parser_pending [of fs path, OF assms] by simp
  have "csv_pending (new_csv_parser fs path) = printed_results 1 ?es"
    using new_csv_parser_pending [of fs path, OF assms] by (simp add: csv_fixture_text_file csv_results_file)
  moreover have "map csv_normal ?es = ?es" by (simp add: csv_normal_def fixture_event_def make_event_def)
  ultimately show "parse_apply_loop csv_next ap message (new_csv_parser fs path) b = bench_loop ap message b ?es"
    by (simp only: csv.parse_apply_loop_rows [OF p] parse_apply_printed)
qed

context order_book
begin

lemma fixture_loop:
  assumes "rel b (spec_empty cap)" and "cap \<in> {None, Some (unat n)}"
  shows "\<exists>b'. bench_loop ap message b (map fixture_event [0..<unat n]) = Some ([], b') \<and> live b' = n"
  using bench_loop_sim [OF assms(1), of "map fixture_event [0..<unat n]" message] fixture_run [OF assms(2)] live_sim by force

end

text \<open>Both parse-and-apply iterations read the generated fixture without an error and leave all its orders live.\<close>

lemma csv_iterations_clean:
  assumes "fs path = Some (csv_fixture_text (unat n))"
  shows "\<exists>b. baseline_csv_iteration fs path book = Some (True, [], b) \<and> live_order_count b = n"
    and "pooled_reachable n p \<Longrightarrow>
      \<exists>q. pooled_csv_iteration fs path p = Some (True, [], q) \<and> pooled_live_order_count q = n \<and> pooled_reachable n q"
proof -
  note loop = fixture_loop_eq [where fs = fs and path = path, OF assms]
  show "\<exists>b. baseline_csv_iteration fs path book = Some (True, [], b) \<and> live_order_count b = n"
    using lob.fixture_loop [OF lob_rel_cleared [of book], of n] by (simp add: baseline_csv_iteration_def loop)
  assume p: "pooled_reachable n p"
  note reach = bench_loop_reachable [OF pooled_reach_clear [OF p]]
  show "\<exists>q. pooled_csv_iteration fs path p = Some (True, [], q) \<and> pooled_live_order_count q = n \<and> pooled_reachable n q"
    using pooled.fixture_loop [OF pooled_cleared_rel [OF p], of n] reach by (simp add: pooled_csv_iteration_def loop) blast
qed

section \<open>Scoring the feature stream\<close>

lemma spec_run_length: "length (fst (spec_run S es)) = length es"
  by (induction es arbitrary: S) simp_all

lemma observe_loop_clean:
  assumes "lob_rel b S" and "stamps_nonneg (am_extractor m)" and "fst (spec_run S es) = replicate (length es) Applied"
    and "list_all (\<lambda>e. 0 \<le> ns_of (ev_timestamp e)) es"
  shows "\<exists>b' m' k'. observe_loop D b m k es = Some ([], b', m', k') \<and> lob_rel b' (snd (spec_run S es))"
  using assms
proof (induction es arbitrary: b S m k)
  case Nil
  then show ?case by simp
next
  case (Cons e es)
  from lob.apply_sim [OF Cons.prems(1), of e] Cons.prems(3) obtain b1 where
    b1: "apply_event b e = Some (Applied, b1)" "lob_rel b1 (snd (spec_apply S e))" by auto
  obtain as m1 where m1: "observe D m e b1 = Some (as, m1)" "stamps_nonneg (am_extractor m1)"
    using observe_nonneg [OF Cons.prems(2), of e D b1] Cons.prems(4) by auto
  from Cons.IH [OF b1(2) m1(2), of "k + of_nat (length as)"] Cons.prems(3,4) b1(1) m1(1) show ?case by simp
qed

lemma nonneg_of_nat: "t < 2 ^ 63 \<Longrightarrow> 0 \<le> sint (of_nat t :: i64)"
  by (simp add: signed_of_nat signed_take_bit_int_eq_self)

lemma feature_cycles_stamps:
  "t + 4 * n \<le> 2 ^ 63 \<Longrightarrow> list_all (\<lambda>e. 0 \<le> ns_of (ev_timestamp e)) (feature_cycle_events n i (of_nat t))"
proof (induction n arbitrary: i t)
  case (Suc n)
  have "(of_nat t :: i64) + 4 = of_nat (t + 4)" by simp
  moreover have "list_all (\<lambda>e. 0 \<le> ns_of (ev_timestamp e)) (feature_cycle_events n (i + 1) (of_nat (t + 4)))"
    using Suc.prems by (intro Suc.IH) simp
  moreover have "0 \<le> sint (of_nat t + of_nat k :: i64)" if "k < 4" for k
    using nonneg_of_nat [of "t + k"] that Suc.prems by simp
  from this [of 0] this [of 1] this [of 2] this [of 3]
  have "0 \<le> sint (of_nat t :: i64)" "0 \<le> sint (of_nat t + 1 :: i64)" "0 \<le> sint (of_nat t + 2 :: i64)" "0 \<le> sint (of_nat t + 3 :: i64)"
    by simp_all
  ultimately show ?case by (simp add: make_event_def)
qed simp

text \<open>The scoring iteration never reports an error and never meets undefined behaviour, for up to \<open>2 ^ 60\<close>
  cycles, any earlier book and any earlier monitor.\<close>

lemma scoring_iteration_clean:
  fixes n :: size_t
  assumes "n \<le> 2 ^ 60"
  shows "\<exists>b m k. scoring_iteration D (feature_stream (unat n)) book monitor = Some ([], b, m, k) \<and> live_order_count b = 2"
proof -
  let ?n = "unat n"
  have n: "?n \<le> 2 ^ 60" using assms by (simp add: word_le_nat_alt)
  then have run: "spec_run (spec_empty None) (feature_stream ?n) = (replicate (4 * ?n + 2) Applied,
      feature_book\<lparr>sb_applied := sb_applied feature_book + of_nat (4 * ?n)\<rparr>)" by (intro feature_stream_run) simp
  then have len: "length (feature_stream ?n) = 4 * ?n + 2" using spec_run_length by (metis fst_conv length_replicate)
  have "list_all (\<lambda>e. 0 \<le> ns_of (ev_timestamp e)) (feature_stream ?n)"
    using feature_cycles_stamps [of 2 ?n 3] n by (simp add: feature_stream_def make_event_def)
  moreover have "stamps_nonneg (am_extractor (monitor_reset monitor))"
    by (simp add: monitor_reset_def extractor_reset_def stamps_nonneg_def)
  ultimately obtain b m k where "scoring_iteration D (feature_stream (unat n)) book monitor = Some ([], b, m, k)"
    "lob_rel b (snd (spec_run (spec_empty None) (feature_stream ?n)))"
    using observe_loop_clean [OF lob_rel_cleared [of book], of "monitor_reset monitor" "feature_stream ?n" D 0]
    by (auto simp: scoring_iteration_def run len)
  with lob.live_sim show ?thesis by (auto simp: run feature_book_def anchors_def)
qed

end
