(* ===== verification/Queued_Fairness.thy ===== *)
theory Queued_Fairness
  imports Queued_Replay
begin

text \<open>
  Termination of the threaded replay. An execution is an infinite sequence of states; it is fair
  when each thread whose loop has not ended keeps taking steps, and stores become visible when
  every load from some point on returns at least the value stored before. Under these two
  assumptions about scheduler and hardware both loops end.
\<close>

section \<open>Executions\<close>

text \<open>When both loops have ended the state stays as it is.\<close>

definition execution :: "MarketEvent list \<Rightarrow> spsc_system \<Rightarrow> LimitOrderBook \<Rightarrow> (nat \<Rightarrow> queued_replay) \<Rightarrow> bool" where
  "execution events queue book \<sigma> \<longleftrightarrow> \<sigma> 0 = queued_start queue book
     \<and> (\<forall>i. queued_step events (\<sigma> i) (\<sigma> (Suc i)) \<or> queued_done events (\<sigma> i) \<and> \<sigma> (Suc i) = \<sigma> i)"

definition producer_done :: "MarketEvent list \<Rightarrow> queued_replay \<Rightarrow> bool" where
  "producer_done events s \<longleftrightarrow> prod (qr_queue s) = PIdle
     \<and> length (pushed (qr_queue s)) = qr_base s + length events"

definition producer_moves :: "queued_replay \<Rightarrow> queued_replay \<Rightarrow> bool" where
  "producer_moves s s' \<longleftrightarrow> prod (qr_queue s') \<noteq> prod (qr_queue s)"

definition consumer_moves :: "queued_replay \<Rightarrow> queued_replay \<Rightarrow> bool" where
  "consumer_moves s s' \<longleftrightarrow> cons (qr_queue s') \<noteq> cons (qr_queue s) \<or> qr_consumed s' \<noteq> qr_consumed s"

definition fair :: "MarketEvent list \<Rightarrow> (nat \<Rightarrow> queued_replay) \<Rightarrow> bool" where
  "fair events \<sigma> \<longleftrightarrow>
     (\<forall>i. \<exists>j \<ge> i. producer_done events (\<sigma> j) \<or> producer_moves (\<sigma> j) (\<sigma> (Suc j)))
     \<and> (\<forall>i. \<exists>j \<ge> i. queued_done events (\<sigma> j) \<or> consumer_moves (\<sigma> j) (\<sigma> (Suc j)))"

fun is_loading :: "producer \<Rightarrow> bool" where
  "is_loading (PLoaded e w) = True"
| "is_loading p = False"

fun is_checking :: "consumer \<Rightarrow> bool" where
  "is_checking (CLoaded r) = True"
| "is_checking c = False"

text \<open>The load of the other thread's counter is the step that leaves \<open>PLoaded\<close> or \<open>CLoaded\<close>.\<close>

definition stores_visible :: "(nat \<Rightarrow> queued_replay) \<Rightarrow> bool" where
  "stores_visible \<sigma> \<longleftrightarrow> (\<forall>i. \<exists>j. \<forall>k \<ge> j.
     (is_loading (prod (qr_queue (\<sigma> k))) \<and> producer_moves (\<sigma> k) (\<sigma> (Suc k)) \<longrightarrow>
        length (popped (qr_queue (\<sigma> i))) \<le> prod_seen (qr_queue (\<sigma> (Suc k))))
     \<and> (is_checking (cons (qr_queue (\<sigma> k))) \<and> consumer_moves (\<sigma> k) (\<sigma> (Suc k)) \<longrightarrow>
        length (pushed (qr_queue (\<sigma> i))) \<le> cons_seen (qr_queue (\<sigma> (Suc k)))))"

section \<open>Sequences that settle\<close>

lemma antimono_settles:
  fixes f :: "nat \<Rightarrow> nat"
  assumes "\<And>i. N \<le> i \<Longrightarrow> f (Suc i) \<le> f i"
  shows "\<exists>n \<ge> N. \<forall>m \<ge> n. f m = f n"
proof -
  have le: "f j \<le> f i" if "N \<le> i" "i \<le> j" for i j
    using that(2) by (induction rule: dec_induct) (use assms that(1) in \<open>auto intro: le_trans\<close>)
  obtain n where n: "N \<le> n" "\<And>m. N \<le> m \<Longrightarrow> f n \<le> f m"
    using ex_has_least_nat [of "\<lambda>n. N \<le> n" N f] by auto
  then have "f m = f n" if "n \<le> m" for m using le [of n m] that by (meson le_antisym le_trans)
  with n(1) show ?thesis by blast
qed

lemma bounded_settles:
  fixes f :: "nat \<Rightarrow> nat"
  assumes "\<And>i. f i \<le> f (Suc i)" and "\<And>i. f i \<le> b"
  shows "\<exists>n. \<forall>m \<ge> n. f m = f n"
proof -
  have "\<exists>n \<ge> 0. \<forall>m \<ge> n. b - f m = b - f n" by (rule antimono_settles) (use assms(1) in \<open>simp add: diff_le_mono2\<close>)
  then show ?thesis using assms(2) by (metis diff_diff_cancel)
qed

lemma no_infinite_descent:
  fixes f :: "nat \<Rightarrow> nat"
  assumes "\<And>i. N \<le> i \<Longrightarrow> f (Suc i) \<le> f i" and "\<And>i. N \<le> i \<Longrightarrow> \<exists>j \<ge> i. f (Suc j) < f j"
  shows False
proof -
  from antimono_settles [where f = f and N = N, OF assms(1)] obtain n where n: "N \<le> n" "\<forall>m \<ge> n. f m = f n" by blast
  from assms(2) [OF n(1)] obtain j where "j \<ge> n" "f (Suc j) < f j" by blast
  with n(2) show False by (metis le_Suc_eq less_irrefl)
qed

section \<open>Steps of one thread\<close>

lemma producer_closer:
  assumes "spsc_step q q'" and "spsc_inv q" and "cons q' = cons q" and "pushed q' = pushed q"
    and "length (pushed q) = length (popped q)" and "is_loading (prod q) \<Longrightarrow> length (popped q) \<le> prod_seen q'"
  shows "prod_distance (prod q') < prod_distance (prod q)"
  using assms
proof (induction rule: spsc_step.induct)
  case (push_no_room s e w r)
  note inv = spsc_invD [OF push_no_room.prems(1)]
  have "r = length (popped s)" using push_no_room by simp
  then have "length (pushed s) - length (popped s) = unat (sp_capacity (shared s))"
    using push_no_room inv(10) spsc_distance [OF push_no_room.prems(1), of r] by simp
  moreover have "0 < unat (sp_capacity (shared s))" using inv(1) by (auto simp: ring_wf_def)
  ultimately show ?case using push_no_room.prems by simp
qed simp_all

lemma consumer_closer:
  assumes "spsc_step q q'" and "spsc_inv q" and "prod q' = prod q" and "popped q' = popped q"
    and "length (popped q) < length (pushed q)" and "is_checking (cons q) \<Longrightarrow> length (pushed q) \<le> cons_seen q'"
  shows "cons_distance (cons q') < cons_distance (cons q)"
  using assms
proof (induction rule: spsc_step.induct)
  case (pop_none s r w)
  note inv = spsc_invD [OF pop_none.prems(1)]
  have "w = length (pushed s)" using pop_none by simp
  moreover have "length (pushed s) - length (popped s) \<le> unat (sp_capacity (shared s))" using inv(4,7) by simp
  ultimately show ?case
    using pop_none inv(11) ring_distance(2) [OF inv(1), of "length (popped s)" "length (pushed s)"] by simp
qed simp_all

text \<open>A step that changes none of the three counts is a step of one thread towards its next count.\<close>

definition quiet :: "queued_replay \<Rightarrow> queued_replay \<Rightarrow> bool" where
  "quiet s s' \<longleftrightarrow> length (pushed (qr_queue s')) = length (pushed (qr_queue s))
     \<and> length (popped (qr_queue s')) = length (popped (qr_queue s)) \<and> qr_consumed s' = qr_consumed s"

lemma quiet_step:
  assumes "queued_step events s s'" and "quiet s s'"
  obtains
    (produce) "spsc_step (qr_queue s) (qr_queue s')" "cons (qr_queue s') = cons (qr_queue s)"
      "pushed (qr_queue s') = pushed (qr_queue s)" "producer_moves s s'" "\<not> consumer_moves s s'"
  | (consume) "spsc_step (qr_queue s) (qr_queue s')" "prod (qr_queue s') = prod (qr_queue s)"
      "popped (qr_queue s') = popped (qr_queue s)" "consumer_moves s s'" "\<not> producer_moves s s'" "qr_event s = None"
proof -
  note moves = producer_moves_def consumer_moves_def quiet_def
  from assms(1) show ?thesis
  proof (cases rule: queued_step.cases)
    case (produce q')
    then have "pushed q' = pushed (qr_queue s) \<and> prod q' \<noteq> prod (qr_queue s)"
      using assms(2) by (auto simp: moves elim!: spsc_stepE)
    with produce that(1) show ?thesis by (simp add: moves)
  next
    case (consume q')
    then have "popped q' = popped (qr_queue s) \<and> cons q' \<noteq> cons (qr_queue s)"
      using assms(2) by (auto simp: moves elim!: spsc_stepE)
    with consume that(2) show ?thesis by (simp add: moves)
  next
    case (apply_popped e r b)
    with assms(2) show ?thesis by (simp add: moves)
  qed
qed

lemma queued_step_counts:
  assumes "queued_step events s s'"
  shows "length (pushed (qr_queue s)) \<le> length (pushed (qr_queue s'))"
    and "length (popped (qr_queue s)) \<le> length (popped (qr_queue s'))"
    and "qr_consumed s \<le> qr_consumed s'" and "qr_base s' = qr_base s"
  using assms by (auto elim!: queued_stepE spsc_stepE)

lemma pushed_bound:
  assumes "queued_inv events b0 s"
  shows "length (pushed (qr_queue s)) \<le> qr_base s + length events"
proof -
  have "drop (qr_base s) (pushed (qr_queue s)) = take (length (pushed (qr_queue s)) - qr_base s) events"
    using assms by (simp add: queued_inv_def pushes_in_order_def)
  then have "length (pushed (qr_queue s)) - qr_base s \<le> length events" by (metis length_drop length_take min.cobounded1)
  then show ?thesis by simp
qed

section \<open>Both loops end\<close>

text \<open>The facts about one infinite execution that never finishes, from the point on where its counts
  have settled and all stores made before are visible.\<close>

definition stuck_from :: "MarketEvent list \<Rightarrow> LimitOrderBook \<Rightarrow> (nat \<Rightarrow> queued_replay) \<Rightarrow> nat \<Rightarrow> bool" where
  "stuck_from events b0 \<sigma> n \<longleftrightarrow> (\<forall>i \<ge> n. queued_inv events b0 (\<sigma> i) \<and> \<not> queued_done events (\<sigma> i)
     \<and> queued_step events (\<sigma> i) (\<sigma> (Suc i)) \<and> quiet (\<sigma> n) (\<sigma> i)
     \<and> (is_loading (prod (qr_queue (\<sigma> i))) \<and> producer_moves (\<sigma> i) (\<sigma> (Suc i)) \<longrightarrow>
          length (popped (qr_queue (\<sigma> n))) \<le> prod_seen (qr_queue (\<sigma> (Suc i))))
     \<and> (is_checking (cons (qr_queue (\<sigma> i))) \<and> consumer_moves (\<sigma> i) (\<sigma> (Suc i)) \<longrightarrow>
          length (pushed (qr_queue (\<sigma> n))) \<le> cons_seen (qr_queue (\<sigma> (Suc i)))))"

lemma stuckD:
  assumes "stuck_from events b0 \<sigma> n" and "n \<le> i"
  shows "queued_inv events b0 (\<sigma> i)" and "\<not> queued_done events (\<sigma> i)" and "queued_step events (\<sigma> i) (\<sigma> (Suc i))"
    and "quiet (\<sigma> n) (\<sigma> i)" and "quiet (\<sigma> i) (\<sigma> (Suc i))" and "spsc_inv (qr_queue (\<sigma> i))"
    and "is_loading (prod (qr_queue (\<sigma> i))) \<Longrightarrow> producer_moves (\<sigma> i) (\<sigma> (Suc i)) \<Longrightarrow>
      length (popped (qr_queue (\<sigma> n))) \<le> prod_seen (qr_queue (\<sigma> (Suc i)))"
    and "is_checking (cons (qr_queue (\<sigma> i))) \<Longrightarrow> consumer_moves (\<sigma> i) (\<sigma> (Suc i)) \<Longrightarrow>
      length (pushed (qr_queue (\<sigma> n))) \<le> cons_seen (qr_queue (\<sigma> (Suc i)))"
proof -
  show inv: "queued_inv events b0 (\<sigma> i)" and "\<not> queued_done events (\<sigma> i)"
    and "queued_step events (\<sigma> i) (\<sigma> (Suc i))" and here: "quiet (\<sigma> n) (\<sigma> i)"
    and "is_loading (prod (qr_queue (\<sigma> i))) \<Longrightarrow> producer_moves (\<sigma> i) (\<sigma> (Suc i)) \<Longrightarrow>
      length (popped (qr_queue (\<sigma> n))) \<le> prod_seen (qr_queue (\<sigma> (Suc i)))"
    and "is_checking (cons (qr_queue (\<sigma> i))) \<Longrightarrow> consumer_moves (\<sigma> i) (\<sigma> (Suc i)) \<Longrightarrow>
      length (pushed (qr_queue (\<sigma> n))) \<le> cons_seen (qr_queue (\<sigma> (Suc i)))"
    using assms unfolding stuck_from_def by blast+
  have "quiet (\<sigma> n) (\<sigma> (Suc i))" using assms le_SucI unfolding stuck_from_def by blast
  with here show "quiet (\<sigma> i) (\<sigma> (Suc i))" by (simp add: quiet_def)
  from inv show "spsc_inv (qr_queue (\<sigma> i))" by (simp add: queued_inv_def)
qed

lemma stuck_producer:
  assumes "stuck_from events b0 \<sigma> n" and "fair events \<sigma>"
    and empty: "length (pushed (qr_queue (\<sigma> n))) = length (popped (qr_queue (\<sigma> n)))"
  shows "\<exists>i \<ge> n. producer_done events (\<sigma> i)"
proof (rule ccontr)
  assume never: "\<not> ?thesis"
  have closer: "prod_distance (prod (qr_queue (\<sigma> (Suc i)))) < prod_distance (prod (qr_queue (\<sigma> i)))"
    if i: "n \<le> i" and move: "producer_moves (\<sigma> i) (\<sigma> (Suc i))" for i
  proof -
    note stuck = stuckD [OF assms(1) i]
    from stuck(3,5) show ?thesis
    proof (cases rule: quiet_step)
      case produce
      then show ?thesis
        using move empty stuck(4,7) by (intro producer_closer [OF _ stuck(6)]) (simp_all add: quiet_def)
    qed (use move in simp)
  qed
  show False
  proof (rule no_infinite_descent [where f = "\<lambda>i. prod_distance (prod (qr_queue (\<sigma> i)))" and N = n])
    show "prod_distance (prod (qr_queue (\<sigma> (Suc i)))) \<le> prod_distance (prod (qr_queue (\<sigma> i)))" if "n \<le> i" for i
      using closer [OF that] by (cases "producer_moves (\<sigma> i) (\<sigma> (Suc i))") (auto simp: producer_moves_def)
    show "\<exists>j \<ge> i. prod_distance (prod (qr_queue (\<sigma> (Suc j)))) < prod_distance (prod (qr_queue (\<sigma> j)))" if "n \<le> i" for i
      using assms(2) never closer that unfolding fair_def by (meson le_trans)
  qed
qed

lemma stuck_consumer:
  assumes "stuck_from events b0 \<sigma> n" and "fair events \<sigma>"
  shows "length (pushed (qr_queue (\<sigma> n))) = length (popped (qr_queue (\<sigma> n)))"
proof (rule ccontr)
  assume "\<not> ?thesis"
  moreover have "spsc_inv (qr_queue (\<sigma> n))" by (rule stuckD(6) [OF assms(1) order_refl])
  ultimately have more: "length (popped (qr_queue (\<sigma> n))) < length (pushed (qr_queue (\<sigma> n)))"
    using spsc_invD(5,6) by (metis le_neq_implies_less le_trans)
  have closer: "cons_distance (cons (qr_queue (\<sigma> (Suc i)))) < cons_distance (cons (qr_queue (\<sigma> i)))"
    if i: "n \<le> i" and move: "consumer_moves (\<sigma> i) (\<sigma> (Suc i))" for i
  proof -
    note stuck = stuckD [OF assms(1) i]
    from stuck(3,5) show ?thesis
    proof (cases rule: quiet_step)
      case consume
      then show ?thesis
        using move more stuck(4,8) by (intro consumer_closer [OF _ stuck(6)]) (simp_all add: quiet_def)
    qed (use move in simp)
  qed
  show False
  proof (rule no_infinite_descent [where f = "\<lambda>i. cons_distance (cons (qr_queue (\<sigma> i)))" and N = n])
    show "cons_distance (cons (qr_queue (\<sigma> (Suc i)))) \<le> cons_distance (cons (qr_queue (\<sigma> i)))" if "n \<le> i" for i
      using closer [OF that] by (cases "consumer_moves (\<sigma> i) (\<sigma> (Suc i))") (auto simp: consumer_moves_def)
    show "\<exists>j \<ge> i. cons_distance (cons (qr_queue (\<sigma> (Suc j)))) < cons_distance (cons (qr_queue (\<sigma> j)))" if "n \<le> i" for i
      using assms(2) stuckD(2) [OF assms(1)] closer that unfolding fair_def by (meson le_trans)
  qed
qed

lemma execution_inv:
  assumes "bench_queue c queue" and "execution events queue book \<sigma>"
  shows "queued_inv events (clear book) (\<sigma> i)"
proof (induction i)
  case 0
  then show ?case using assms queued_inv_start [OF bench_queue_at_rest] by (simp add: execution_def)
next
  case (Suc i)
  then show ?case using assms(2) queued_inv_step unfolding execution_def by metis
qed

lemma never_done_stuck:
  assumes queue: "bench_queue c queue" and exec: "execution events queue book \<sigma>" and "stores_visible \<sigma>"
    and never: "\<And>i. \<not> queued_done events (\<sigma> i)"
  shows "\<exists>n. stuck_from events (clear book) \<sigma> n"
proof -
  note inv = execution_inv [OF queue exec]
  have step: "queued_step events (\<sigma> i) (\<sigma> (Suc i))" for i using exec never by (auto simp: execution_def)
  note counts = queued_step_counts [OF step]
  have base: "qr_base (\<sigma> i) = qr_base (\<sigma> 0)" for i by (induction i) (simp_all add: counts(4))
  have pushed_le: "length (pushed (qr_queue (\<sigma> i))) \<le> qr_base (\<sigma> 0) + length events" for i
    using pushed_bound [OF inv, of i] base [of i] by simp
  have "length (popped (qr_queue (\<sigma> i))) \<le> qr_base (\<sigma> 0) + length events" for i
    using pushed_le [of i] inv [of i] spsc_invD(5,6) [of "qr_queue (\<sigma> i)"] by (simp add: queued_inv_def)
  from bounded_settles [where f = "\<lambda>i. length (popped (qr_queue (\<sigma> i)))", OF counts(2) this]
  obtain m where m: "\<forall>i \<ge> m. length (popped (qr_queue (\<sigma> i))) = length (popped (qr_queue (\<sigma> m)))" by blast
  from bounded_settles [where f = "\<lambda>i. length (pushed (qr_queue (\<sigma> i)))", OF counts(1) pushed_le]
  obtain p where p: "\<forall>i \<ge> p. length (pushed (qr_queue (\<sigma> i))) = length (pushed (qr_queue (\<sigma> p)))" by blast
  from bounded_settles [where f = "\<lambda>i. qr_consumed (\<sigma> i)", OF counts(3) consumed_le [OF inv]]
  obtain k where k: "\<forall>i \<ge> k. qr_consumed (\<sigma> i) = qr_consumed (\<sigma> k)" by blast
  define N where "N = max m (max p k)"
  have quiet: "quiet (\<sigma> i) (\<sigma> j)" if "N \<le> i" "N \<le> j" for i j
    using that m p k unfolding quiet_def N_def by (metis max.bounded_iff)
  obtain J where J: "\<forall>i \<ge> J.
      (is_loading (prod (qr_queue (\<sigma> i))) \<and> producer_moves (\<sigma> i) (\<sigma> (Suc i)) \<longrightarrow>
        length (popped (qr_queue (\<sigma> N))) \<le> prod_seen (qr_queue (\<sigma> (Suc i))))
      \<and> (is_checking (cons (qr_queue (\<sigma> i))) \<and> consumer_moves (\<sigma> i) (\<sigma> (Suc i)) \<longrightarrow>
        length (pushed (qr_queue (\<sigma> N))) \<le> cons_seen (qr_queue (\<sigma> (Suc i))))"
    using assms(3) unfolding stores_visible_def by blast
  have "quiet (\<sigma> (max N J)) (\<sigma> N)" by (rule quiet) simp_all
  then have counts_N: "length (popped (qr_queue (\<sigma> (max N J)))) = length (popped (qr_queue (\<sigma> N)))"
    "length (pushed (qr_queue (\<sigma> (max N J)))) = length (pushed (qr_queue (\<sigma> N)))" by (simp_all add: quiet_def)
  have "stuck_from events (clear book) \<sigma> (max N J)"
    unfolding stuck_from_def counts_N
  proof (intro allI impI)
    fix i assume i: "max N J \<le> i"
    then have "quiet (\<sigma> (max N J)) (\<sigma> i)" by (intro quiet) simp_all
    with i J inv never step show "queued_inv events (clear book) (\<sigma> i) \<and> \<not> queued_done events (\<sigma> i)
        \<and> queued_step events (\<sigma> i) (\<sigma> (Suc i)) \<and> quiet (\<sigma> (max N J)) (\<sigma> i)
        \<and> (is_loading (prod (qr_queue (\<sigma> i))) \<and> producer_moves (\<sigma> i) (\<sigma> (Suc i)) \<longrightarrow>
          length (popped (qr_queue (\<sigma> N))) \<le> prod_seen (qr_queue (\<sigma> (Suc i))))
        \<and> (is_checking (cons (qr_queue (\<sigma> i))) \<and> consumer_moves (\<sigma> i) (\<sigma> (Suc i)) \<longrightarrow>
          length (pushed (qr_queue (\<sigma> N))) \<le> cons_seen (qr_queue (\<sigma> (Suc i))))" by simp
  qed
  then show ?thesis by blast
qed

lemma fair_execution_finishes:
  assumes "bench_queue c queue" and "execution events queue book \<sigma>" and "fair events \<sigma>" and "stores_visible \<sigma>"
  shows "\<exists>n. queued_done events (\<sigma> n)"
proof (rule ccontr)
  assume never: "\<not> ?thesis"
  then obtain n where stuck: "stuck_from events (clear book) \<sigma> n" using never_done_stuck [OF assms(1,2,4)] by blast
  note empty = stuck_consumer [OF stuck assms(3)]
  from stuck_producer [OF stuck assms(3) empty] obtain i where
    i: "n \<le> i" "length (pushed (qr_queue (\<sigma> i))) = qr_base (\<sigma> i) + length events" by (auto simp: producer_done_def)
  obtain j where j: "i \<le> j" "consumer_moves (\<sigma> j) (\<sigma> (Suc j))" using assms(3) never unfolding fair_def by blast
  then have nj: "n \<le> j" using i(1) by simp
  have same: "qr_base (\<sigma> (Suc k)) = qr_base (\<sigma> k)" if "n \<le> k" for k
    by (rule queued_step_counts(4) [OF stuckD(3) [OF stuck that]])
  from j(1) have base: "qr_base (\<sigma> j) = qr_base (\<sigma> i)"
    by (induction rule: dec_induct) (use same i(1) in simp_all)
  from stuckD(3,5) [OF stuck nj] have "qr_event (\<sigma> j) = None" by (cases rule: quiet_step) (use j(2) in auto)
  then have "qr_base (\<sigma> j) + qr_consumed (\<sigma> j) = length (popped (qr_queue (\<sigma> j)))"
    using stuckD(1) [OF stuck nj] by (simp add: queued_inv_def)
  also have "\<dots> = length (pushed (qr_queue (\<sigma> i)))"
    using stuckD(4) [OF stuck nj] stuckD(4) [OF stuck i(1)] empty by (simp add: quiet_def)
  finally have "queued_done events (\<sigma> j)" using i(2) base by (simp add: queued_done_def)
  with never show False by blast
qed

lemma done_producer:
  assumes "queued_inv events b0 s" and "queued_done events s"
  shows "producer_done events s"
proof -
  have rest: "at_rest (qr_queue s)" by (rule done_at_rest [OF assms])
  moreover have "qr_base s + length events \<le> length (popped (qr_queue s))"
    using assms by (auto simp: queued_inv_def queued_done_def split: option.splits)
  ultimately show ?thesis using pushed_bound [OF assms(1)] by (simp add: producer_done_def at_rest_def)
qed

section \<open>Properties\<close>

text \<open>C21: every fair execution of the threaded replay ends, and with the book and the failure flag of
  applying the events one after the other: if each thread keeps being scheduled and stored
  counters become visible in time, then both loops end.\<close>

theorem queued_replay_finishes:
  assumes "bench_queue c queue" and "execution events queue book \<sigma>" and "fair events \<sigma>" and "stores_visible \<sigma>"
  shows "\<exists>n rs. queued_done events (\<sigma> n) \<and> producer_done events (\<sigma> n)
    \<and> run_book apply_event (clear book) events = Some (rs, qr_book (\<sigma> n))
    \<and> (qr_failed (\<sigma> n) \<longleftrightarrow> list_ex (\<lambda>r. r \<noteq> Applied) rs)"
proof -
  obtain n where ended: "queued_done events (\<sigma> n)" using fair_execution_finishes [OF assms] by blast
  note inv = execution_inv [OF assms(1,2), of n]
  then obtain rs where "run_book apply_event (clear book) events = Some (rs, qr_book (\<sigma> n))"
    "qr_failed (\<sigma> n) \<longleftrightarrow> list_ex (\<lambda>r. r \<noteq> Applied) rs" using ended by (auto simp: queued_inv_def queued_done_def)
  with ended done_producer [OF inv ended] show ?thesis by blast
qed

text \<open>A finite run that ends, continued by its last state, is a fair execution.\<close>

lemma finished_run_fair:
  assumes "bench_queue c queue" and "queued_run events queue book s" and "queued_done events s"
  shows "\<exists>\<sigma>. execution events queue book \<sigma> \<and> fair events \<sigma> \<and> stores_visible \<sigma>"
proof -
  obtain n f where f: "f 0 = queued_start queue book" "f n = s" "\<And>i. i < n \<Longrightarrow> queued_step events (f i) (f (Suc i))"
    using assms(2) unfolding queued_run_def rtranclp_power relpowp_fun_conv by blast
  define \<sigma> where "\<sigma> i = f (min i n)" for i
  have late: "\<sigma> i = s" if "n \<le> i" for i using that f(2) by (simp add: \<sigma>_def min_absorb2)
  have "queued_step events (\<sigma> i) (\<sigma> (Suc i)) \<or> queued_done events (\<sigma> i) \<and> \<sigma> (Suc i) = \<sigma> i" for i
  proof (cases "i < n")
    case True
    then show ?thesis using f(3) [OF True] by (simp add: \<sigma>_def min_absorb1)
  qed (use late assms(3) in simp)
  then have "execution events queue book \<sigma>" using f(1) by (simp add: execution_def \<sigma>_def)
  moreover have "producer_done events s" by (rule done_producer [OF queued_run_inv [OF assms(1,2)] assms(3)])
  then have "fair events \<sigma>" using late assms(3) unfolding fair_def by (metis le_cases)
  moreover have "stores_visible \<sigma>"
    unfolding stores_visible_def using late by (metis le_SucI consumer_moves_def producer_moves_def)
  ultimately show ?thesis by blast
qed

theorem queued_replay_finishes_witness:
  "\<exists>\<sigma> n. execution queued_sample (spsc_start spsc_sample) new_book \<sigma> \<and> fair queued_sample \<sigma> \<and> stores_visible \<sigma>
     \<and> queued_done queued_sample (\<sigma> n)"
proof -
  note start = queued_run_inv [OF queued_sample_queue queued_run_start, of queued_sample new_book]
  from queued_finishes_from [OF start] obtain s where
    "queued_run queued_sample (spsc_start spsc_sample) new_book s" "queued_done queued_sample s" by (auto simp: queued_run_def)
  from finished_run_fair [OF queued_sample_queue this] obtain \<sigma> where
    "execution queued_sample (spsc_start spsc_sample) new_book \<sigma>" "fair queued_sample \<sigma>" "stores_visible \<sigma>" by blast
  with queued_replay_finishes [OF queued_sample_queue this] show ?thesis by blast
qed

end
