(* ===== verification/Benchmarks.thy ===== *)
theory Benchmarks
  imports Bench_Iterations Queued_Fairness
begin

text \<open>
  The benchmarks as a whole (\<^verbatim>\<open>bench/datagine_benchmarks.cpp\<close>): construction of the workload and the
  book, the loop \<^verbatim>\<open>for (auto _ : state)\<close>, and the counters set at the end. The benchmark library is not
  part of the repository; what it decides is an argument, the record \<open>bench_library\<close>: the argument
  \<^verbatim>\<open>state.range(0)\<close>, how often the loop over \<^verbatim>\<open>state\<close> runs its body unless it is left by \<^verbatim>\<open>break\<close>, and what
  \<^verbatim>\<open>state.iterations()\<close> returns after the loop. \<^verbatim>\<open>PauseTiming\<close> and \<^verbatim>\<open>ResumeTiming\<close> affect only the
  measured time; \<^verbatim>\<open>DoNotOptimize\<close> and \<^verbatim>\<open>ClobberMemory\<close> have no effect on the state.
\<close>

section \<open>Library and results\<close>

record bench_library =
  range0 :: i64
  runs :: nat
  iterations :: i64

record 'd bench_result =
  br_errors :: "string list"
  br_items :: "i64 option"
  br_counters :: "string \<rightharpoonup> 'd \<times> bool"

definition new_bench_result :: "string list \<Rightarrow> 'd bench_result" where
  "new_bench_result errs = \<lparr>br_errors = errs, br_items = None, br_counters = Map.empty\<rparr>"

definition kDefaultBatchSize :: i64 where
  "kDefaultBatchSize = 4096"

definition kLargeBatchSize :: i64 where
  "kLargeBatchSize = 16384"

text \<open>The arguments every benchmark is registered with.\<close>

definition registered_args :: "i64 list" where
  "registered_args = [kDefaultBatchSize, kLargeBatchSize]"

text \<open>A counter is a number and whether it is reported as a rate (\<^verbatim>\<open>kIsRate\<close>).\<close>

definition set_rate_counter :: "'d double_ops \<Rightarrow> 'd bench_result \<Rightarrow> string \<Rightarrow> i64 \<Rightarrow> 'd bench_result" where
  "set_rate_counter D result name item_count = result\<lparr>br_items := Some item_count,
     br_counters := (br_counters result)(name \<mapsto> (d_of_i64 D item_count, True))\<rparr>"

fun state_loop :: "nat \<Rightarrow> ('b \<Rightarrow> (bool \<times> string list \<times> 'b) option) \<Rightarrow> 'b \<Rightarrow> string list \<Rightarrow> (string list \<times> 'b) option" where
  "state_loop 0 body book errs = Some (errs, book)"
| "state_loop (Suc n) body book errs = do {
     (go, es, book') \<leftarrow> body book;
     if go then state_loop n body book' (errs @ es) else Some (errs @ es, book')
   }"

text \<open>An iteration that never leaves the loop over \<^verbatim>\<open>state\<close>.\<close>

definition goes_on :: "('b \<Rightarrow> (string list \<times> 'b) option) \<Rightarrow> 'b \<Rightarrow> (bool \<times> string list \<times> 'b) option" where
  "goes_on iteration book = map_option (Pair True) (iteration book)"

text \<open>The common shape: the loop over \<^verbatim>\<open>state\<close> from a constructed book, then
  \<^verbatim>\<open>set_rate_counter(state, name, state.iterations() * size)\<close>.\<close>

definition rated_benchmark ::
  "'d double_ops \<Rightarrow> bench_library \<Rightarrow> ('b \<Rightarrow> (bool \<times> string list \<times> 'b) option) \<Rightarrow> 'b \<Rightarrow> string \<Rightarrow> i64 \<Rightarrow> 'd bench_result option" where
  "rated_benchmark D lib body book name per_iteration = do {
     (errs, book') \<leftarrow> state_loop (runs lib) body book [];
     item_count \<leftarrow> i64_mul (iterations lib) per_iteration;
     Some (set_rate_counter D (new_bench_result errs) name item_count)
   }"

section \<open>The benchmarks\<close>

definition BM_BaselineAddOrderHotPath :: "'d double_ops \<Rightarrow> bench_library \<Rightarrow> 'd bench_result option" where
  "BM_BaselineAddOrderHotPath D lib =
     (let batch_size = range0 lib in
      rated_benchmark D lib (goes_on (baseline_add_iteration batch_size)) new_book ''orders/s'' batch_size)"

definition BM_BaselineCancelOrderHotPath :: "'d double_ops \<Rightarrow> bench_library \<Rightarrow> 'd bench_result option" where
  "BM_BaselineCancelOrderHotPath D lib =
     (let batch_size = range0 lib in
      rated_benchmark D lib (goes_on (baseline_cancel_iteration batch_size)) new_book ''orders/s'' batch_size)"

definition BM_BaselineMixedAddCancelExecuteStream :: "'d double_ops \<Rightarrow> bench_library \<Rightarrow> 'd bench_result option" where
  "BM_BaselineMixedAddCancelExecuteStream D lib = do {
     let cycles = range0 lib;
     events \<leftarrow> make_mixed_stream (unat cycles);
     rated_benchmark D lib (goes_on (baseline_mixed_iteration events)) new_book ''events/s'' (of_nat (length events))
   }"

definition BM_DirectReplayInMemory :: "'d double_ops \<Rightarrow> bench_library \<Rightarrow> 'd bench_result option" where
  "BM_DirectReplayInMemory D lib = do {
     let cycles = range0 lib;
     events \<leftarrow> make_mixed_stream (unat cycles);
     rated_benchmark D lib (goes_on (direct_replay_iteration events)) new_book ''events/s'' (of_nat (length events))
   }"

text \<open>The constructor of the pooled book throws for a capacity beyond the largest vector.\<close>

definition with_pooled_book ::
  "size_t \<Rightarrow> (PooledLimitOrderBook \<Rightarrow> 'r option) \<Rightarrow> (cpp_exception + 'r) option" where
  "with_pooled_book max_live_orders f =
     (case new_pooled_book max_live_orders of Inl e \<Rightarrow> Some (Inl e) | Inr book \<Rightarrow> map_option Inr (f book))"

definition BM_PooledAddOrderHotPath :: "'d double_ops \<Rightarrow> bench_library \<Rightarrow> (cpp_exception + 'd bench_result) option" where
  "BM_PooledAddOrderHotPath D lib =
     (let batch_size = range0 lib in
      with_pooled_book batch_size (\<lambda>book.
        rated_benchmark D lib (goes_on (pooled_add_iteration batch_size)) book ''orders/s'' batch_size))"

definition BM_PooledCancelOrderHotPath :: "'d double_ops \<Rightarrow> bench_library \<Rightarrow> (cpp_exception + 'd bench_result) option" where
  "BM_PooledCancelOrderHotPath D lib =
     (let batch_size = range0 lib in
      with_pooled_book batch_size (\<lambda>book.
        rated_benchmark D lib (goes_on (pooled_cancel_iteration batch_size)) book ''orders/s'' batch_size))"

definition BM_PooledMixedAddCancelExecuteStream ::
  "'d double_ops \<Rightarrow> bench_library \<Rightarrow> (cpp_exception + 'd bench_result) option" where
  "BM_PooledMixedAddCancelExecuteStream D lib = do {
     let cycles = range0 lib;
     events \<leftarrow> make_mixed_stream (unat cycles);
     with_pooled_book cycles (\<lambda>book.
       rated_benchmark D lib (goes_on (pooled_mixed_iteration events)) book ''events/s'' (of_nat (length events)))
   }"

text \<open>
  The fixture: \<open>tmp\<close> is \<^verbatim>\<open>std::filesystem::temp_directory_path()\<close> and \<open>save_file path text\<close> the effect of
  opening \<open>path\<close> for output, writing \<open>text\<close> and closing it, which may fail silently.
\<close>

definition path_append :: "string \<Rightarrow> string \<Rightarrow> string" where
  "path_append dir name = (if dir = [] \<or> last dir = CHR ''/'' then dir @ name else dir @ ''/'' @ name)"

definition write_csv_fixture ::
  "string \<Rightarrow> (string \<Rightarrow> string \<Rightarrow> file_system \<Rightarrow> file_system) \<Rightarrow> file_system \<Rightarrow> size_t \<Rightarrow> string \<times> file_system" where
  "write_csv_fixture tmp save_file fs rows =
     (let path = path_append tmp ''datagine_benchmark_fixture.csv'' in (path, save_file path (csv_fixture_text (unat rows)) fs))"

definition BM_BaselineCsvParseApply ::
  "'d double_ops \<Rightarrow> string \<Rightarrow> (string \<Rightarrow> string \<Rightarrow> file_system \<Rightarrow> file_system) \<Rightarrow> file_system \<Rightarrow> bench_library
     \<Rightarrow> 'd bench_result option" where
  "BM_BaselineCsvParseApply D tmp save_file fs lib =
     (let rows = range0 lib; (fixture_path, fs') = write_csv_fixture tmp save_file fs rows in
      rated_benchmark D lib (baseline_csv_iteration fs' fixture_path) new_book ''events/s'' rows)"

definition BM_PooledCsvParseApply ::
  "'d double_ops \<Rightarrow> string \<Rightarrow> (string \<Rightarrow> string \<Rightarrow> file_system \<Rightarrow> file_system) \<Rightarrow> file_system \<Rightarrow> bench_library
     \<Rightarrow> (cpp_exception + 'd bench_result) option" where
  "BM_PooledCsvParseApply D tmp save_file fs lib =
     (let rows = range0 lib; (fixture_path, fs') = write_csv_fixture tmp save_file fs rows in
      with_pooled_book rows (\<lambda>book.
        rated_benchmark D lib (pooled_csv_iteration fs' fixture_path) book ''events/s'' rows))"

definition BM_FeatureExtractionAnomalyScoring :: "'d double_ops \<Rightarrow> bench_library \<Rightarrow> 'd bench_result option" where
  "BM_FeatureExtractionAnomalyScoring D lib = do {
     let cycles = range0 lib;
     events \<leftarrow> make_feature_stream (unat cycles);
     rated_benchmark D lib
       (\<lambda>(book, monitor). map_option (\<lambda>(es, book', monitor', anomaly_count). (True, es, book', monitor'))
         (scoring_iteration D events book monitor))
       (new_book, new_monitor (default_anomaly_config D)) ''events/s'' (of_nat (length events))
   }"

section \<open>The threaded benchmark\<close>

text \<open>
  The locals that live across iterations: queue, book, \<^verbatim>\<open>total_events\<close> and \<^verbatim>\<open>total_wall_elapsed\<close>. The two
  threads of an iteration are a run of \<open>queued_step\<close> that ends; \<open>wall\<close> is the time in nanoseconds that the
  steady clock, which never goes back, shows for it.
\<close>

record threaded_state =
  th_queue :: spsc_system
  th_book :: LimitOrderBook
  th_total_events :: u64
  th_elapsed :: i64

definition threaded_after :: "MarketEvent list \<Rightarrow> queued_replay \<Rightarrow> i64 \<Rightarrow> threaded_state \<Rightarrow> threaded_state option" where
  "threaded_after events t wall st = do {
     elapsed \<leftarrow> i64_add (th_elapsed st) wall;
     Some \<lparr>th_queue = qr_queue t, th_book = qr_book t, th_total_events = th_total_events st + of_nat (length events),
       th_elapsed = elapsed\<rparr>
   }"

inductive threaded_loop :: "MarketEvent list \<Rightarrow> nat \<Rightarrow> threaded_state \<Rightarrow> string list \<Rightarrow> threaded_state \<Rightarrow> bool" for events where
  threaded_end: "threaded_loop events 0 st [] st"
| threaded_next: "queued_run events (th_queue st) (th_book st) t \<Longrightarrow> queued_done events t \<Longrightarrow>
    0 \<le> sint wall \<Longrightarrow> threaded_after events t wall st = Some st' \<Longrightarrow> \<not> qr_failed t \<Longrightarrow> threaded_loop events n st' errs st'' \<Longrightarrow>
    threaded_loop events (Suc n) st errs st''"
| threaded_failed: "queued_run events (th_queue st) (th_book st) t \<Longrightarrow> queued_done events t \<Longrightarrow>
    0 \<le> sint wall \<Longrightarrow> threaded_after events t wall st = Some st' \<Longrightarrow> qr_failed t \<Longrightarrow>
    threaded_loop events (Suc n) st [''SPSC replay event was rejected by the book''] st'"

definition wall_rate :: "'d double_ops \<Rightarrow> threaded_state \<Rightarrow> 'd" where
  "wall_rate D st =
     (let wall_seconds = d_div D (d_of_i64 D (th_elapsed st)) (d_1e9 D) in
      if d_less D (d_0 D) wall_seconds then d_div D (d_of_u64 D (th_total_events st)) wall_seconds else d_0 D)"

definition threaded_start :: "SpscRingBuffer \<Rightarrow> threaded_state" where
  "threaded_start q = \<lparr>th_queue = spsc_start q, th_book = new_book, th_total_events = 0, th_elapsed = 0\<rparr>"

text \<open>The results the benchmark can have, over all interleavings and clocks.\<close>

definition BM_SpscQueuedReplayInMemory ::
  "'d double_ops \<Rightarrow> bench_library \<Rightarrow> (cpp_exception + 'd bench_result) \<Rightarrow> bool" where
  "BM_SpscQueuedReplayInMemory D lib result \<longleftrightarrow>
     (\<exists>events. make_mixed_stream (unat (range0 lib)) = Some events \<and>
       (case new_spsc 1024 of
          Inl e \<Rightarrow> result = Inl e
        | Inr q \<Rightarrow> \<exists>errs st. threaded_loop events (runs lib) (threaded_start q) errs st
            \<and> result = Inr ((new_bench_result errs)\<lparr>br_counters := [''wall_events_per_second'' \<mapsto> (wall_rate D st, False)]\<rparr>)))"

section \<open>Loops without errors\<close>

lemma state_loop_clean:
  assumes "\<And>b. keeps b \<Longrightarrow> \<exists>b'. body b = Some (True, [], b') \<and> keeps b'" and "keeps b"
  shows "\<exists>b'. state_loop n body b errs = Some (errs, b') \<and> keeps b'"
  using assms(2)
proof (induction n arbitrary: b)
  case (Suc n)
  from assms(1) [OF Suc.prems] obtain b1 where "body b = Some (True, [], b1)" "keeps b1" by blast
  with Suc.IH [of b1] show ?case by simp
qed simp

lemma rated_benchmark_clean:
  assumes "\<And>b. keeps b \<Longrightarrow> \<exists>b'. body b = Some (True, [], b') \<and> keeps b'" and "keeps b"
    and "i64_mul (iterations lib) per_iteration = Some k"
  shows "rated_benchmark D lib body b name per_iteration = Some (set_rate_counter D (new_bench_result []) name k)"
proof -
  from state_loop_clean [where keeps = keeps and body = body, OF assms(1,2)] obtain b' where
    "state_loop (runs lib) body b [] = Some ([], b')" by blast
  with assms(3) show ?thesis by (simp add: rated_benchmark_def)
qed

lemma goes_on_clean: "\<exists>b'. it b = Some ([], b') \<and> P b' \<Longrightarrow> \<exists>b'. goes_on it b = Some (True, [], b') \<and> P b'"
  by (auto simp: goes_on_def)

lemma mixed_size: "(of_nat (length (mixed_stream (unat n))) :: i64) = 3 * n"
  by (simp add: length_mixed_stream)

lemma new_pooled_reachable:
  assumes "unat n \<le> node_max_size"
  obtains book where "new_pooled_book n = Inr book" and "pooled_reachable n book"
  using assms by (metis new_pooled_book_def not_le pooled_reach_new)

text \<open>The counters that a benchmark without an error sets.\<close>

lemma set_rate_counter_new:
  "set_rate_counter D (new_bench_result []) name k
     = \<lparr>br_errors = [], br_items = Some k, br_counters = [name \<mapsto> (d_of_i64 D k, True)]\<rparr>"
  by (simp add: set_rate_counter_def new_bench_result_def)

section \<open>Benchmarks without errors\<close>

text \<open>The benchmarks of the baseline book report no error, for any number of iterations and any batch size
  whose timestamps fit, and
  set their counter to the number of orders or events handled.\<close>

lemma baseline_benchmarks_clean:
  assumes "3 * unat (range0 lib) < 2 ^ 63"
    and "i64_mul (iterations lib) (range0 lib) = Some k" and "i64_mul (iterations lib) (3 * range0 lib) = Some k3"
  shows "BM_BaselineAddOrderHotPath D lib = Some (set_rate_counter D (new_bench_result []) ''orders/s'' k)
    \<and> BM_BaselineCancelOrderHotPath D lib = Some (set_rate_counter D (new_bench_result []) ''orders/s'' k)
    \<and> BM_BaselineMixedAddCancelExecuteStream D lib = Some (set_rate_counter D (new_bench_result []) ''events/s'' k3)
    \<and> BM_DirectReplayInMemory D lib = Some (set_rate_counter D (new_bench_result []) ''events/s'' k3)"
proof -
  note clean = rated_benchmark_clean [where keeps = "\<lambda>_. True", OF goes_on_clean TrueI]
  show ?thesis
    unfolding BM_BaselineAddOrderHotPath_def BM_BaselineCancelOrderHotPath_def BM_BaselineMixedAddCancelExecuteStream_def
      BM_DirectReplayInMemory_def Let_def make_mixed_stream_defined [OF assms(1)] Option.bind.simps mixed_size
    using baseline_iterations_clean [of "range0 lib"] by (intro conjI clean assms) blast+
qed

text \<open>The benchmarks of the pooled book never report an error: a pool of the batch size is large enough in
  every iteration, for any number of iterations, and the counter is the number of orders or
  events handled.\<close>

lemma pooled_benchmarks_clean:
  assumes "unat (range0 lib) \<le> node_max_size"
    and "i64_mul (iterations lib) (range0 lib) = Some k" and "i64_mul (iterations lib) (3 * range0 lib) = Some k3"
  shows "BM_PooledAddOrderHotPath D lib = Some (Inr \<lparr>br_errors = [], br_items = Some k,
        br_counters = [''orders/s'' \<mapsto> (d_of_i64 D k, True)]\<rparr>)
    \<and> BM_PooledCancelOrderHotPath D lib = Some (Inr \<lparr>br_errors = [], br_items = Some k,
        br_counters = [''orders/s'' \<mapsto> (d_of_i64 D k, True)]\<rparr>)
    \<and> BM_PooledMixedAddCancelExecuteStream D lib = Some (Inr \<lparr>br_errors = [], br_items = Some k3,
        br_counters = [''events/s'' \<mapsto> (d_of_i64 D k3, True)]\<rparr>)"
proof -
  obtain book where book: "new_pooled_book (range0 lib) = Inr book" "pooled_reachable (range0 lib) book"
    by (rule new_pooled_reachable [OF assms(1)])
  note clean = rated_benchmark_clean [where keeps = "pooled_reachable (range0 lib)", OF goes_on_clean book(2)]
  note its = pooled_iterations_clean [of "range0 lib"]
  have "rated_benchmark D lib (goes_on (pooled_add_iteration (range0 lib))) book ''orders/s'' (range0 lib)
      = Some (set_rate_counter D (new_bench_result []) ''orders/s'' k)" by (rule clean [OF _ assms(2)]) (use its(1) in blast)
  moreover have "rated_benchmark D lib (goes_on (pooled_cancel_iteration (range0 lib))) book ''orders/s'' (range0 lib)
      = Some (set_rate_counter D (new_bench_result []) ''orders/s'' k)" by (rule clean [OF _ assms(2)]) (use its(2) in blast)
  moreover have "rated_benchmark D lib (goes_on (pooled_mixed_iteration (mixed_stream (unat (range0 lib))))) book ''events/s'' (3 * range0 lib)
      = Some (set_rate_counter D (new_bench_result []) ''events/s'' k3)" by (rule clean [OF _ assms(3)]) (use its(3) in blast)
  moreover have "3 * unat (range0 lib) < 2 ^ 63" using assms(1) by (simp add: node_max_size_def)
  from make_mixed_stream_defined [OF this] have "make_mixed_stream (unat (range0 lib)) = Some (mixed_stream (unat (range0 lib)))" .
  ultimately show ?thesis
    by (simp add: BM_PooledAddOrderHotPath_def BM_PooledCancelOrderHotPath_def BM_PooledMixedAddCancelExecuteStream_def
        with_pooled_book_def book(1) mixed_size set_rate_counter_new Let_def)
qed

text \<open>If writing the fixture succeeds, both parse-and-apply benchmarks open it in every iteration, parse and
  apply every row, and report no error.\<close>

lemma csv_benchmarks_clean:
  assumes "\<And>path txt. save_file path txt fs path = Some txt" and "unat (range0 lib) \<le> node_max_size"
    and "i64_mul (iterations lib) (range0 lib) = Some k"
  shows "BM_BaselineCsvParseApply D tmp save_file fs lib = Some \<lparr>br_errors = [], br_items = Some k,
        br_counters = [''events/s'' \<mapsto> (d_of_i64 D k, True)]\<rparr>
    \<and> BM_PooledCsvParseApply D tmp save_file fs lib = Some (Inr \<lparr>br_errors = [], br_items = Some k,
        br_counters = [''events/s'' \<mapsto> (d_of_i64 D k, True)]\<rparr>)"
proof -
  obtain book where book: "new_pooled_book (range0 lib) = Inr book" "pooled_reachable (range0 lib) book"
    by (rule new_pooled_reachable [OF assms(2)])
  obtain path fs' where fixture: "write_csv_fixture tmp save_file fs (range0 lib) = (path, fs')"
    "fs' path = Some (csv_fixture_text (unat (range0 lib)))"
    by (simp add: write_csv_fixture_def Let_def assms(1))
  note its = csv_iterations_clean [where fs = fs' and path = path, OF fixture(2)]
  have "rated_benchmark D lib (baseline_csv_iteration fs' path) new_book ''events/s'' (range0 lib)
      = Some (set_rate_counter D (new_bench_result []) ''events/s'' k)"
    by (rule rated_benchmark_clean [where keeps = "\<lambda>_. True", OF _ TrueI assms(3)]) (use its(1) in blast)
  moreover have "rated_benchmark D lib (pooled_csv_iteration fs' path) book ''events/s'' (range0 lib)
      = Some (set_rate_counter D (new_bench_result []) ''events/s'' k)"
    by (rule rated_benchmark_clean [where keeps = "pooled_reachable (range0 lib)", OF _ book(2) assms(3)]) (use its(2) in blast)
  ultimately show ?thesis
    by (simp add: BM_BaselineCsvParseApply_def BM_PooledCsvParseApply_def with_pooled_book_def book(1) fixture(1)
        set_rate_counter_new Let_def)
qed

lemma feature_stream_length: "length (feature_stream n) = 4 * n + 2"
proof -
  have "length (feature_cycle_events n i t) = 4 * n" for n i t by (induction n arbitrary: i t) simp_all
  then show ?thesis by (simp add: feature_stream_def)
qed

text \<open>The scoring benchmark, with the default configuration and any arithmetic on doubles, applies every
  event and meets no signed overflow, for up to \<open>2 ^ 60\<close> cycles and any number of iterations.\<close>

lemma scoring_benchmark_clean:
  assumes "range0 lib \<le> 2 ^ 60" and "i64_mul (iterations lib) (4 * range0 lib + 2) = Some k"
  shows "BM_FeatureExtractionAnomalyScoring D lib = Some \<lparr>br_errors = [], br_items = Some k,
    br_counters = [''events/s'' \<mapsto> (d_of_i64 D k, True)]\<rparr>"
proof -
  let ?body = "\<lambda>(book, monitor). map_option (\<lambda>(es, book', monitor', anomaly_count). (True, es, book', monitor'))
    (scoring_iteration D (feature_stream (unat (range0 lib))) book monitor)"
  have n: "unat (range0 lib) \<le> 2 ^ 60" using assms(1) by (simp add: word_le_nat_alt)
  have len: "(of_nat (length (feature_stream (unat (range0 lib)))) :: i64) = 4 * range0 lib + 2"
    by (simp add: feature_stream_length)
  have "\<exists>s'. ?body s = Some (True, [], s')" for s
    using scoring_iteration_clean [OF assms(1), of D "fst s" "snd s"] by (cases s) auto
  then have "rated_benchmark D lib ?body (new_book, new_monitor (default_anomaly_config D)) ''events/s'' (4 * range0 lib + 2)
      = Some (set_rate_counter D (new_bench_result []) ''events/s'' k)"
    by (intro rated_benchmark_clean [where keeps = "\<lambda>_. True", OF _ TrueI assms(2)]) simp
  then show ?thesis
    by (simp add: BM_FeatureExtractionAnomalyScoring_def make_feature_stream_defined [OF n] len set_rate_counter_new Let_def)
qed

section \<open>Registered benchmarks\<close>

lemma i64_mul_small:
  assumes "0 \<le> sint a" and "sint a \<le> 2 ^ 40" and "0 \<le> sint b" and "sint b \<le> 2 ^ 20"
  shows "i64_mul a b = Some (a * b)"
proof -
  have "sint a * sint b \<le> 2 ^ 40 * 2 ^ 20" using assms by (intro mult_mono) auto
  moreover have "0 \<le> sint a * sint b" using assms by simp
  ultimately show ?thesis by (simp add: i64_mul_def in_i64_def)
qed

lemma registered_sizes:
  assumes "n \<in> set registered_args"
  shows "n \<le> 2 ^ 60" and "unat n \<le> node_max_size" and "3 * unat n < 2 ^ 63"
    and "sint n \<in> {0..2 ^ 20}" and "sint (3 * n) \<in> {0..2 ^ 20}" and "sint (4 * n + 2) \<in> {0..2 ^ 20}"
  using assms
  by (auto simp: registered_args_def kDefaultBatchSize_def kLargeBatchSize_def node_max_size_def word_le_nat_alt)

text \<open>C38: every sequential benchmark, with the arguments it is registered with and up to \<open>2 ^ 40\<close> iterations of
  the library, runs without undefined behaviour, without an exception of a constructor and
  without an error, provided the fixture can be written: every event of the workload is parsed and
  applied in every iteration, and a pool of the batch size is always large enough.\<close>

theorem registered_benchmarks_clean:
  assumes "range0 lib \<in> set registered_args" and "0 \<le> sint (iterations lib)" and "sint (iterations lib) \<le> 2 ^ 40"
    and "\<And>path txt. save_file path txt fs path = Some txt"
  shows "list_all (\<lambda>r. \<exists>x. r = Some x \<and> br_errors x = [])
      [BM_BaselineAddOrderHotPath D lib, BM_BaselineCancelOrderHotPath D lib, BM_BaselineMixedAddCancelExecuteStream D lib,
       BM_DirectReplayInMemory D lib, BM_BaselineCsvParseApply D tmp save_file fs lib, BM_FeatureExtractionAnomalyScoring D lib]
    \<and> list_all (\<lambda>r. \<exists>x. r = Some (Inr x) \<and> br_errors x = [])
      [BM_PooledAddOrderHotPath D lib, BM_PooledCancelOrderHotPath D lib, BM_PooledMixedAddCancelExecuteStream D lib,
       BM_PooledCsvParseApply D tmp save_file fs lib]"
proof -
  note n = registered_sizes [OF assms(1)]
  note mul = i64_mul_small [OF assms(2,3)]
  have k: "i64_mul (iterations lib) (range0 lib) = Some (iterations lib * range0 lib)" using n(4) by (intro mul) auto
  have k3: "i64_mul (iterations lib) (3 * range0 lib) = Some (iterations lib * (3 * range0 lib))"
    using n(5) by (intro mul) auto
  have k4: "i64_mul (iterations lib) (4 * range0 lib + 2) = Some (iterations lib * (4 * range0 lib + 2))"
    using n(6) by (intro mul) auto
  show ?thesis
    using baseline_benchmarks_clean [OF n(3) k k3, of D] pooled_benchmarks_clean [OF n(2) k k3, of D]
      csv_benchmarks_clean [where save_file = save_file and fs = fs, OF assms(4) n(2) k, of D tmp]
      scoring_benchmark_clean [OF n(1) k4, of D]
    by (simp add: set_rate_counter_new)
qed

definition sample_library :: bench_library where
  "sample_library = \<lparr>range0 = kDefaultBatchSize, runs = 1000, iterations = 1000\<rparr>"

theorem registered_benchmarks_clean_witness:
  "\<exists>x. BM_PooledCsvParseApply int_doubles ''/tmp'' (\<lambda>path txt fs. fs(path \<mapsto> txt)) Map.empty sample_library = Some (Inr x)
     \<and> br_errors x = []"
proof -
  have "range0 sample_library \<in> set registered_args" "0 \<le> sint (iterations sample_library)" "sint (iterations sample_library) \<le> 2 ^ 40"
    by (simp_all add: sample_library_def registered_args_def)
  from registered_benchmarks_clean [OF this, of "\<lambda>path txt fs. fs(path \<mapsto> txt)" Map.empty int_doubles "''/tmp''"]
  show ?thesis by simp
qed

section \<open>The threaded benchmark never fails\<close>

lemma sint_of_int_in_range: "- (2 ^ 63) \<le> x \<Longrightarrow> x < 2 ^ 63 \<Longrightarrow> sint (of_int x :: i64) = x"
  by (simp add: signed_of_int signed_take_bit_int_eq_self)

lemma sint_sum_in_range:
  assumes "- (2 ^ 63) \<le> sint a + sint b" and "sint a + sint b < 2 ^ 63"
  shows "sint (a + b :: i64) = sint a + sint b"
proof -
  have "a + b = of_int (sint a + sint b)" by simp
  then show ?thesis using sint_of_int_in_range [OF assms] by simp
qed

lemma mixed_run_clean:
  assumes "bench_queue c queue" and "queued_run (mixed_stream n) queue book s"
    and "queued_done (mixed_stream n) s"
  shows "\<not> qr_failed s"
proof -
  have inv: "queued_inv (mixed_stream n) (clear book) s" by (rule queued_run_inv [OF assms(1,2)])
  have run: "spec_run (spec_empty None) (mixed_stream n)
      = (replicate (3 * n) Applied, (spec_empty None)\<lparr>sb_applied := of_nat (3 * n)\<rparr>)" by (rule mixed_stream_run) simp
  from inv assms(3) obtain rs where
    "run_book apply_event (clear book) (mixed_stream n) = Some (rs, qr_book s)" "qr_failed s = list_ex (\<lambda>r. r \<noteq> Applied) rs"
    by (auto simp: queued_inv_def queued_done_def)
  with lob.run_sim [OF lob_rel_cleared [of book], of "mixed_stream n"] run show ?thesis by (auto simp: list_ex_iff)
qed

lemma threaded_after_step:
  assumes "threaded_after (mixed_stream n) t wall st = Some st'"
  shows "th_queue st' = qr_queue t" and "th_total_events st' = th_total_events st + 3 * of_nat n"
    and "sint (th_elapsed st') = sint (th_elapsed st) + sint wall"
proof -
  from assms obtain elapsed where e: "i64_add (th_elapsed st) wall = Some elapsed" "th_elapsed st' = elapsed"
    and "th_queue st' = qr_queue t" "th_total_events st' = th_total_events st + 3 * of_nat n"
    by (auto simp: threaded_after_def bind_eq_Some_conv length_mixed_stream)
  then show "th_queue st' = qr_queue t" "th_total_events st' = th_total_events st + 3 * of_nat n" by simp_all
  show "sint (th_elapsed st') = sint (th_elapsed st) + sint wall"
    using e sint_sum_in_range [of "th_elapsed st" wall] by (auto simp: i64_add_def in_i64_def split: if_splits)
qed

text \<open>Every run of the loop is without an error, counts the events of all iterations and adds up the times of the
  iterations; and every sequence of times that adds up to a representable number is possible.\<close>

lemma threaded_loop_clean:
  assumes "threaded_loop (mixed_stream n) m st errs st'" and "bench_queue c (th_queue st)"
  shows "errs = [] \<and> th_total_events st' = th_total_events st + of_nat m * (3 * of_nat n)
    \<and> (\<exists>walls. length walls = m \<and> (\<forall>w \<in> set walls. 0 \<le> w) \<and> sint (th_elapsed st') = sint (th_elapsed st) + sum_list walls)"
  using assms
proof (induction rule: threaded_loop.induct)
  case (threaded_end st)
  then show ?case by simp
next
  case (threaded_next st t wall st' m errs st'')
  note st' = threaded_after_step [OF threaded_next.hyps(4)]
  have "bench_queue c (th_queue st')"
    unfolding st'(1) by (rule next_iteration [OF threaded_next.prems threaded_next.hyps(1,2)])
  with threaded_next.IH obtain walls where
    IH: "errs = []" "th_total_events st'' = th_total_events st' + of_nat m * (3 * of_nat n)"
    "length walls = m" "\<forall>w \<in> set walls. 0 \<le> w" "sint (th_elapsed st'') = sint (th_elapsed st') + sum_list walls" by blast
  have "length (sint wall # walls) = Suc m" "\<forall>w \<in> set (sint wall # walls). 0 \<le> w"
    "sint (th_elapsed st'') = sint (th_elapsed st) + sum_list (sint wall # walls)"
    using IH threaded_next.hyps(3) st'(3) by simp_all
  moreover have "th_total_events st'' = th_total_events st + of_nat (Suc m) * (3 * of_nat n)"
    by (simp add: IH(2) st'(2) algebra_simps)
  ultimately show ?case using IH(1) by blast
next
  case (threaded_failed st t wall st' m)
  then show ?case using mixed_run_clean by blast
qed

lemma threaded_loop_exists:
  assumes "bench_queue c (th_queue st)" and "\<forall>w \<in> set walls. 0 \<le> w" and "0 \<le> sint (th_elapsed st)"
    and "sint (th_elapsed st) + sum_list walls < 2 ^ 63"
  shows "\<exists>st'. threaded_loop (mixed_stream n) (length walls) st [] st'
    \<and> sint (th_elapsed st') = sint (th_elapsed st) + sum_list walls"
  using assms
proof (induction walls arbitrary: st)
  case Nil
  then show ?case using threaded_end by fastforce
next
  case (Cons w walls)
  let ?events = "mixed_stream n" and ?wall = "of_int w :: i64"
  from queued_finishes_from [OF queued_run_inv [OF Cons.prems(1) queued_run_start]] obtain t where
    t: "queued_run ?events (th_queue st) (th_book st) t" "queued_done ?events t" by (auto simp: queued_run_def)
  have rest: "0 \<le> sum_list walls" using Cons.prems(2) by (intro sum_list_nonneg) simp
  then have w: "0 \<le> w" "w < 2 ^ 63" "sint (th_elapsed st) + w < 2 ^ 63" using Cons.prems(2,3,4) by simp_all
  have wall: "sint ?wall = w" using w by (intro sint_of_int_in_range) simp_all
  obtain st' where st': "threaded_after ?events t ?wall st = Some st'"
    using w Cons.prems(3) by (simp add: threaded_after_def i64_add_def in_i64_def wall)
  note after = threaded_after_step [OF st']
  have "bench_queue c (th_queue st')" unfolding after(1) by (rule next_iteration [OF Cons.prems(1) t])
  then obtain st'' where st'': "threaded_loop ?events (length walls) st' [] st''"
    "sint (th_elapsed st'') = sint (th_elapsed st') + sum_list walls"
    using Cons.IH [of st'] Cons.prems(2,3,4) after(3) w(1) by (auto simp: wall)
  have "threaded_loop ?events (Suc (length walls)) st [] st''"
    using threaded_next [OF t _ st' mixed_run_clean [OF Cons.prems(1) t] st''(1)] w(1) by (simp add: wall)
  with st''(2) after(3) show ?case by (auto simp: wall)
qed

lemma spsc_1024: "\<exists>q. new_spsc 1024 = Inr q"
proof -
  have "is_power_of_two 1024" by code_simp
  then show ?thesis by (simp add: new_spsc_def event_max_size_def)
qed

text \<open>C39: the threaded benchmark, for a workload whose timestamps fit in 64 bits. Whatever the interleavings, its
  results are exactly these: for every sequence of times that the steady clock can show for the
  iterations, with a representable sum, a result without an error whose one counter is the number of
  events of all iterations (modulo \<open>2 ^ 64\<close>, as converted to a double) divided by the total time in
  seconds, or zero when that time is not positive. In particular it can end, and never reports an error.\<close>

theorem threaded_benchmark_clean:
  assumes "3 * unat (range0 lib) < 2 ^ 63"
  shows "BM_SpscQueuedReplayInMemory D lib result \<longleftrightarrow>
    (\<exists>walls :: int list. length walls = runs lib \<and> (\<forall>w \<in> set walls. 0 \<le> w) \<and> sum_list walls < 2 ^ 63
      \<and> result = Inr \<lparr>br_errors = [], br_items = None, br_counters = [''wall_events_per_second'' \<mapsto>
          (let seconds = d_div D (d_of_i64 D (of_int (sum_list walls))) (d_1e9 D) in
             if d_less D (d_0 D) seconds then d_div D (d_of_u64 D (of_nat (runs lib) * (3 * range0 lib))) seconds else d_0 D,
           False)]\<rparr>)"
proof -
  let ?ok = "\<lambda>walls :: int list. length walls = runs lib \<and> (\<forall>w \<in> set walls. 0 \<le> w) \<and> sum_list walls < 2 ^ 63"
  let ?result = "\<lambda>walls :: int list. Inr \<lparr>br_errors = [], br_items = None, br_counters = [''wall_events_per_second'' \<mapsto>
      (let seconds = d_div D (d_of_i64 D (of_int (sum_list walls))) (d_1e9 D) in
         if d_less D (d_0 D) seconds then d_div D (d_of_u64 D (of_nat (runs lib) * (3 * range0 lib))) seconds else d_0 D,
       False)]\<rparr>"
  obtain q where q: "new_spsc 1024 = Inr q" using spsc_1024 by blast
  let ?loop = "threaded_loop (mixed_stream (unat (range0 lib))) (runs lib) (threaded_start q)"
  have queue: "bench_queue 1024 (th_queue (threaded_start q))"
    using first_iteration [OF q] by (simp add: threaded_start_def)
  have bm: "BM_SpscQueuedReplayInMemory D lib result \<longleftrightarrow> (\<exists>errs st. ?loop errs st \<and> result
      = Inr ((new_bench_result errs)\<lparr>br_counters := [''wall_events_per_second'' \<mapsto> (wall_rate D st, False)]\<rparr>))"
    by (simp add: BM_SpscQueuedReplayInMemory_def make_mixed_stream_defined [OF assms] q)
  have value_of: "Inr ((new_bench_result [])\<lparr>br_counters := [''wall_events_per_second'' \<mapsto> (wall_rate D st, False)]\<rparr>) = ?result walls"
    if "th_total_events st = of_nat (runs lib) * (3 * range0 lib)" "sint (th_elapsed st) = sum_list walls" for st walls
  proof -
    have "th_elapsed st = of_int (sum_list walls)" by (simp flip: that(2))
    then show ?thesis by (simp add: wall_rate_def new_bench_result_def that(1) Let_def)
  qed
  have start: "th_total_events (threaded_start q) = 0" "sint (th_elapsed (threaded_start q)) = 0"
    by (simp_all add: threaded_start_def)
  have "BM_SpscQueuedReplayInMemory D lib result \<longleftrightarrow> (\<exists>walls. ?ok walls \<and> result = ?result walls)"
  proof
    assume "BM_SpscQueuedReplayInMemory D lib result"
    then obtain errs st where st: "?loop errs st"
      "result = Inr ((new_bench_result errs)\<lparr>br_counters := [''wall_events_per_second'' \<mapsto> (wall_rate D st, False)]\<rparr>)"
      unfolding bm by blast
    from threaded_loop_clean [OF st(1) queue] start obtain walls where
      w: "errs = []" "th_total_events st = of_nat (runs lib) * (3 * range0 lib)"
      "length walls = runs lib" "\<forall>w \<in> set walls. 0 \<le> w" "sint (th_elapsed st) = sum_list walls" by auto
    have "sum_list walls < 2 ^ 63" using sint_less [of "th_elapsed st"] by (simp add: w(5))
    moreover have "result = ?result walls" by (rule trans [OF st(2) [unfolded w(1)] value_of [OF w(2,5)]])
    ultimately show "\<exists>walls. ?ok walls \<and> result = ?result walls" using w(3,4) by (intro exI [of _ walls] conjI)
  next
    assume "\<exists>walls. ?ok walls \<and> result = ?result walls"
    then obtain walls where w: "?ok walls" "result = ?result walls" by blast
    with threaded_loop_exists [OF queue, of walls "unat (range0 lib)"] start obtain st where
      st: "?loop [] st" "sint (th_elapsed st) = sum_list walls" by auto
    from threaded_loop_clean [OF st(1) queue] start have "th_total_events st = of_nat (runs lib) * (3 * range0 lib)" by simp
    from trans [OF w(2) value_of [OF this st(2), symmetric]] st(1) show "BM_SpscQueuedReplayInMemory D lib result"
      unfolding bm by (intro exI conjI)
  qed
  then show ?thesis by (simp only: conj_assoc)
qed

theorem threaded_benchmark_clean_witness:
  "BM_SpscQueuedReplayInMemory int_doubles sample_library
     (Inr \<lparr>br_errors = [], br_items = None, br_counters = [''wall_events_per_second'' \<mapsto> (6144, False)]\<rparr>)"
proof -
  let ?walls = "replicate 1000 (2 :: int)"
  have "sum_list ?walls = 2000" by (simp add: sum_list_replicate)
  moreover have "3 * unat (range0 sample_library) < 2 ^ 63" by (simp add: sample_library_def kDefaultBatchSize_def)
  moreover have "(let seconds = d_div int_doubles (d_of_i64 int_doubles (of_int 2000)) (d_1e9 int_doubles) in
      if d_less int_doubles (d_0 int_doubles) seconds
      then d_div int_doubles (d_of_u64 int_doubles (of_nat (runs sample_library) * (3 * range0 sample_library))) seconds
      else d_0 int_doubles) = 6144"
    by (simp add: int_doubles_def sample_library_def kDefaultBatchSize_def Let_def)
  moreover have "length ?walls = runs sample_library" by (simp add: sample_library_def)
  ultimately show ?thesis
    by (subst threaded_benchmark_clean) (auto intro!: exI [of _ ?walls])
qed

end
