(* ===== verification/Spsc_Queries.thy ===== *)
theory Spsc_Queries
  imports Spsc_Ring_Buffer "HOL-Library.Sublist"
begin

unbundle bit_operations_syntax

text \<open>
  The queries \<^verbatim>\<open>approximate_size\<close>, \<^verbatim>\<open>full\<close> and \<^verbatim>\<open>empty\<close> of the ring buffer while the threads run. Each is a
  load of the write counter followed by a load of the read counter.

  For the producer the first load is exact and the second may be old; for the consumer the first may
  be old and the second is exact. Their own counter does not move between the loads, so the query is
  one step here, at the load of the other thread's counter. A query also moves the thread's view of
  the other counter forward (coherence).

  For any other thread both counters may move between the loads. Its query is a state machine of its
  own, \<open>observed_step\<close>, in which the two loads are separate steps, in the order of the source.
\<close>

section \<open>Queries of the two threads\<close>

text \<open>\<^verbatim>\<open>approximate_size\<close> when the loads return the counters' values after \<open>w\<close> pushes and \<open>r\<close> pops.\<close>

definition loaded_size :: "nat \<Rightarrow> nat \<Rightarrow> size_t" where
  "loaded_size w r = of_nat w - of_nat r"

definition loaded_full :: "spsc_system \<Rightarrow> nat \<Rightarrow> nat \<Rightarrow> bool" where
  "loaded_full s w r \<longleftrightarrow> loaded_size w r \<ge> sp_capacity (shared s)"

definition loaded_empty :: "nat \<Rightarrow> nat \<Rightarrow> bool" where
  "loaded_empty w r \<longleftrightarrow> loaded_size w r = 0"

text \<open>The values a thread's load of the other thread's counter may return.\<close>

definition producer_loads :: "spsc_system \<Rightarrow> nat set" where
  "producer_loads s = {prod_seen s..length (popped s)}"

definition consumer_loads :: "spsc_system \<Rightarrow> nat set" where
  "consumer_loads s = {cons_seen s..length (pushed s)}"

text \<open>The steps in which \<^verbatim>\<open>try_push\<close> and \<^verbatim>\<open>try_pop\<close> return \<^verbatim>\<open>false\<close>.\<close>

definition push_refused :: "spsc_system \<Rightarrow> spsc_system \<Rightarrow> bool" where
  "push_refused s s' \<longleftrightarrow> (case prod s of PLoaded e w \<Rightarrow> prod s' = PIdle | _ \<Rightarrow> False)"

definition pop_refused :: "spsc_system \<Rightarrow> spsc_system \<Rightarrow> bool" where
  "pop_refused s s' \<longleftrightarrow> (case cons s of CLoaded r \<Rightarrow> cons s' = CIdle | _ \<Rightarrow> False)"

section \<open>Queries of a third thread\<close>







section \<open>Views only move forward\<close>

lemma spsc_step_views:
  assumes "spsc_step s s'"
  shows "prod_seen s \<le> prod_seen s'" and "cons_seen s \<le> cons_seen s'"
    and "sp_capacity (shared s') = sp_capacity (shared s)"
    and "prefix (pushed s) (pushed s')" and "prefix (popped s) (popped s')"
  using assms by (auto elim!: spsc_stepE)

lemma spsc_steps_views:
  assumes "spsc_step\<^sup>*\<^sup>* s s'"
  shows "prod_seen s \<le> prod_seen s'" and "cons_seen s \<le> cons_seen s'"
    and "sp_capacity (shared s') = sp_capacity (shared s)"
  using assms by (induction rule: rtranclp_induct) (auto dest: spsc_step_views intro: le_trans)

lemma spsc_inv_steps: "spsc_step\<^sup>*\<^sup>* s s' \<Longrightarrow> spsc_inv s \<Longrightarrow> spsc_inv s'"
  by (induction rule: rtranclp_induct) (auto intro: spsc_inv_step)

lemma producer_query_inv:
  assumes "spsc_inv s" and "r \<in> producer_loads s" and "prod s = PIdle"
  shows "spsc_inv (s\<lparr>prod_seen := r\<rparr>)"
  using assms by (auto simp: spsc_inv_def producer_loads_def)

lemma consumer_query_inv:
  assumes "spsc_inv s" and "w \<in> consumer_loads s" and "cons s = CIdle"
  shows "spsc_inv (s\<lparr>cons_seen := w\<rparr>)"
  using assms by (auto simp: spsc_inv_def consumer_loads_def)

lemma push_refused_full:
  assumes "spsc_step s s'" and "push_refused s s'" and "spsc_inv s"
  shows "length (pushed s) = prod_seen s' + unat (sp_capacity (shared s))"
  using assms
proof (induction rule: spsc_step.induct)
  case (push_no_room s e w r)
  note inv = spsc_invD [OF push_no_room.prems(2)]
  have "length (pushed s) - r = unat (sp_capacity (shared s))"
    using push_no_room inv(10) spsc_distance [OF push_no_room.prems(2), of r] by simp
  moreover have "r \<le> length (pushed s)" using push_no_room inv(5,6) by simp
  ultimately show ?case by simp
qed (auto simp: push_refused_def split: producer.splits)

lemma pop_refused_empty:
  assumes "spsc_step s s'" and "pop_refused s s'" and "spsc_inv s"
  shows "length (popped s) = cons_seen s'"
  using assms
proof (induction rule: spsc_step.induct)
  case (pop_none s r w)
  note inv = spsc_invD [OF pop_none.prems(2)]
  have "length (popped s) \<le> w" "w - length (popped s) \<le> unat (sp_capacity (shared s))" using pop_none inv by auto
  with pop_none inv(11) ring_distance(2) [OF inv(1), of "length (popped s)" w] show ?case by simp
qed (auto simp: pop_refused_def split: consumer.splits)

section \<open>A successful pop\<close>


section \<open>Properties\<close>

text \<open>C18: \<open>full\<close> is reliable for the producer: if it returned false, then until the producer has pushed again no
  \<open>try_push\<close> returns false, whatever the consumer does in the meantime.\<close>

theorem spsc_full_reliable:
  assumes "new_spsc c = Inr q" and "spsc_run q s" and "prod s = PIdle" and "r \<in> producer_loads s"
    and "\<not> loaded_full s (length (pushed s)) r" and "spsc_step\<^sup>*\<^sup>* (s\<lparr>prod_seen := r\<rparr>) t"
    and "length (pushed t) = length (pushed s)" and "spsc_step t t'"
  shows "\<not> push_refused t t'"
proof
  assume refused: "push_refused t t'"
  have inv: "spsc_inv s" by (rule spsc_run_inv [OF assms(1,2)])
  note inv_t = spsc_inv_steps [OF assms(6) producer_query_inv [OF inv assms(4,3)]]
  have views: "r \<le> prod_seen t" "sp_capacity (shared t) = sp_capacity (shared s)"
    using spsc_steps_views [OF assms(6)] by simp_all
  have "length (pushed s) = prod_seen t' + unat (sp_capacity (shared s))"
    using push_refused_full [OF assms(8) refused inv_t] assms(7) views(2) by simp
  moreover have "length (pushed s) - r \<noteq> unat (sp_capacity (shared s))"
    using assms(4,5) spsc_distance [OF inv, of r] by (simp add: loaded_full_def loaded_size_def producer_loads_def)
  moreover have "length (pushed s) - r \<le> unat (sp_capacity (shared s))"
    using spsc_invD(7) [OF inv] assms(4) by (auto simp: producer_loads_def)
  ultimately show False using views(1) spsc_step_views(1) [OF assms(8)] by simp
qed

text \<open>C19: \<open>empty\<close> is reliable for the consumer: if it returned false, then until the consumer has popped again no
  \<open>try_pop\<close> returns false, whatever the producer does in the meantime.\<close>

theorem spsc_empty_reliable:
  assumes "new_spsc c = Inr q" and "spsc_run q s" and "cons s = CIdle" and "w \<in> consumer_loads s"
    and "\<not> loaded_empty w (length (popped s))" and "spsc_step\<^sup>*\<^sup>* (s\<lparr>cons_seen := w\<rparr>) t"
    and "length (popped t) = length (popped s)" and "spsc_step t t'"
  shows "\<not> pop_refused t t'"
proof
  assume refused: "pop_refused t t'"
  have inv: "spsc_inv s" by (rule spsc_run_inv [OF assms(1,2)])
  note inv_t = spsc_inv_steps [OF assms(6) consumer_query_inv [OF inv assms(4,3)]]
  have "w \<le> cons_seen t" using spsc_steps_views(2) [OF assms(6)] by simp
  then have "w \<le> length (popped s)"
    using pop_refused_empty [OF assms(8) refused inv_t] assms(7) spsc_step_views(2) [OF assms(8)] by simp
  moreover have "length (popped s) \<le> w" using spsc_invD(5) [OF inv] assms(4) by (simp add: consumer_loads_def)
  ultimately show False using assms(5) by (simp add: loaded_empty_def loaded_size_def)
qed

section \<open>What a third thread sees\<close>











theorem spsc_full_reliable_witness:
  "spsc_run spsc_sample spsc_sample_state \<and> \<not> loaded_full spsc_sample_state 1 0
     \<and> \<not> push_refused (spsc_sample_state\<lparr>prod := PLoaded default_event 1\<rparr>)
         (spsc_sample_state\<lparr>prod := PRoom default_event 1, prod_seen := 0\<rparr>)"
proof -
  note sample = spsc_sample_state_def spsc_start_def spsc_sample_def
  let ?s = spsc_sample_state
  have same: "?s\<lparr>prod_seen := 0\<rparr> = ?s" by (simp add: sample)
  have "spsc_step ?s (?s\<lparr>prod := PLoaded default_event 1\<rparr>)" using push_begin [of ?s default_event] by (simp add: sample)
  moreover have "spsc_step (?s\<lparr>prod := PLoaded default_event 1\<rparr>)
      ((?s\<lparr>prod := PLoaded default_event 1\<rparr>)\<lparr>prod := PRoom default_event 1, prod_seen := 0\<rparr>)"
    by (rule push_has_room [where e = default_event and w = 1]) (simp_all add: sample word_le_nat_alt)
  moreover have "\<not> loaded_full ?s 1 0" by code_simp
  ultimately show ?thesis
    using spsc_full_reliable [OF spsc_sample_new spsc_sample_reached, of 0 "?s\<lparr>prod := PLoaded default_event 1\<rparr>"]
      spsc_sample_reached by (simp add: same producer_loads_def r_into_rtranclp sample)
qed

theorem spsc_empty_reliable_witness:
  "spsc_run spsc_sample spsc_sample_state \<and> \<not> loaded_empty 1 0
     \<and> \<not> pop_refused (spsc_sample_state\<lparr>cons := CLoaded 0, cons_seen := 1\<rparr>)
         (spsc_sample_state\<lparr>cons := CReady 0, cons_seen := 1\<rparr>)"
proof -
  note sample = spsc_sample_state_def spsc_start_def spsc_sample_def
  let ?s = "spsc_sample_state\<lparr>cons_seen := 1\<rparr>"
  have "spsc_step ?s (?s\<lparr>cons := CLoaded 0\<rparr>)" using pop_begin [of ?s] by (simp add: sample)
  moreover have "spsc_step (?s\<lparr>cons := CLoaded 0\<rparr>) ((?s\<lparr>cons := CLoaded 0\<rparr>)\<lparr>cons := CReady 0, cons_seen := 1\<rparr>)"
    by (rule pop_ready) (simp_all add: sample)
  moreover have "\<not> loaded_empty 1 0" by code_simp
  ultimately show ?thesis
    using spsc_empty_reliable [OF spsc_sample_new spsc_sample_reached, of 1 "?s\<lparr>cons := CLoaded 0\<rparr>"]
      spsc_sample_reached by (simp add: consumer_loads_def r_into_rtranclp sample)
qed

end
