(* ===== verification/Test_Scenarios.thy ===== *)
theory Test_Scenarios
  imports Spsc_Ring_Buffer Csv_Parser Limit_Order_Book Pooled_Limit_Order_Book
begin

text \<open>
  Scenarios of the repository's unit tests (\<^verbatim>\<open>tests\<close>), evaluated on the model: apart from the two lemmas
  \<open>fresh_pool_new\<close> and \<open>fresh_ring_new\<close> on constructors, each lemma has the name of a test function and
  states that assertions of it hold of the definitions. Assertions on the linked traversals of the
  pooled book, on whole replays and on threads are instances of the theorems about them; the anomaly
  tests assert thresholds of IEEE arithmetic, which is a parameter here.
\<close>

text \<open>\<^verbatim>\<open>assert(call == result)\<close> followed by the rest of the test.\<close>

definition expect :: "'r \<Rightarrow> ('r \<times> 'b) option \<Rightarrow> 'b option" where
  "expect r call = (case call of Some (r', b) \<Rightarrow> if r' = r then Some b else None | None \<Rightarrow> None)"

definition assert_level :: "PriceLevelView option \<Rightarrow> i64 \<Rightarrow> u64 \<Rightarrow> size_t \<Rightarrow> bool" where
  "assert_level level price quantity order_count \<longleftrightarrow>
     level = Some \<lparr>pv_price = Price price, pv_quantity = Quantity quantity, pv_order_count = order_count\<rparr>"

abbreviation no_crossing :: InvariantOptions where
  "no_crossing \<equiv> \<lparr>allow_crossed_book = False\<rparr>"

abbreviation crossing_allowed :: InvariantOptions where
  "crossing_allowed \<equiv> \<lparr>allow_crossed_book = True\<rparr>"

definition test_event :: "EventType \<Rightarrow> u64 \<Rightarrow> Side \<Rightarrow> i64 \<Rightarrow> u64 \<Rightarrow> i64 \<Rightarrow> MarketEvent" where
  "test_event ty i side price quantity timestamp = \<lparr>ev_type = ty, ev_timestamp = Timestamp timestamp, ev_order_id = OrderId i,
     ev_side = side, ev_price = Price price, ev_quantity = Quantity quantity\<rparr>"

section \<open>Baseline book\<close>

lemma add_bid_add_ask_updates_top_and_depth:
  "do {
     b1 \<leftarrow> expect Applied (add_order new_book (OrderId 1) Buy (Price 100) (Quantity 10) (Timestamp 1));
     b2 \<leftarrow> expect Applied (add_order b1 (OrderId 2) Sell (Price 101) (Quantity 7) (Timestamp 2));
     Some (assert_level (top_bid (top_of_book b2)) 100 10 1 \<and> assert_level (top_ask (top_of_book b2)) 101 7 1
       \<and> map (\<lambda>l. assert_level (Some l) 100 10 1) (depth_bids (depth b2 4)) = [True]
       \<and> map (\<lambda>l. assert_level (Some l) 101 7 1) (depth_asks (depth b2 4)) = [True]
       \<and> live_order_count b2 = 2 \<and> validate_invariants b2 no_crossing)
   } = Some True"
  by code_simp

lemma cancel_existing_order_removes_depth:
  "do {
     b1 \<leftarrow> expect Applied (add_order new_book (OrderId 1) Buy (Price 100) (Quantity 10) (Timestamp 1));
     b2 \<leftarrow> expect Applied (add_order b1 (OrderId 2) Buy (Price 100) (Quantity 5) (Timestamp 2));
     b3 \<leftarrow> expect Applied (cancel_order b2 (OrderId 1));
     Some (map (\<lambda>l. assert_level (Some l) 100 5 1) (depth_bids (depth b3 1)) = [True]
       \<and> order_ids_at_price b3 Buy (Price 100) = [OrderId 2] \<and> live_order_count b3 = 1 \<and> validate_invariants b3 no_crossing)
   } = Some True"
  by code_simp

lemma cancel_missing_order_preserves_state:
  "do {
     b1 \<leftarrow> expect Applied (add_order new_book (OrderId 1) Sell (Price 101) (Quantity 10) (Timestamp 1));
     b2 \<leftarrow> expect MissingOrderId (cancel_order b1 (OrderId 999));
     Some (top_of_book b2 = top_of_book b1 \<and> depth b2 4 = depth b1 4 \<and> events_applied b2 = events_applied b1
       \<and> live_order_count b2 = 1 \<and> validate_invariants b2 no_crossing)
   } = Some True"
  by code_simp

lemma partial_execute_reduces_quantity:
  "do {
     b1 \<leftarrow> expect Applied (add_order new_book (OrderId 1) Sell (Price 101) (Quantity 10) (Timestamp 1));
     b2 \<leftarrow> expect Applied (execute_order b1 (OrderId 1) (Quantity 4));
     Some (assert_level (top_ask (top_of_book b2)) 101 6 1 \<and> live_order_count b2 = 1 \<and> validate_invariants b2 no_crossing)
   } = Some True"
  by code_simp

lemma full_execute_removes_order_and_empty_level:
  "do {
     b1 \<leftarrow> expect Applied (add_order new_book (OrderId 1) Sell (Price 101) (Quantity 10) (Timestamp 1));
     b2 \<leftarrow> expect Applied (execute_order b1 (OrderId 1) (Quantity 10));
     Some (top_of_book b2 = \<lparr>top_bid = None, top_ask = None\<rparr> \<and> depth_asks (depth b2 1) = []
       \<and> live_order_count b2 = 0 \<and> validate_invariants b2 no_crossing)
   } = Some True"
  by code_simp

lemma modify_quantity_reduction_preserves_priority:
  "do {
     b1 \<leftarrow> expect Applied (add_order new_book (OrderId 1) Buy (Price 100) (Quantity 10) (Timestamp 1));
     b2 \<leftarrow> expect Applied (add_order b1 (OrderId 2) Buy (Price 100) (Quantity 8) (Timestamp 2));
     b3 \<leftarrow> expect Applied (modify_order b2 (OrderId 1) (Quantity 6));
     b4 \<leftarrow> expect UnsupportedModify (modify_order b3 (OrderId 1) (Quantity 7));
     Some (map (\<lambda>l. assert_level (Some l) 100 14 2) (depth_bids (depth b3 1)) = [True]
       \<and> order_ids_at_price b3 Buy (Price 100) = [OrderId 1, OrderId 2] \<and> validate_invariants b4 no_crossing)
   } = Some True"
  by code_simp

lemma price_time_priority_preserves_fifo_order:
  "do {
     b1 \<leftarrow> expect Applied (add_order new_book (OrderId 1) Buy (Price 100) (Quantity 10) (Timestamp 30));
     b2 \<leftarrow> expect Applied (add_order b1 (OrderId 2) Buy (Price 100) (Quantity 10) (Timestamp 10));
     b3 \<leftarrow> expect Applied (add_order b2 (OrderId 3) Buy (Price 100) (Quantity 10) (Timestamp 20));
     Some (order_ids_at_price b3 Buy (Price 100) = [OrderId 1, OrderId 2, OrderId 3] \<and> validate_invariants b3 no_crossing)
   } = Some True"
  by code_simp

lemma crossed_book_invariant_is_configurable:
  "do {
     b1 \<leftarrow> expect Applied (add_order new_book (OrderId 1) Sell (Price 100) (Quantity 10) (Timestamp 1));
     b2 \<leftarrow> expect Applied (add_order b1 (OrderId 2) Buy (Price 101) (Quantity 10) (Timestamp 2));
     Some (\<not> validate_invariants b2 no_crossing \<and> validate_invariants b2 crossing_allowed)
   } = Some True"
  by code_simp

section \<open>Pooled book\<close>

definition fresh_pool :: "size_t \<Rightarrow> PooledLimitOrderBook" where
  "fresh_pool n = reset_free_list \<lparr>nodes = replicate (unat n) default_node, free_indices = [],
     pooled_bid_levels = [], pooled_ask_levels = [], pooled_order_lookup = [], pooled_stats = \<lparr>st_events_applied = 0\<rparr>\<rparr>"

lemma fresh_pool_new: "n \<le> 1024 \<Longrightarrow> new_pooled_book n = Inr (fresh_pool n)"
  by (simp add: new_pooled_book_def fresh_pool_def node_max_size_def word_le_nat_alt)

lemma capacity_exceeded_does_not_mutate_state:
  "do {
     let p0 = fresh_pool 1;
     p1 \<leftarrow> expect Applied (pooled_add_order p0 (OrderId 1) Buy (Price 100) (Quantity 10) (Timestamp 1));
     p2 \<leftarrow> expect CapacityExceeded (pooled_add_order p1 (OrderId 2) Sell (Price 101) (Quantity 5) (Timestamp 2));
     Some (p2 = p1 \<and> pooled_live_order_count p2 = 1)
   } = Some True"
  by code_simp

lemma freed_nodes_are_reused_after_cancel_and_execute:
  "do {
     let p0 = fresh_pool 1;
     p1 \<leftarrow> expect Applied (pooled_add_order p0 (OrderId 1) Buy (Price 100) (Quantity 10) (Timestamp 1));
     c2 \<leftarrow> expect Applied (pooled_cancel_order p1 (OrderId 1));
     c3 \<leftarrow> expect Applied (pooled_add_order c2 (OrderId 2) Sell (Price 101) (Quantity 5) (Timestamp 2));
     x2 \<leftarrow> expect Applied (pooled_execute_order p1 (OrderId 1) (Quantity 10));
     x3 \<leftarrow> expect Applied (pooled_add_order x2 (OrderId 2) Sell (Price 101) (Quantity 5) (Timestamp 2));
     Some (pooled_live_order_count c3 = 1 \<and> assert_level (top_ask (pooled_top_of_book c3)) 101 5 1
       \<and> pooled_live_order_count x3 = 1)
   } = Some True"
  by code_simp

section \<open>Parser\<close>

definition schema_header :: string where
  "schema_header = ''timestamp_ns,event_type,order_id,side,price,quantity'' @ [newline]"

fun file_of :: "string list \<Rightarrow> string" where
  "file_of [] = []"
| "file_of (l # ls) = l @ newline # file_of ls"

fun next_results :: "nat \<Rightarrow> CsvParser \<Rightarrow> CsvParseResult list" where
  "next_results 0 p = []"
| "next_results (Suc n) p = (case csv_next p of (r, q) \<Rightarrow> r # next_results n q)"

definition open_text :: "string \<Rightarrow> CsvParser" where
  "open_text contents = new_csv_parser (\<lambda>path. Some contents) ''fixture.csv''"

lemma malformed_rows_are_reported:
  "map (\<lambda>r. (cr_status r, cr_line_number r, cr_message r)) (next_results 1 (open_text (file_of
     [''timestamp,event_type,order_id,side,price,quantity'', ''1,ADD,1,B,100,10''])))
   = [(MalformedRow, 1, ''invalid CSV header'')]"
  "map (\<lambda>r. (cr_status r, cr_message r)) (next_results 7 (open_text (schema_header @ file_of
     [''1,ADD,1,B,100'', ''bad,ADD,1,B,100,10'', ''1,UNKNOWN,1,B,100,10'', ''1,ADD,1,,100,10'', ''1,ADD,1,X,100,10'',
      ''1,CANCEL,1,,100,'']))) 
   = [(MalformedRow, ''expected 6 columns''), (MalformedRow, ''invalid timestamp_ns''), (MalformedRow, ''unknown event_type''),
      (MalformedRow, ''ADD requires side B or S''), (MalformedRow, ''ADD requires side B or S''),
      (MalformedRow, ''CANCEL requires empty side, price, and quantity''), (EndOfFile, [])]"
  by code_simp+

section \<open>Queue\<close>

definition fresh_ring :: "size_t \<Rightarrow> SpscRingBuffer" where
  "fresh_ring c = \<lparr>sp_capacity = c, sp_mask = c - 1, sp_buffer = replicate (unat c) default_event, sp_write = 0, sp_read = 0\<rparr>"

lemma fresh_ring_new: "c \<le> 1024 \<Longrightarrow> c \<noteq> 0 \<Longrightarrow> is_power_of_two c \<Longrightarrow> new_spsc c = Inr (fresh_ring c)"
  by (simp add: new_spsc_def fresh_ring_def event_max_size_def word_le_nat_alt)

definition queue_event :: "u64 \<Rightarrow> MarketEvent" where
  "queue_event i = test_event Add i Buy (10000 + i mod 32) 100 i"

lemma full_queue_returns_false_and_preserves_entries:
  "do {
     q1 \<leftarrow> expect True (try_push (fresh_ring 2) (queue_event 1));
     q2 \<leftarrow> expect True (try_push q1 (queue_event 2));
     q3 \<leftarrow> expect False (try_push q2 (queue_event 3));
     q4 \<leftarrow> expect (Some (queue_event 1)) (try_pop q3);
     q5 \<leftarrow> expect (Some (queue_event 2)) (try_pop q4);
     q6 \<leftarrow> expect None (try_pop q5);
     Some (spsc_full q2 \<and> spsc_empty q6)
   } = Some True"
  by code_simp

lemma wraparound_preserves_order:
  "do {
     (rs, q1) \<leftarrow> push_list try_push (fresh_ring 4) (map queue_event [1, 2, 3, 4]);
     q2 \<leftarrow> expect (Some (queue_event 1)) (try_pop q1);
     q3 \<leftarrow> expect (Some (queue_event 2)) (try_pop q2);
     q4 \<leftarrow> expect True (try_push q3 (queue_event 5));
     q5 \<leftarrow> expect True (try_push q4 (queue_event 6));
     (es, q6) \<leftarrow> pop_list try_pop q5 4;
     Some (spsc_full q5 \<and> es = map (\<lambda>i. Some (queue_event i)) [3, 4, 5, 6] \<and> spsc_empty q6)
   } = Some True"
  by code_simp

lemma constructor_rejects_invalid_capacity:
  "new_spsc 0 = Inl (InvalidArgument ''SpscRingBuffer capacity must be a nonzero power of two'')"
  "new_spsc 3 = Inl (InvalidArgument ''SpscRingBuffer capacity must be a nonzero power of two'')"
proof -
  show "new_spsc 0 = Inl (InvalidArgument ''SpscRingBuffer capacity must be a nonzero power of two'')"
    by (simp add: new_spsc_def)
  have "\<not> is_power_of_two 3" by code_simp
  then show "new_spsc 3 = Inl (InvalidArgument ''SpscRingBuffer capacity must be a nonzero power of two'')"
    by (simp add: new_spsc_def event_max_size_def)
qed

end
