(* ===== verification/Spec2Isabelle.thy ===== *)
theory Spec2Isabelle
  imports Limit_Book_Properties Pooled_Book_Properties Replay_Tool Benchmarks Spsc_Queries Test_Scenarios
begin

text \<open>
  A verification development for \<^bold>\<open>datagine\<close>, a C++20 market data engine: it reads order events from a
  CSV file, applies them to a limit order book, checks the book after every event, watches the
  stream for anomalies and prints a deterministic summary with a checksum of the final book.

  \<^bold>\<open>Parts of the program and the theories that model them\<close>

  File names are relative to the repository. Definitions have the names of the functions, methods,
  structs and enums that they model; methods of \<^verbatim>\<open>PooledLimitOrderBook\<close> are prefixed with \<open>pooled_\<close>.

  \<^item> \<open>Prelude\<close>, \<open>Std_Containers\<close>, \<open>Std_Streams\<close>: what the sources use of the language and its standard
    library. 64-bit integers as words; signed subtraction that is undefined on overflow; vectors
    with a checked index; ordered maps as association lists sorted by a comparator (the locale
    \<open>comparator\<close>, interpreted for \<^verbatim>\<open>std::less\<close>, \<^verbatim>\<open>std::greater\<close>, the two sides of a book, strings and the report
    order of the tool); hash maps as maps; \<^verbatim>\<open>std::ifstream\<close> with \<^verbatim>\<open>getline\<close>; number printing.
  \<^item> \<open>Core_Types\<close>, \<open>Book_Types\<close> (\<^verbatim>\<open>include/datagine/core\<close>, \<^verbatim>\<open>src/core/market_event.cpp\<close>, the structs of
    \<^verbatim>\<open>include/datagine/book/limit_order_book.hpp\<close>): enums, strong typedefs with their orders, events, views.
  \<^item> \<open>Book_Spec\<close>: the abstract book, a list of live orders in arrival order with an optional capacity, its
    operations, what each view must show, and the locale \<open>order_book\<close>: an implementation with a relation
    to the abstract book that every operation and view respects. \<open>book_pair\<close> relates two of them.
  \<^item> \<open>Limit_Order_Book\<close>, \<open>Limit_Book_Refinement\<close>, \<open>Limit_Book_Properties\<close>
    (\<^verbatim>\<open>src/book/limit_order_book.cpp\<close>): two ordered maps of levels with a linked list of entries each and a
    lookup table of iterators; an iterator is the address of a list node and using a stale one is \<open>None\<close>.
    The interpretation \<open>lob\<close> of \<open>order_book\<close> is the refinement.
  \<^item> \<open>Pooled_Limit_Order_Book\<close>, \<open>Pooled_Refinement\<close>, \<open>Pooled_Book_Properties\<close>
    (\<^verbatim>\<open>src/book/pooled_limit_order_book.cpp\<close>): the same book over a vector of nodes with \<^verbatim>\<open>prev\<close>/\<^verbatim>\<open>next\<close> indices and a
    free list; every node access is checked. The interpretation \<open>pooled\<close> is its refinement.
  \<^item> \<open>Csv_Parser\<close> (\<^verbatim>\<open>src/feed/csv_parser.cpp\<close>): header, column splitting, trimming, integer parsing, all
    error messages, \<^verbatim>\<open>next\<close> and \<^verbatim>\<open>reset\<close>. The locale \<open>result_source\<close> is what the loops over a parser rely on;
    \<open>csv\<close> is its interpretation on \<open>csv_next\<close>.
  \<^item> \<open>Anomaly_Detector\<close>, \<open>Anomaly_Properties\<close> (\<^verbatim>\<open>src/anomaly/anomaly_detector.cpp\<close>): rolling windows, features, the
    EWMA detector, the monitor and the summary of reasons. Arithmetic on \<^verbatim>\<open>double\<close> is the record \<open>double_ops\<close>, an
    argument of the definitions, about which nothing is assumed.
  \<^item> \<open>Checksum\<close>, \<open>Replay_Engine\<close>, \<open>Replay_Properties\<close> (\<^verbatim>\<open>src/replay/replay_engine.cpp\<close>): the FNV-1a checksum of a
    snapshot, the printers, and \<open>replay_file\<close>, which composes parser, book, monitor and checksum.
  \<^item> \<open>Replay_Tool\<close> (\<^verbatim>\<open>tools/datagine_replay.cpp\<close>): \<^verbatim>\<open>main\<close> as a function from the arguments and the file system
    to the standard output, the standard error and the exit code.
  \<^item> \<open>Spsc_Ring_Buffer\<close> (\<^verbatim>\<open>include/datagine/queue/spsc_ring_buffer.hpp\<close>): \<open>try_push\<close> and \<open>try_pop\<close> as functions (the locale
    \<open>bounded_fifo\<close>, interpreted as \<open>ring\<close>), and the two threads as the step relation \<open>spsc_step\<close>, one step for
    each atomic access or slot access, in which a load of the other thread's counter may return any
    value between the last one seen and the current one, as acquire loads may. \<open>Spsc_Queries\<close> adds
    \<^verbatim>\<open>approximate_size\<close>, \<^verbatim>\<open>full\<close> and \<^verbatim>\<open>empty\<close> as the two threads see them while the other one runs, and as a third
    thread sees them, whose two loads are separate steps (\<open>observed_step\<close>).
  \<^item> \<open>Bench_Streams\<close>, \<open>Bench_Iterations\<close>, \<open>Queued_Replay\<close>, \<open>Queued_Fairness\<close>, \<open>Benchmarks\<close>
    (\<^verbatim>\<open>bench/datagine_benchmarks.cpp\<close>): the workload generators, undefined when a timestamp overflows,
    one iteration of every benchmark, the threaded replay, whose two threads interleave over \<open>spsc_step\<close>, its infinite fair executions, and the
    benchmarks as a whole. What the benchmark library decides is the record \<open>bench_library\<close>; the clock,
    the temporary directory and the output of the fixture file are arguments.
  \<^item> \<open>Test_Scenarios\<close> (\<^verbatim>\<open>tests\<close>): scenarios of the unit tests of the books, the parser and the queue, evaluated on
    the model.

  \<^bold>\<open>Conventions\<close>

  A result of type \<open>option\<close> is \<open>None\<close> for undefined behaviour and for a loop that does not end; so each
  theorem with \<open>Some\<close> in its conclusion shows that neither happens. Exceptions of the constructors are
  \<open>Inl\<close>. There is no fuel: loops whose end depends on data (the traversals of the pooled book, reading a
  file, the replay loop) are \<^theory_text>\<open>partial_function (option)\<close> and are proved to return. Counters and quantities
  wrap around at 64 bits as in the sources.

  \<^bold>\<open>What is proved\<close>

  \<^item> Books: both refine the abstract book on every event sequence, without undefined behaviour; they
    agree with each other while the pool is not full (below); price-time priority; best prices;
    conservation of quantity; a rejected event changes nothing; the pool leaks no node and is full
    exactly at its capacity; \<open>validate_invariants\<close> fails only for a crossed book; the level quantity is a
    sum modulo \<open>2 ^ 64\<close>, and in every book one more accepted order can make the best level show zero.
  \<^item> Parser: printed events parse back; accepted rows have a canonical form; unsigned columns are
    accepted exactly in range; a file is read to its end with one numbered result for each row; a file
    that could not be opened never reports an end.
  \<^item> Anomalies: the windows hold exactly the recent events of a stream in time order; the reports are
    exactly those the table of features, the statistics before the event and the threshold prescribe;
    features are scored independently; the expiry overflows on extreme timestamps.
  \<^item> Checksum and replay: the checksum is the hash of bytes that determine the snapshot, and differs when
    one byte differs; a replay returns what the abstract book prescribes, accounts for every row, stops
    at the first forbidden crossed book, and does not depend on the engine's past; replaying printed
    events equals applying them, under options that do not stop the replay; output, with and without the
    anomaly report, and exit code of the tool.
  \<^item> Queue: in every interleaving events leave in the order they entered, at most the capacity are in
    flight, the threads never meet in a slot, \<open>full\<close> is reliable for the producer and \<open>empty\<close> for the consumer
    (and neither for a third thread, which can see \<open>2 ^ 64 - k\<close> events in an empty queue); the threaded replay equals the sequential one, can always
    finish, and does finish when both threads keep being scheduled and stores become visible; the
    registered benchmarks never report an error, and the rate of the threaded one is the number of its
    events over the total of the clock times.

  \<^bold>\<open>Not modelled\<close>

  \<^item> Memory: allocation failure (except a vector beyond its maximal size) and \<^verbatim>\<open>reserve\<close>; values of an enum type
    outside its enumerators, and so the fallback branches that only they reach.
  \<^item> The iteration order of hash maps, which no result depends on: the sources sort or only look up.
  \<^item> IEEE arithmetic and the printing of doubles; the theorems hold for any \<open>double_ops\<close>.
  \<^item> Memory orders beyond late loads of the other thread's counter, and cache-line alignment.
    Fairness of the scheduler and visibility of stores are hypotheses of the termination theorem of
    the threaded replay, not consequences of the model.
  \<^item> The benchmark library's own behaviour (how often it repeats, what it times and prints), and read
    errors in the middle of a file.
  \<^item> The unit tests under \<^verbatim>\<open>tests\<close> as programs; \<open>Test_Scenarios\<close> has some of their scenarios as lemmas.
\<close>

section \<open>The two books agree\<close>

interpretation books: book_pair lob_rel apply_event clear top_of_book depth
  "\<lambda>b. Some (snapshot b)" "\<lambda>b s p. Some (order_ids_at_price b s p)"
  "\<lambda>b opts. Some (validate_invariants b opts)" events_applied live_order_count
  pooled_rel pooled_apply_event pooled_clear pooled_top_of_book pooled_depth
  pooled_snapshot pooled_order_ids_at_price pooled_validate_invariants pooled_events_applied pooled_live_order_count
  by unfold_locales

text \<open>C3: the pooled book is equivalent to the baseline book while its capacity is not hit. On any
  sequence of events in which the pooled book never answers \<open>CapacityExceeded\<close>, the baseline book
  returns the same results, and afterwards every query of the two books, the invariant check
  included, gives the same answer.\<close>

theorem pooled_equals_baseline:
  assumes "new_pooled_book n = Inr b0" and "run_book pooled_apply_event b0 es = Some (rs, b)"
    and "CapacityExceeded \<notin> set rs"
  shows "\<exists>a. run_book apply_event new_book es = Some (rs, a)
    \<and> top_of_book a = pooled_top_of_book b \<and> depth a k = pooled_depth b k
    \<and> Some (snapshot a) = pooled_snapshot b \<and> Some (order_ids_at_price a s p) = pooled_order_ids_at_price b s p
    \<and> Some (validate_invariants a opts) = pooled_validate_invariants b opts
    \<and> live_order_count a = pooled_live_order_count b \<and> events_applied a = pooled_events_applied b"
proof -
  let ?S = "spec_empty (Some (unat n))"
  from pooled.run_sim [OF pooled_rel_new [OF assms(1)], of es] assms(2)
  have rs: "rs = fst (spec_run ?S es)" and rel: "pooled_rel b (snd (spec_run ?S es))" by auto
  have "?S\<lparr>sb_capacity := None\<rparr> = spec_empty None" by (simp add: spec_empty_def)
  with spec_run_uncapped [of ?S es] assms(3) rs
  have free: "spec_run (spec_empty None) es = (rs, (snd (spec_run ?S es))\<lparr>sb_capacity := None\<rparr>)" by simp
  from lob.run_sim [OF lob_rel_new, of es] free obtain a where
    run: "run_book apply_event new_book es = Some (rs, a)"
    and rel': "lob_rel a ((snd (spec_run ?S es))\<lparr>sb_capacity := None\<rparr>)" by auto
  moreover have "events_applied a = pooled_events_applied b"
    by (simp add: lob.count_sim [OF rel'] pooled.count_sim [OF rel])
  ultimately show ?thesis using books.same_views [OF rel' rel] by auto
qed

theorem pooled_equals_baseline_witness:
  "new_pooled_book 2 = Inr pooled_sample_start
     \<and> run_book pooled_apply_event pooled_sample_start pooled_sample_events
        = Some ([Applied, Applied, Applied, Applied], pooled_sample_book)
     \<and> (\<exists>a. run_book apply_event new_book pooled_sample_events = Some ([Applied, Applied, Applied, Applied], a)
        \<and> Some (snapshot a) = pooled_snapshot pooled_sample_book)"
  using pooled_equals_baseline [OF pooled_sample_new pooled_sample_run, of 0 Buy "Price 0" "\<lparr>allow_crossed_book = False\<rparr>"]
    pooled_sample_new pooled_sample_run by auto

end
